(* ===== verification/Prelude.thy ===== *)
theory Prelude
  imports Main "HOL-Library.Word"
begin

unbundle bit_operations_syntax

section \<open>Shared vocabulary: faults, results, byte memory\<close>

text \<open>
  What every component theory uses.  A C function that can abort, dereference a bad pointer or
  run out of an array returns a value of type \<open>'a res\<close>: \<open>Inl\<close> of a \<open>fault\<close>, or \<open>Inr\<close> of its result.
  Raw memory is a function from addresses to bytes; 32- and 64-bit fields are read and
  written in little-endian order (the x86 layout that the sources assume), with the laws
  that a read sees the last overlapping write and ignores disjoint ones.
\<close>

named_theorems res_simps \<open>evaluation of results\<close>
named_theorems mem_simps \<open>reading byte memory after a write\<close>
named_theorems flag_simps \<open>bits of machine words after a mask\<close>

subsection \<open>Faults and results\<close>

datatype fault =
    Assert_failed            \<comment> \<open>a failed \<open>assert\<close>\<close>
  | Out_of_bounds            \<comment> \<open>an array index out of range (undefined behaviour)\<close>
  | Null_deref               \<comment> \<open>a dereferenced null pointer\<close>
  | Use_after_free           \<comment> \<open>an access through a pointer to freed memory\<close>
  | Division_by_zero         \<comment> \<open>an integer division by zero\<close>
  | Signed_overflow          \<comment> \<open>signed arithmetic beyond the type (undefined behaviour)\<close>
  | Protection_fault         \<comment> \<open>a write to a read-only page\<close>
  | Diverges                 \<comment> \<open>the code does not return\<close>
  | Exit nat                 \<comment> \<open>the process called \<open>exit\<close>\<close>
  | Out_of_fuel              \<comment> \<open>the model's bound on the depth was too small: no behaviour of the code\<close>

type_synonym 'a res = "fault + 'a"

abbreviation Ok :: "'a \<Rightarrow> 'a res" where
  "Ok \<equiv> Inr"

abbreviation Err :: "fault \<Rightarrow> 'a res" where
  "Err \<equiv> Inl"

definition res_bind :: "'a res \<Rightarrow> ('a \<Rightarrow> 'b res) \<Rightarrow> 'b res" where
  "res_bind r f = (case r of Inl e \<Rightarrow> Inl e | Inr x \<Rightarrow> f x)"

lemma res_bind_Ok [simp, res_simps]: "res_bind (Ok x) f = f x"
  by (simp add: res_bind_def)

lemma res_bind_Err [simp, res_simps]: "res_bind (Err e) f = Err e"
  by (simp add: res_bind_def)

lemma res_bind_eq_Ok:
  "res_bind r f = Ok y \<longleftrightarrow> (\<exists>x. r = Ok x \<and> f x = Ok y)"
  by (cases r) auto

lemma res_bind_OkE [elim!]:
  assumes "res_bind r f = Ok y"
  obtains x where "r = Ok x" and "f x = Ok y"
  using assms by (auto simp: res_bind_eq_Ok)

lemma res_bind_cong [fundef_cong]:
  "r = r' \<Longrightarrow> (\<And>x. r' = Ok x \<Longrightarrow> f x = g x) \<Longrightarrow> res_bind r f = res_bind r' g"
  by (cases r') auto

text \<open>An \<open>assert\<close> of the source.\<close>

definition check :: "bool \<Rightarrow> fault \<Rightarrow> unit res" where
  "check b e = (if b then Ok () else Err e)"

lemma check_Ok [simp, res_simps]: "check b e = Ok u \<longleftrightarrow> b"
  by (simp add: check_def)

lemma check_True [simp, res_simps]: "check True e = Ok ()"
  by (simp add: check_def)

lemma check_False [simp, res_simps]: "check False e = Err e"
  by (simp add: check_def)

subsection \<open>Bits of words\<close>

text \<open>The simplifier writes \<open>1 << n\<close>, that is \<open>push_bit n 1\<close>, as \<open>2 ^ n\<close>.\<close>

lemma and_mask_eq_0_iff_bit [flag_simps]:
  fixes w :: "'a::len word"
  shows "w AND 2 ^ n = 0 \<longleftrightarrow> \<not> bit w n"
proof -
  have "w AND 2 ^ n = 0 \<longleftrightarrow> (\<forall>k < LENGTH('a). \<not> bit (w AND 2 ^ n) k)"
    by (auto simp: bit_eq_iff)
  also have "\<dots> \<longleftrightarrow> \<not> bit w n"
    by (auto simp: bit_simps dest: bit_imp_le_length)
  finally show ?thesis .
qed

lemma bit_or_mask [flag_simps]:
  fixes w :: "'a::len word"
  shows "bit (w OR 2 ^ n) k \<longleftrightarrow> bit w k \<or> (k = n \<and> n < LENGTH('a))"
  by (auto simp: bit_simps)

lemma bit_and_not_mask [flag_simps]:
  fixes w :: "'a::len word"
  shows "bit (w AND NOT (2 ^ n)) k \<longleftrightarrow> bit w k \<and> k \<noteq> n"
  by (auto simp: bit_simps dest: bit_imp_le_length)

lemma word_all_ones_iff:
  fixes w :: "'a::len word"
  shows "w = - 1 \<longleftrightarrow> (\<forall>n < LENGTH('a). bit w n)"
  by (auto simp: bit_eq_iff bit_simps)

subsection \<open>Byte memory\<close>

type_synonym byte = "8 word"
type_synonym mem = "nat \<Rightarrow> byte"

text \<open>\<open>rd n m a\<close>: the \<open>n\<close>-byte little-endian number at address \<open>a\<close>.\<close>

primrec rd :: "nat \<Rightarrow> mem \<Rightarrow> nat \<Rightarrow> nat" where
  "rd 0 m a = 0"
| "rd (Suc n) m a = unat (m a) + 256 * rd n m (Suc a)"

primrec wr :: "nat \<Rightarrow> nat \<Rightarrow> nat \<Rightarrow> mem \<Rightarrow> mem" where
  "wr 0 a v m = m"
| "wr (Suc n) a v m = (wr n (Suc a) (v div 256) m)(a := word_of_nat v)"

lemma wr_other [mem_simps]: "x < a \<or> a + n \<le> x \<Longrightarrow> wr n a v m x = m x"
  by (induction n arbitrary: a v) auto

lemma wr_at_if:
  "wr n a v m x = (if a \<le> x \<and> x < a + n then wr n a v (\<lambda>_. 0) x else m x)"
proof (induction n arbitrary: a v)
  case 0
  show ?case by (auto simp del: not_less)
next
  case (Suc n)
  show ?case
    using Suc [of "Suc a" "v div 256"] by auto
qed

lemma wr_below: "wr n (Suc a) v m a = m a"
  by (simp add: wr_other)

lemma wr_wr_same: "wr n a v (wr n a u m) = wr n a v m"
proof
  fix x
  show "wr n a v (wr n a u m) x = wr n a v m x"
  proof (cases "a \<le> x \<and> x < a + n")
    case True
    then show ?thesis
      using wr_at_if [of n a v "wr n a u m" x] wr_at_if [of n a v m x] by simp
  next
    case False
    then show ?thesis by (auto simp: wr_other not_le not_less)
  qed
qed

lemma rd_cong: "(\<And>x. a \<le> x \<Longrightarrow> x < a + n \<Longrightarrow> m x = m' x) \<Longrightarrow> rd n m a = rd n m' a"
proof (induction n arbitrary: a)
  case 0
  then show ?case by simp
next
  case (Suc n)
  have "rd n m (Suc a) = rd n m' (Suc a)"
    by (rule Suc.IH) (use Suc.prems in auto)
  moreover have "m a = m' a"
    by (rule Suc.prems) auto
  ultimately show ?case by simp
qed

lemma unat_word_of_nat_8: "unat (word_of_nat v :: byte) = v mod 256"
  by (simp add: unat_of_nat)

lemma rd_wr_same [mem_simps]: "rd n (wr n a v m) a = v mod 256 ^ n"
proof (induction n arbitrary: a v m)
  case 0
  then show ?case by simp
next
  case (Suc n)
  have "rd n ((wr n (Suc a) (v div 256) m)(a := word_of_nat v)) (Suc a)
      = rd n (wr n (Suc a) (v div 256) m) (Suc a)"
    by (rule rd_cong) auto
  also have "\<dots> = v div 256 mod 256 ^ n"
    by (rule Suc)
  finally show ?case
    by (simp add: unat_word_of_nat_8 mod_mult2_eq add.commute del: fun_upd_apply)
      (simp add: unat_word_of_nat_8)
qed

lemma rd_wr_other [mem_simps]:
  "a + n \<le> b \<or> b + k \<le> a \<Longrightarrow> rd n (wr k b v m) a = rd n m a"
  by (rule rd_cong) (auto simp: wr_other)

lemma rd_bound: "rd n m a < 256 ^ n"
proof (induction n arbitrary: a)
  case 0
  then show ?case by simp
next
  case (Suc n)
  have "unat (m a) < 256"
    using unsigned_less [where 'a = nat, of "m a"] by simp
  with Suc [of "Suc a"] show ?case by simp
qed

definition rd16 :: "mem \<Rightarrow> nat \<Rightarrow> 16 word" where
  "rd16 m a = word_of_nat (rd 2 m a)"

definition wr16 :: "nat \<Rightarrow> 16 word \<Rightarrow> mem \<Rightarrow> mem" where
  "wr16 a w m = wr 2 a (unat w) m"

definition rd32 :: "mem \<Rightarrow> nat \<Rightarrow> 32 word" where
  "rd32 m a = word_of_nat (rd 4 m a)"

definition wr32 :: "nat \<Rightarrow> 32 word \<Rightarrow> mem \<Rightarrow> mem" where
  "wr32 a w m = wr 4 a (unat w) m"

definition rd64 :: "mem \<Rightarrow> nat \<Rightarrow> 64 word" where
  "rd64 m a = word_of_nat (rd 8 m a)"

definition wr64 :: "nat \<Rightarrow> 64 word \<Rightarrow> mem \<Rightarrow> mem" where
  "wr64 a w m = wr 8 a (unat w) m"

lemma rd16_wr16 [mem_simps]: "rd16 (wr16 a w m) a = w"
  using unsigned_less [where 'a = nat, of w] by (simp add: rd16_def wr16_def rd_wr_same)

lemma rd32_wr32 [mem_simps]: "rd32 (wr32 a w m) a = w"
  using unsigned_less [where 'a = nat, of w] by (simp add: rd32_def wr32_def rd_wr_same)

lemma rd64_wr64 [mem_simps]: "rd64 (wr64 a w m) a = w"
  using unsigned_less [where 'a = nat, of w] by (simp add: rd64_def wr64_def rd_wr_same)

lemma wr32_wr32 [mem_simps]: "wr32 a v (wr32 a u m) = wr32 a v m"
  by (simp add: wr32_def wr_wr_same)

lemma rd32_wr32_other [mem_simps]:
  "a + 4 \<le> b \<or> b + 4 \<le> a \<Longrightarrow> rd32 (wr32 b w m) a = rd32 m a"
  by (simp add: rd32_def wr32_def rd_wr_other)

lemma rd32_wr64_other [mem_simps]:
  "a + 4 \<le> b \<or> b + 8 \<le> a \<Longrightarrow> rd32 (wr64 b w m) a = rd32 m a"
  by (simp add: rd32_def wr64_def rd_wr_other)

lemma rd64_wr32_other [mem_simps]:
  "a + 8 \<le> b \<or> b + 4 \<le> a \<Longrightarrow> rd64 (wr32 b w m) a = rd64 m a"
  by (simp add: rd64_def wr32_def rd_wr_other)

lemma rd64_wr64_other [mem_simps]:
  "a + 8 \<le> b \<or> b + 8 \<le> a \<Longrightarrow> rd64 (wr64 b w m) a = rd64 m a"
  by (simp add: rd64_def wr64_def rd_wr_other)

lemma wr32_other [mem_simps]: "x < a \<or> a + 4 \<le> x \<Longrightarrow> wr32 a w m x = m x"
  by (simp add: wr32_def wr_other)

lemma wr64_other [mem_simps]: "x < a \<or> a + 8 \<le> x \<Longrightarrow> wr64 a w m x = m x"
  by (simp add: wr64_def wr_other)

lemma rd32_cong: "(\<And>x. a \<le> x \<Longrightarrow> x < a + 4 \<Longrightarrow> m x = m' x) \<Longrightarrow> rd32 m a = rd32 m' a"
  by (simp add: rd32_def cong: rd_cong)

lemma rd64_cong: "(\<And>x. a \<le> x \<Longrightarrow> x < a + 8 \<Longrightarrow> m x = m' x) \<Longrightarrow> rd64 m a = rd64 m' a"
  by (simp add: rd64_def cong: rd_cong)

text \<open>The bits of a field are those of its bytes.\<close>

lemma bit_word_of_nat: "bit (word_of_nat v :: 'a::len word) n \<longleftrightarrow> n < LENGTH('a) \<and> bit v n"
proof -
  have "bit (word_of_nat v :: 'a word) n \<longleftrightarrow> bit (unat (word_of_nat v :: 'a word)) n"
    by (simp add: bit_unsigned_iff)
  also have "\<dots> \<longleftrightarrow> bit (take_bit LENGTH('a) v) n"
    by (simp add: unsigned_of_nat)
  finally show ?thesis by (simp add: bit_take_bit_iff)
qed

lemma bit_byte_cons:
  fixes u r :: nat
  assumes "u < 256"
  shows "bit (u + 256 * r) i \<longleftrightarrow> (if i < 8 then bit u i else bit r (i - 8))"
proof (cases "i < 8")
  case True
  have "take_bit 8 (u + 256 * r) = u"
    using assms by (simp add: take_bit_eq_mod)
  then show ?thesis
    using True bit_take_bit_iff [of 8 "u + 256 * r" i] by simp
next
  case False
  have "drop_bit 8 (u + 256 * r) = r"
    using assms by (simp add: drop_bit_eq_div)
  then show ?thesis
    using False bit_drop_bit_eq [of 8 "u + 256 * r"] by (metis comp_apply le_add_diff_inverse not_less)
qed

lemma byte_less: "unat (b :: byte) < 256"
  using unsigned_less [where 'a = nat, of b] by simp

lemma bit_rd: "j < n \<Longrightarrow> k < 8 \<Longrightarrow> bit (rd n m a) (8 * j + k) \<longleftrightarrow> bit (m (a + j)) k"
proof (induction n arbitrary: a j)
  case (Suc n)
  show ?case
  proof (cases j)
    case 0
    then show ?thesis
      using Suc.prems by (simp add: bit_byte_cons byte_less bit_unsigned_iff)
  next
    case (Suc i)
    then show ?thesis
      using Suc.IH [of i "Suc a"] Suc.prems by (simp add: bit_byte_cons byte_less)
  qed
qed simp

lemma bit_wr: "j < n \<Longrightarrow> k < 8 \<Longrightarrow> bit (wr n a v m (a + j)) k \<longleftrightarrow> bit v (8 * j + k)"
proof (induction n arbitrary: a j v)
  case (Suc n)
  show ?case
  proof (cases j)
    case 0
    then show ?thesis
      using Suc.prems by (simp add: bit_word_of_nat)
  next
    case (Suc i)
    have "bit (v div 256) (8 * i + k) = bit v (8 * Suc i + k)"
      using bit_drop_bit_eq [of 8 v] by (simp add: drop_bit_eq_div fun_eq_iff add.assoc)
    then show ?thesis
      using Suc Suc.IH [of i "Suc a" "v div 256"] Suc.prems by simp
  qed
qed simp

lemma bit_rd32: "j < 4 \<Longrightarrow> k < 8 \<Longrightarrow> bit (rd32 m a) (8 * j + k) \<longleftrightarrow> bit (m (a + j)) k"
  by (simp add: rd32_def bit_word_of_nat bit_rd)

lemma bit_wr32: "j < 4 \<Longrightarrow> k < 8 \<Longrightarrow> bit (wr32 a w m (a + j)) k \<longleftrightarrow> bit w (8 * j + k)"
  by (simp add: wr32_def bit_wr bit_unsigned_iff)

text \<open>A field written with fewer bits set leaves every byte with no more bits set.\<close>

lemma wr32_fewer_bits:
  assumes "\<And>i. bit w i \<Longrightarrow> bit (rd32 m a) i" and "bit (wr32 a w m x) k"
  shows "bit (m x) k"
proof (cases "a \<le> x \<and> x < a + 4")
  case True
  then have j: "x - a < 4" "a + (x - a) = x" by auto
  have k: "k < 8" using bit_imp_le_length [OF assms(2)] by simp
  show ?thesis
    using assms(2) assms(1) [of "8 * (x - a) + k"] bit_wr32 [OF j(1) k, of a w m]
      bit_rd32 [OF j(1) k, of m a] j(2) by simp
next
  case False
  then show ?thesis
    using assms(2) by (auto simp: wr32_other not_le not_less)
qed

text \<open>\<open>blit bs a m\<close>: copy the bytes \<open>bs\<close> to address \<open>a\<close>; \<open>bytes_at n m a\<close> reads them.\<close>

definition bytes_at :: "nat \<Rightarrow> mem \<Rightarrow> nat \<Rightarrow> byte list" where
  "bytes_at n m a = map (\<lambda>i. m (a + i)) [0..<n]"

definition blit :: "byte list \<Rightarrow> nat \<Rightarrow> mem \<Rightarrow> mem" where
  "blit bs a m = (\<lambda>x. if a \<le> x \<and> x < a + length bs then bs ! (x - a) else m x)"

lemma length_bytes_at [simp]: "length (bytes_at n m a) = n"
  by (simp add: bytes_at_def)

lemma bytes_at_blit_same [mem_simps]: "bytes_at (length bs) (blit bs a m) a = bs"
  by (rule nth_equalityI) (auto simp: bytes_at_def blit_def)

lemma bytes_at_blit_other [mem_simps]:
  "a + n \<le> b \<or> b + length bs \<le> a \<Longrightarrow> bytes_at n (blit bs b m) a = bytes_at n m a"
  by (auto simp: bytes_at_def blit_def)

lemma blit_other [mem_simps]: "x < a \<or> a + length bs \<le> x \<Longrightarrow> blit bs a m x = m x"
  by (auto simp: blit_def)

subsection \<open>Lists\<close>

lemma nth_list_update_if:
  "i < length xs \<Longrightarrow> xs[i := x] ! j = (if i = j then x else xs ! j)"
  by simp

end
