(* ===== verification/Bitmap.thy ===== *)
theory Bitmap
  imports Prelude
begin

section \<open>The swap-space bitmap (Assignment2/swap.c)\<close>

text \<open>
  \<open>struct bitmap\<close> of \<open>swap.c\<close> and its seven operations.  A bit is set when its slot of the swap
  file is in use.  The abstract view of a bitmap is the set \<open>bset b\<close> of its set bits; every
  operation is related to an operation on that set.
\<close>

subsection \<open>The code\<close>

record bitmap =
  nbits :: "32 word"
  bv :: "32 word list"

definition BITS_PER_WORD :: "32 word" where
  "BITS_PER_WORD = 32"

definition WORD_ALLBITS :: "32 word" where
  "WORD_ALLBITS = 0xffffffff"

definition DIVROUNDUP :: "32 word \<Rightarrow> 32 word \<Rightarrow> 32 word" where
  "DIVROUNDUP a b = (a + b - 1) div b"

text \<open>
  \<open>bitmap_create\<close>: \<open>m1\<close> and \<open>m2\<close> say whether the two calls of \<open>malloc\<close> return memory; the
  result is \<open>None\<close> for a null pointer.  Both calls precede every use of the memory.
\<close>

definition mark_leftover :: "nat \<Rightarrow> 32 word \<Rightarrow> 32 word" where
  "mark_leftover overbits w = fold (\<lambda>j w. w OR push_bit j 1) [overbits..<32] w"

definition bitmap_create :: "bool \<Rightarrow> bool \<Rightarrow> 32 word \<Rightarrow> bitmap option res" where
  "bitmap_create m1 m2 n =
     (let words = DIVROUNDUP n BITS_PER_WORD in
      if \<not> m1 then Ok None
      else if \<not> m2 then Ok None
      else
        let v = replicate (unat words) 0 in
        if words > n div BITS_PER_WORD then
          let ix = words - 1; overbits = n - ix * BITS_PER_WORD in
          res_bind (check (n div BITS_PER_WORD = words - 1) Assert_failed) (\<lambda>_.
          res_bind (check (overbits > 0 \<and> overbits < BITS_PER_WORD) Assert_failed) (\<lambda>_.
            Ok (Some \<lparr>nbits = n,
                      bv = v[unat ix := mark_leftover (unat overbits) (v ! unat ix)]\<rparr>)))
        else Ok (Some \<lparr>nbits = n, bv = v\<rparr>))"

text \<open>The inner loop of \<open>bitmap_alloc\<close>: the first clear bit of a word from \<open>offset\<close> on.\<close>

function clear_bit_from :: "32 word \<Rightarrow> nat \<Rightarrow> nat option" where
  "clear_bit_from w offset =
     (if offset < 32
      then (if w AND push_bit offset 1 = 0 then Some offset else clear_bit_from w (Suc offset))
      else None)"
  by pat_completeness auto
termination
  by (relation "measure (\<lambda>(w, offset). 32 - offset)") auto

declare clear_bit_from.simps [simp del]

text \<open>The outer loop, over the words from \<open>ix\<close> up to \<open>maxix\<close>.  The result is the code's return
  value, the value left in \<open>*index\<close> and the bitmap.\<close>

function bitmap_alloc_from :: "nat \<Rightarrow> nat \<Rightarrow> bitmap \<Rightarrow> (int \<times> 32 word option \<times> bitmap) res" where
  "bitmap_alloc_from ix maxix b =
     (if ix < maxix then
        if ix \<ge> length (bv b) then Err Out_of_bounds
        else if bv b ! ix \<noteq> WORD_ALLBITS then
          (case clear_bit_from (bv b ! ix) 0 of
             Some offset \<Rightarrow>
               (let index = word_of_nat ix * BITS_PER_WORD + word_of_nat offset in
                res_bind (check (index < nbits b) Assert_failed) (\<lambda>_.
                  Ok (0, Some index,
                      b\<lparr>bv := (bv b)[ix := bv b ! ix OR push_bit offset 1]\<rparr>)))
           | None \<Rightarrow> Err Assert_failed)
        else bitmap_alloc_from (Suc ix) maxix b
      else Ok (1, None, b))"
  by pat_completeness auto
termination
  by (relation "measure (\<lambda>(ix, maxix, b). maxix - ix)") auto

declare bitmap_alloc_from.simps [simp del]

definition bitmap_alloc :: "bitmap \<Rightarrow> (int \<times> 32 word option \<times> bitmap) res" where
  "bitmap_alloc b = bitmap_alloc_from 0 (unat (DIVROUNDUP (nbits b) BITS_PER_WORD)) b"

definition bitmap_translate :: "32 word \<Rightarrow> nat \<times> 32 word" where
  "bitmap_translate bitno =
     (unat (bitno div BITS_PER_WORD), push_bit (unat (bitno mod BITS_PER_WORD)) 1)"

definition bitmap_mark :: "bitmap \<Rightarrow> 32 word \<Rightarrow> bitmap res" where
  "bitmap_mark b index =
     res_bind (check (index < nbits b) Assert_failed) (\<lambda>_.
       let (ix, mask) = bitmap_translate index in
       if ix \<ge> length (bv b) then Err Out_of_bounds
       else res_bind (check (bv b ! ix AND mask = 0) Assert_failed) (\<lambda>_.
         Ok (b\<lparr>bv := (bv b)[ix := bv b ! ix OR mask]\<rparr>)))"

definition bitmap_unmark :: "bitmap \<Rightarrow> 32 word \<Rightarrow> bitmap res" where
  "bitmap_unmark b index =
     res_bind (check (index < nbits b) Assert_failed) (\<lambda>_.
       let (ix, mask) = bitmap_translate index in
       if ix \<ge> length (bv b) then Err Out_of_bounds
       else res_bind (check (bv b ! ix AND mask \<noteq> 0) Assert_failed) (\<lambda>_.
         Ok (b\<lparr>bv := (bv b)[ix := bv b ! ix AND NOT mask]\<rparr>)))"

definition bitmap_isset :: "bitmap \<Rightarrow> 32 word \<Rightarrow> 32 word res" where
  "bitmap_isset b index =
     (let (ix, mask) = bitmap_translate index in
      if ix \<ge> length (bv b) then Err Out_of_bounds else Ok (bv b ! ix AND mask))"

text \<open>\<open>bitmap_destroy\<close> frees the words and then the structure; \<open>None\<close> is a bitmap that was freed.\<close>

definition bitmap_destroy :: "bitmap option \<Rightarrow> bitmap option res" where
  "bitmap_destroy b = (case b of None \<Rightarrow> Err Use_after_free | Some _ \<Rightarrow> Ok None)"

subsection \<open>The abstract view\<close>

definition bset :: "bitmap \<Rightarrow> nat set" where
  "bset b = {k. k < 32 * length (bv b) \<and> bit (bv b ! (k div 32)) (k mod 32)}"

text \<open>
  Well-formed: enough words for \<open>nbits\<close>, no wrap-around in \<open>DIVROUNDUP\<close>, and the bits past
  \<open>nbits\<close> in use.
\<close>

definition bitmap_ok :: "bitmap \<Rightarrow> bool" where
  "bitmap_ok b \<longleftrightarrow>
     unat (nbits b) \<le> 2 ^ 32 - 32 \<and>
     length (bv b) = (unat (nbits b) + 31) div 32 \<and>
     (\<forall>k. unat (nbits b) \<le> k \<longrightarrow> k < 32 * length (bv b) \<longrightarrow> k \<in> bset b)"

definition bcap :: "bitmap \<Rightarrow> nat" where
  "bcap b = unat (nbits b)"

lemmas bitmap_consts = BITS_PER_WORD_def WORD_ALLBITS_def

subsection \<open>Words and bit numbers\<close>

lemma unat_div_32: "unat ((n :: 32 word) div 32) = unat n div 32"
  by (simp add: unat_div)

lemma unat_mod_32: "unat ((n :: 32 word) mod 32) = unat n mod 32"
  by (simp add: unat_mod)

lemma unat_DIVROUNDUP:
  assumes "unat n \<le> 2 ^ 32 - 32"
  shows "unat (DIVROUNDUP n BITS_PER_WORD) = (unat n + 31) div 32"
proof -
  have "unat (n + 31) = unat n + 31"
    using assms by (simp add: unat_word_ariths)
  moreover have "n + 32 - 1 = n + 31"
    by (simp add: algebra_simps)
  ultimately show ?thesis
    by (simp add: DIVROUNDUP_def BITS_PER_WORD_def unat_div_32 add.commute)
qed

lemma unat_bit_number:
  assumes "32 * ix + k < 2 ^ 32"
  shows "unat (word_of_nat ix * BITS_PER_WORD + word_of_nat k :: 32 word) = 32 * ix + k"
  using assms
  by (simp add: BITS_PER_WORD_def unat_word_ariths unat_of_nat mult.commute)

lemma all_ones_iff: "w = WORD_ALLBITS \<longleftrightarrow> (\<forall>n < 32. bit (w :: 32 word) n)"
proof -
  have "WORD_ALLBITS = - 1"
    by (simp add: WORD_ALLBITS_def)
  then show ?thesis
    using word_all_ones_iff [of w] by simp
qed

lemma clear_bit_from_None: "clear_bit_from w k = None \<longleftrightarrow> (\<forall>n. k \<le> n \<longrightarrow> n < 32 \<longrightarrow> bit w n)"
proof (induction w k rule: clear_bit_from.induct)
  case (1 w k)
  show ?case
  proof (cases "k < 32 \<and> bit w k")
    case True
    then have "clear_bit_from w k = clear_bit_from w (Suc k)"
      by (simp add: clear_bit_from.simps [of w k] flag_simps)
    moreover have "(\<forall>n. Suc k \<le> n \<longrightarrow> n < 32 \<longrightarrow> bit w n)
        = (\<forall>n. k \<le> n \<longrightarrow> n < 32 \<longrightarrow> bit w n)"
      using True by (metis Suc_leI Suc_leD le_neq_implies_less)
    ultimately show ?thesis
      using "1.IH" True by (simp add: flag_simps)
  next
    case False
    then show ?thesis
      by (auto simp: clear_bit_from.simps [of w k] flag_simps)
  qed
qed

lemma clear_bit_from_Some:
  "clear_bit_from w k = Some n \<Longrightarrow>
    k \<le> n \<and> n < 32 \<and> \<not> bit w n \<and> (\<forall>m. k \<le> m \<longrightarrow> m < n \<longrightarrow> bit w m)"
proof (induction w k rule: clear_bit_from.induct)
  case (1 w k)
  show ?case
  proof (cases "k < 32 \<and> bit w k")
    case True
    then have "clear_bit_from w (Suc k) = Some n"
      using "1.prems" by (simp add: clear_bit_from.simps [of w k] flag_simps)
    then have "Suc k \<le> n \<and> n < 32 \<and> \<not> bit w n \<and> (\<forall>m. Suc k \<le> m \<longrightarrow> m < n \<longrightarrow> bit w m)"
      using "1.IH" True by (simp add: flag_simps)
    with True show ?thesis
      by (metis Suc_leD Suc_leI le_neq_implies_less)
  next
    case False
    then show ?thesis
      using "1.prems" by (auto simp: clear_bit_from.simps [of w k] flag_simps split: if_splits)
  qed
qed

lemma bset_update_word:
  assumes "ix < length (bv b)"
  shows "bset (b\<lparr>bv := (bv b)[ix := w]\<rparr>)
    = {k \<in> bset b. k div 32 \<noteq> ix} \<union> {32 * ix + o' | o'. o' < 32 \<and> bit w o'}"
proof (rule set_eqI)
  fix k
  show "k \<in> bset (b\<lparr>bv := (bv b)[ix := w]\<rparr>) \<longleftrightarrow>
    k \<in> {k \<in> bset b. k div 32 \<noteq> ix} \<union> {32 * ix + o' | o'. o' < 32 \<and> bit w o'}"
  proof (cases "k div 32 = ix")
    case True
    then have k: "k = 32 * ix + k mod 32" "k < 32 * length (bv b)"
      using assms by auto
    have "k \<in> bset (b\<lparr>bv := (bv b)[ix := w]\<rparr>) \<longleftrightarrow> bit w (k mod 32)"
      using True assms k(2) by (simp add: bset_def)
    also have "\<dots> \<longleftrightarrow> (\<exists>o'. k = 32 * ix + o' \<and> o' < 32 \<and> bit w o')"
    proof
      assume "bit w (k mod 32)"
      with k(1) show "\<exists>o'. k = 32 * ix + o' \<and> o' < 32 \<and> bit w o'"
        by (intro exI [of _ "k mod 32"]) simp
    next
      assume "\<exists>o'. k = 32 * ix + o' \<and> o' < 32 \<and> bit w o'"
      then show "bit w (k mod 32)" by auto
    qed
    finally show ?thesis
      using True by simp
  next
    case False
    then show ?thesis
      by (auto simp: bset_def)
  qed
qed

lemma bset_set_bit:
  assumes "ix < length (bv b)" and "k < 32"
  shows "bset (b\<lparr>bv := (bv b)[ix := bv b ! ix OR 2 ^ k]\<rparr>) = insert (32 * ix + k) (bset b)"
  using assms
  by (auto simp: bset_update_word flag_simps) (auto simp: bset_def)

lemma bset_clear_bit:
  assumes "ix < length (bv b)" and "k < 32"
  shows "bset (b\<lparr>bv := (bv b)[ix := bv b ! ix AND NOT (2 ^ k)]\<rparr>) = bset b - {32 * ix + k}"
  using assms
  by (auto simp: bset_update_word flag_simps) (auto simp: bset_def)

lemma bset_word:
  "ix < length (bv b) \<Longrightarrow> k < 32 \<Longrightarrow> 32 * ix + k \<in> bset b \<longleftrightarrow> bit (bv b ! ix) k"
  by (simp add: bset_def)

lemma bset_bound: "k \<in> bset b \<Longrightarrow> k < 32 * length (bv b)"
  by (simp add: bset_def)

lemma bitmap_ok_update:
  assumes "bitmap_ok b" and "length v = length (bv b)"
    and "\<And>k. unat (nbits b) \<le> k \<Longrightarrow> k \<in> bset b \<Longrightarrow> k \<in> bset (b\<lparr>bv := v\<rparr>)"
  shows "bitmap_ok (b\<lparr>bv := v\<rparr>)"
  using assms by (auto simp: bitmap_ok_def)

lemma round_up_32: "(n :: nat) \<le> 32 * ((n + 31) div 32)" "32 * ((n + 31) div 32) \<le> n + 31"
  by presburger+

lemma below_next_word:
  "(j :: nat) < 32 * ix + k \<Longrightarrow> k \<le> 32 \<Longrightarrow>
    j < 32 * ix \<or> (j = 32 * ix + j mod 32 \<and> j mod 32 < k)"
proof (cases "j < 32 * ix")
  case False
  then obtain m where "j = 32 * ix + m"
    by (auto simp: not_less le_iff_add)
  moreover assume "j < 32 * ix + k" "k \<le> 32"
  ultimately show ?thesis by simp
qed simp

lemma bitmap_ok_capacity: "bitmap_ok b \<Longrightarrow> bcap b \<le> 32 * length (bv b)"
  using round_up_32(1) by (simp add: bitmap_ok_def bcap_def)

lemma bitmap_ok_free_below_cap:
  "bitmap_ok b \<Longrightarrow> k < 32 * length (bv b) \<Longrightarrow> k \<notin> bset b \<Longrightarrow> k < bcap b"
  unfolding bitmap_ok_def bcap_def by (meson not_less)

lemma bitmap_ok_size:
  assumes "bitmap_ok b"
  shows "32 * length (bv b) \<le> 2 ^ 32"
proof -
  have "32 * length (bv b) \<le> unat (nbits b) + 31" "unat (nbits b) \<le> 2 ^ 32 - 32"
    using assms round_up_32(2) by (simp_all add: bitmap_ok_def)
  then show ?thesis by simp
qed

subsection \<open>Allocation\<close>

definition first_free :: "bitmap \<Rightarrow> nat \<Rightarrow> bool" where
  "first_free b i \<longleftrightarrow> i < bcap b \<and> i \<notin> bset b \<and> (\<forall>k < i. k \<in> bset b)"

definition set_slot :: "bitmap \<Rightarrow> nat \<Rightarrow> bitmap" where
  "set_slot b i = b\<lparr>bv := (bv b)[i div 32 := bv b ! (i div 32) OR 2 ^ (i mod 32)]\<rparr>"

lemma full_word_used:
  assumes "ix < length (bv b)" and "bv b ! ix = WORD_ALLBITS" and "\<forall>k < 32 * ix. k \<in> bset b"
    and "k < 32 * Suc ix"
  shows "k \<in> bset b"
proof -
  consider "k < 32 * ix" | "k = 32 * ix + k mod 32"
    using assms(4) below_next_word [of k ix 32] by fastforce
  then show ?thesis
  proof cases
    case 2
    then show ?thesis
      using bset_word [of ix b "k mod 32"] assms(1,2) all_ones_iff [of "bv b ! ix"] by simp
  qed (use assms(3) in simp)
qed

text \<open>The lowest clear bit of the first word that has one is the first free slot.\<close>

lemma clear_bit_first_free:
  assumes "bitmap_ok b" and "ix < length (bv b)" and "\<forall>k < 32 * ix. k \<in> bset b"
    and "clear_bit_from (bv b ! ix) 0 = Some k"
  shows "first_free b (32 * ix + k)" and "k < 32"
proof -
  have k32: "k < 32" "\<not> bit (bv b ! ix) k" "\<forall>m < k. bit (bv b ! ix) m"
    using clear_bit_from_Some [OF assms(4)] by auto
  let ?i = "32 * ix + k"
  have free: "?i \<notin> bset b" and lt: "?i < 32 * length (bv b)"
    using bset_word [of ix b k] assms(2) k32 by simp_all
  have "\<forall>j < ?i. j \<in> bset b"
  proof (intro allI impI)
    fix j assume "j < ?i"
    then consider "j < 32 * ix" | "j = 32 * ix + j mod 32" "j mod 32 < k"
      using k32 below_next_word [of j ix k] by fastforce
    then show "j \<in> bset b"
    proof cases
      case 2
      then show ?thesis using bset_word [of ix b "j mod 32"] assms(2) k32 by simp
    qed (use assms(3) in simp)
  qed
  then show "first_free b ?i"
    using bitmap_ok_free_below_cap [OF assms(1)] lt free by (simp add: first_free_def)
  show "k < 32" by (rule k32)
qed

lemma bitmap_alloc_from_spec:
  assumes "bitmap_ok b" and "maxix = length (bv b)" and "ix \<le> maxix"
    and "\<forall>k < 32 * ix. k \<in> bset b"
  shows "(\<exists>i. first_free b i \<and>
            bitmap_alloc_from ix maxix b = Ok (0, Some (word_of_nat i), set_slot b i)) \<or>
         ((\<forall>k < bcap b. k \<in> bset b) \<and> bitmap_alloc_from ix maxix b = Ok (1, None, b))"
  using assms
proof (induction ix maxix b rule: bitmap_alloc_from.induct)
  case (1 ix maxix b)
  note eq = bitmap_alloc_from.simps [of ix maxix b]
  consider "\<not> ix < maxix" | (full) "ix < maxix" "bv b ! ix = WORD_ALLBITS"
    | (found) k where "ix < maxix" "bv b ! ix \<noteq> WORD_ALLBITS" "clear_bit_from (bv b ! ix) 0 = Some k"
    using all_ones_iff [of "bv b ! ix"] clear_bit_from_None [of "bv b ! ix" 0] by fastforce
  then show ?case
  proof cases
    case 1
    then show ?thesis
      using "1.prems" bitmap_ok_capacity [of b] eq by auto
  next
    case full
    then have "\<forall>k < 32 * Suc ix. k \<in> bset b"
      using full_word_used [of ix b] "1.prems"(2,4) by simp
    then show ?thesis
      using "1.IH" "1.prems" full eq by simp
  next
    case found
    define i where "i = 32 * ix + k"
    have len: "ix < length (bv b)" using found(1) "1.prems"(2) by simp
    note ff = clear_bit_first_free [OF "1.prems"(1) len "1.prems"(4) found(3), folded i_def]
    have "i < 2 ^ 32"
      using bitmap_ok_size [OF "1.prems"(1)] len ff(2) by (fastforce simp: i_def)
    moreover have "word_of_nat ix * BITS_PER_WORD + word_of_nat k = (word_of_nat i :: 32 word)"
      by (simp add: i_def BITS_PER_WORD_def mult.commute)
    moreover have "i div 32 = ix" "i mod 32 = k" "i < bcap b"
      using ff by (auto simp: i_def first_free_def)
    ultimately have "bitmap_alloc_from ix maxix b = Ok (0, Some (word_of_nat i), set_slot b i)"
      using found "1.prems"(2) eq
      by (simp add: Let_def set_slot_def bcap_def word_less_nat_alt unat_of_nat)
    then show ?thesis using ff(1) by blast
  qed
qed

lemma first_free_slot:
  assumes "bitmap_ok b" and "first_free b i"
  shows "bset (set_slot b i) = insert i (bset b)" and "bitmap_ok (set_slot b i)"
    and "bcap (set_slot b i) = bcap b" and "i < 2 ^ 32"
proof -
  have i: "i < 32 * length (bv b)"
    using assms bitmap_ok_capacity [of b] by (auto simp: first_free_def)
  then have ix: "i div 32 < length (bv b)" by auto
  then show set: "bset (set_slot b i) = insert i (bset b)"
    using bset_set_bit [of "i div 32" b "i mod 32"] by (simp add: set_slot_def)
  show "bitmap_ok (set_slot b i)"
    using set assms(1) unfolding set_slot_def by (intro bitmap_ok_update) auto
  show "bcap (set_slot b i) = bcap b"
    by (simp add: set_slot_def bcap_def)
  show "i < 2 ^ 32"
    using i bitmap_ok_size [OF assms(1)] by simp
qed

lemma bitmap_alloc_cases:
  assumes "bitmap_ok b"
  shows "(\<exists>i. first_free b i \<and> bitmap_alloc b = Ok (0, Some (word_of_nat i), set_slot b i)) \<or>
         ((\<forall>k < bcap b. k \<in> bset b) \<and> bitmap_alloc b = Ok (1, None, b))"
proof -
  have "unat (DIVROUNDUP (nbits b) BITS_PER_WORD) = length (bv b)"
    using assms by (simp add: bitmap_ok_def unat_DIVROUNDUP)
  then show ?thesis
    unfolding bitmap_alloc_def by (intro bitmap_alloc_from_spec) (use assms in auto)
qed

text \<open>
  C20. The bitmap gives out the lowest free slot: \<open>bitmap_alloc\<close> never fails an assertion and never
  leaves its array; it returns 1 with the bitmap untouched when every slot is in use, and
  otherwise returns 0 with the least clear bit, which is below \<open>nbits\<close> and is now set, nothing
  else having changed.
\<close>

theorem bitmap_alloc_correct:
  assumes "bitmap_ok b"
  shows "if {..<bcap b} \<subseteq> bset b then bitmap_alloc b = Ok (1, None, b)
         else \<exists>i b'. bitmap_alloc b = Ok (0, Some (word_of_nat i), b') \<and> i < bcap b \<and>
                i = (LEAST k. k \<notin> bset b) \<and> bset b' = insert i (bset b) \<and>
                bitmap_ok b' \<and> bcap b' = bcap b"
proof (cases "{..<bcap b} \<subseteq> bset b")
  case True
  then show ?thesis
    using bitmap_alloc_cases [OF assms] by (auto simp: first_free_def)
next
  case False
  then obtain i where i: "first_free b i"
    "bitmap_alloc b = Ok (0, Some (word_of_nat i), set_slot b i)"
    using bitmap_alloc_cases [OF assms] by auto
  have "i = (LEAST k. k \<notin> bset b)"
    using i(1) by (intro Least_equality [symmetric]) (auto simp: first_free_def not_less [symmetric])
  moreover have "i < bcap b" using i(1) by (simp add: first_free_def)
  ultimately show ?thesis
    using False i first_free_slot [OF assms i(1)] by auto
qed

subsection \<open>Creation\<close>

lemma bit_mark_leftover_fold:
  "bit (fold (\<lambda>j w. w OR push_bit j 1) js (w :: 32 word)) k \<longleftrightarrow> bit w k \<or> (k \<in> set js \<and> k < 32)"
  by (induction js arbitrary: w) (auto simp: flag_simps)

lemma bit_mark_leftover: "bit (mark_leftover o' w) k \<longleftrightarrow> bit w k \<or> (o' \<le> k \<and> k < 32)"
  unfolding mark_leftover_def bit_mark_leftover_fold by auto

lemma bset_replicate: "bset \<lparr>nbits = n, bv = replicate k 0\<rparr> = {}"
  by (auto simp: bset_def)

lemma div_round_up_cases:
  "(n + 31) div 32 = (if n mod 32 = 0 then n div 32 else Suc (n div 32))" for n :: nat
proof -
  define q r where "q = n div 32" and "r = n mod 32"
  then have n: "n = 32 * q + r" "r < 32" by auto
  show ?thesis
  proof (cases r)
    case 0
    then show ?thesis using n by simp
  next
    case (Suc r')
    then have "n + 31 = 32 * Suc q + r'" "r' < 32" using n by auto
    then have "(n + 31) div 32 = Suc q" by (simp only: div_mult_self2) simp
    then show ?thesis using Suc by (simp add: q_def r_def)
  qed
qed

text \<open>A new bitmap, when the rounding up to whole words does not wrap.\<close>

lemma bitmap_create_free:
  assumes "unat n \<le> 2 ^ 32 - 32"
  shows "\<exists>b. bitmap_create True True n = Ok (Some b) \<and> bitmap_ok b \<and> bcap b = unat n \<and>
    bset b = {unat n..<32 * length (bv b)}"
proof -
  define words where "words = DIVROUNDUP n BITS_PER_WORD"
  define N where "N = unat n"
  have w: "unat words = (N + 31) div 32"
    using assms by (simp add: words_def unat_DIVROUNDUP N_def)
  have d: "unat (n div BITS_PER_WORD) = N div 32"
    by (simp add: BITS_PER_WORD_def unat_div_32 N_def)
  show ?thesis
  proof (cases "N mod 32 = 0")
    case True
    then have "\<not> words > n div BITS_PER_WORD"
      using w d by (simp add: word_less_nat_alt div_round_up_cases)
    moreover have "bset \<lparr>nbits = n, bv = replicate (unat words) 0\<rparr>
        = {N..<32 * length (replicate (unat words) (0 :: 32 word))}"
      using True w by (simp add: bset_replicate div_round_up_cases)
    ultimately show ?thesis
      using assms w
      by (auto simp: bitmap_create_def words_def [symmetric] Let_def bitmap_ok_def bcap_def N_def)
  next
    case False
    define b where "b = \<lparr>nbits = n, bv = (replicate (unat words) 0)
        [N div 32 := mark_leftover (N mod 32) (replicate (unat words) 0 ! (N div 32))]\<rparr>"
    have words: "unat words = Suc (N div 32)"
      using w False by (simp add: div_round_up_cases)
    then have ix: "N div 32 < unat words" by simp
    have w1: "words - 1 = n div BITS_PER_WORD"
      using d words by (simp add: word_unat_eq_iff unat_sub_if')
    have over: "n - (words - 1) * BITS_PER_WORD = n mod 32"
      using w1 by (simp add: BITS_PER_WORD_def minus_div_mult_eq_mod)
    have pos: "n mod 32 > 0" "n mod 32 < BITS_PER_WORD"
      using False by (simp_all add: word_less_nat_alt unat_mod_32 N_def BITS_PER_WORD_def)
    have "words > n div BITS_PER_WORD"
      using words d by (simp add: word_less_nat_alt)
    then have "bitmap_create True True n = Ok (Some b)"
      using over pos w1 d
      by (simp add: bitmap_create_def words_def [symmetric] Let_def b_def unat_mod_32 N_def)
    moreover have set_b: "bset b = {N..<32 * length (bv b)}"
    proof -
      have "bset b = {32 * (N div 32) + o' | o'. o' < 32 \<and> N mod 32 \<le> o'}"
        using bset_update_word [of "N div 32" "\<lparr>nbits = n, bv = replicate (unat words) 0\<rparr>"] ix
        by (auto simp: b_def bset_replicate bit_mark_leftover)
      also have "\<dots> = {N..<32 * Suc (N div 32)}"
      proof -
        define q r where "q = N div 32" and "r = N mod 32"
        then have N: "N = 32 * q + r" by simp
        show ?thesis
          unfolding q_def [symmetric] r_def [symmetric] unfolding N
          by (auto simp: le_iff_add)
      qed
      finally show ?thesis
        unfolding b_def by (simp only: bitmap.simps length_list_update length_replicate words)
    qed
    moreover have nb: "nbits b = n" by (simp add: b_def)
    moreover have "length (bv b) = (N + 31) div 32"
      unfolding b_def by (simp only: bitmap.simps length_list_update length_replicate w)
    ultimately have "bitmap_ok b" "bcap b = unat n"
      using assms by (auto simp: bitmap_ok_def bcap_def N_def)
    with \<open>bitmap_create True True n = Ok (Some b)\<close> set_b show ?thesis
      unfolding N_def by blast
  qed
qed

subsection \<open>Marking, unmarking, testing\<close>

lemma translate_eq:
  "bitmap_translate i = (unat i div 32, 2 ^ (unat i mod 32))"
  by (simp add: bitmap_translate_def BITS_PER_WORD_def unat_div_32 unat_mod_32)

lemma mask_test:
  fixes i :: "32 word"
  assumes "unat i < 32 * length (bv b)"
  shows "bv b ! (unat i div 32) AND 2 ^ (unat i mod 32) = 0 \<longleftrightarrow> unat i \<notin> bset b"
  using assms by (simp add: flag_simps bset_def)

lemma slot_word_lt: "n < 32 * len \<Longrightarrow> n div 32 < len" for n len :: nat
  by auto

text \<open>
  C21. \<open>bitmap_create\<close>: a created bitmap has exactly the slots below \<open>nbits\<close> free and the leftover
  bits of its last word in use, whatever \<open>nbits\<close> is as long as the rounding up to whole words
  does not wrap; none of its assertions can fail.
\<close>

theorem bitmap_create_correct:
  assumes "unat n \<le> 2 ^ 32 - 32"
  shows "\<exists>b. bitmap_create True True n = Ok (Some b) \<and> bitmap_ok b \<and> bcap b = unat n \<and>
    bset b = {unat n..<32 * length (bv b)}"
  by (rule bitmap_create_free [OF assms])

theorem bitmap_create_correct_witness:
  "\<exists>b. bitmap_create True True 40 = Ok (Some b) \<and> bitmap_ok b \<and> bcap b = 40 \<and>
    bset b = {40..<32 * length (bv b)}"
  using bitmap_create_correct [of 40] by simp

text \<open>A bitmap of 32 slots, the first in use.\<close>

lemma sample_bitmap:
  "bitmap_ok \<lparr>nbits = 32, bv = [1]\<rparr>" "bset \<lparr>nbits = 32, bv = [1]\<rparr> = {0}"
  "bcap \<lparr>nbits = 32, bv = [1]\<rparr> = 32"
  by (auto simp: bitmap_ok_def bset_def bcap_def bit_1_iff)

theorem bitmap_alloc_correct_witness:
  "\<exists>b'. bitmap_alloc \<lparr>nbits = 32, bv = [1]\<rparr> = Ok (0, Some 1, b') \<and> bset b' = {0, 1}"
proof -
  have "(LEAST k. k \<notin> {0 :: nat}) = 1"
    by (rule Least_equality) auto
  moreover have "\<not> {..<32} \<subseteq> {0 :: nat}"
    by (auto simp: subset_iff intro!: exI [of _ 1])
  ultimately show ?thesis
    using bitmap_alloc_correct [OF sample_bitmap(1)] by (auto simp: sample_bitmap insert_commute)
qed

text \<open>\<open>bitmap_mark\<close> adds a slot to the set, \<open>bitmap_unmark\<close> takes it out.\<close>

lemma bitmap_mark_eq:
  assumes "bitmap_ok b"
  shows "if i < nbits b \<and> unat i \<notin> bset b
         then \<exists>b'. bitmap_mark b i = Ok b' \<and> bset b' = insert (unat i) (bset b) \<and>
                bitmap_ok b' \<and> bcap b' = bcap b \<and> nbits b' = nbits b
         else bitmap_mark b i = Err Assert_failed"
proof (cases "i < nbits b")
  case True
  then have lt: "unat i < 32 * length (bv b)"
    using bitmap_ok_capacity [OF assms] by (simp add: bcap_def word_less_nat_alt)
  note ix = slot_word_lt [OF lt]
  have set: "bset (set_slot b (unat i)) = insert (unat i) (bset b)"
    using bset_set_bit [OF ix, of "unat i mod 32"] by (simp add: set_slot_def)
  moreover have "bitmap_ok (set_slot b (unat i))"
    using set assms unfolding set_slot_def by (intro bitmap_ok_update) auto
  moreover have "bcap (set_slot b (unat i)) = bcap b"
    by (simp add: set_slot_def bcap_def)
  moreover have "nbits (set_slot b (unat i)) = nbits b"
    by (simp add: set_slot_def)
  ultimately show ?thesis
    using True ix mask_test [OF lt]
    by (auto simp: bitmap_mark_def translate_eq set_slot_def [symmetric])
next
  case False
  then show ?thesis by (simp add: bitmap_mark_def)
qed

lemma bitmap_unmark_eq:
  assumes "bitmap_ok b"
  shows "if i < nbits b \<and> unat i \<in> bset b
         then \<exists>b'. bitmap_unmark b i = Ok b' \<and> bset b' = bset b - {unat i} \<and>
                bitmap_ok b' \<and> bcap b' = bcap b \<and> nbits b' = nbits b
         else bitmap_unmark b i = Err Assert_failed"
proof (cases "i < nbits b")
  case True
  then have lt: "unat i < 32 * length (bv b)"
    using bitmap_ok_capacity [OF assms] by (simp add: bcap_def word_less_nat_alt)
  note ix = slot_word_lt [OF lt]
  define b' where
    "b' = b\<lparr>bv := (bv b)[unat i div 32 := bv b ! (unat i div 32) AND NOT (2 ^ (unat i mod 32))]\<rparr>"
  have set: "bset b' = bset b - {unat i}"
    using bset_clear_bit [OF ix, of "unat i mod 32"] by (simp add: b'_def)
  moreover have "bitmap_ok b'"
    using set assms True unfolding b'_def
    by (intro bitmap_ok_update) (auto simp: word_less_nat_alt)
  moreover have "bcap b' = bcap b" "nbits b' = nbits b"
    by (simp_all add: b'_def bcap_def)
  ultimately show ?thesis
    using True ix mask_test [OF lt]
    by (auto simp: bitmap_unmark_def translate_eq b'_def [symmetric])
next
  case False
  then show ?thesis by (simp add: bitmap_unmark_def)
qed

text \<open>
  \<open>bitmap_mark\<close> and \<open>bitmap_unmark\<close> insert a slot into the set of slots in use and delete it;
  their assertions fail exactly when the slot is out of range, in use already or free already; and
  to mark a free slot and unmark it gives the set that was there.
\<close>

lemma bitmap_mark_unmark:
  assumes "bitmap_ok b"
  shows "if i \<ge> nbits b then bitmap_mark b i = Err Assert_failed \<and> bitmap_unmark b i = Err Assert_failed
    else if unat i \<in> bset b
    then bitmap_mark b i = Err Assert_failed \<and>
      (\<exists>b1 b2. bitmap_unmark b i = Ok b1 \<and> bset b1 = bset b - {unat i} \<and> bitmap_ok b1 \<and> bcap b1 = bcap b \<and>
        bitmap_mark b1 i = Ok b2 \<and> bset b2 = bset b)
    else bitmap_unmark b i = Err Assert_failed \<and>
      (\<exists>b1 b2. bitmap_mark b i = Ok b1 \<and> bset b1 = insert (unat i) (bset b) \<and> bitmap_ok b1 \<and> bcap b1 = bcap b \<and>
        bitmap_unmark b1 i = Ok b2 \<and> bset b2 = bset b)"
proof -
  consider "i \<ge> nbits b" | "i < nbits b" "unat i \<in> bset b" | "i < nbits b" "unat i \<notin> bset b" by fastforce
  then show ?thesis
  proof cases
    case 1
    then have "\<not> i < nbits b" by simp
    then show ?thesis using 1 bitmap_mark_eq [OF assms, of i] bitmap_unmark_eq [OF assms, of i] by simp
  next
    case 2
    then obtain b1 where b1: "bitmap_unmark b i = Ok b1" "bset b1 = bset b - {unat i}" "bitmap_ok b1"
      "bcap b1 = bcap b" "nbits b1 = nbits b"
      using bitmap_unmark_eq [OF assms, of i] by auto
    then show ?thesis using 2 bitmap_mark_eq [OF assms, of i] bitmap_mark_eq [OF b1(3), of i] by (auto simp: insert_absorb)
  next
    case 3
    then obtain b1 where b1: "bitmap_mark b i = Ok b1" "bset b1 = insert (unat i) (bset b)" "bitmap_ok b1"
      "bcap b1 = bcap b" "nbits b1 = nbits b"
      using bitmap_mark_eq [OF assms, of i] by auto
    then show ?thesis using 3 bitmap_unmark_eq [OF assms, of i] bitmap_unmark_eq [OF b1(3), of i] by auto
  qed
qed

lemma bitmap_mark_unmark_witness:
  "\<exists>b'. bitmap_mark \<lparr>nbits = 32, bv = [1]\<rparr> 7 = Ok b' \<and> bset b' = {0, 7}"
  using bitmap_mark_unmark [OF sample_bitmap(1), of 7] by (auto simp: sample_bitmap insert_commute)

text \<open>\<open>bitmap_isset\<close> is membership.\<close>

lemma bitmap_isset_correct:
  assumes "bitmap_ok b" and "i < nbits b"
  shows "\<exists>w. bitmap_isset b i = Ok w \<and> (w \<noteq> 0 \<longleftrightarrow> unat i \<in> bset b)"
proof -
  have lt: "unat i < 32 * length (bv b)"
    using assms bitmap_ok_capacity [OF assms(1)] by (simp add: bcap_def word_less_nat_alt)
  then show ?thesis
    using slot_word_lt [OF lt] mask_test [OF lt]
    by (simp add: bitmap_isset_def translate_eq)
qed

subsection \<open>The interface the swap file uses\<close>

text \<open>
  What \<open>swap_pageout\<close> relies on: an allocator of numbered slots.  \<open>alloc\<close> returns a slot or
  nothing; the laws say that a slot handed out was free, is in range, and becomes used, and that
  nothing is returned only when every slot is used.
\<close>

text \<open>Calls in a row, until one gives nothing.\<close>

primrec allocs :: "nat \<Rightarrow> ('b \<Rightarrow> (nat option \<times> 'b) res) \<Rightarrow> 'b \<Rightarrow> (nat list \<times> 'b) res" where
  "allocs 0 alloc b = Ok ([], b)"
| "allocs (Suc k) alloc b =
     res_bind (alloc b) (\<lambda>(r, b). case r of
         None \<Rightarrow> Ok ([], b)
       | Some i \<Rightarrow> res_bind (allocs k alloc b) (\<lambda>(is, b). Ok (i # is, b)))"

locale slot_allocator =
  fixes alloc :: "'b \<Rightarrow> (nat option \<times> 'b) res"
    and used :: "'b \<Rightarrow> nat set"
    and cap :: "'b \<Rightarrow> nat"
    and ok :: "'b \<Rightarrow> bool"
  assumes alloc_Some: "ok b \<Longrightarrow> alloc b = Ok (Some i, b') \<Longrightarrow>
      i \<notin> used b \<and> i < cap b \<and> used b' = insert i (used b) \<and> ok b' \<and> cap b' = cap b"
    and alloc_None: "ok b \<Longrightarrow> alloc b = Ok (None, b') \<Longrightarrow> {..<cap b} \<subseteq> used b \<and> b' = b"
    and alloc_total: "ok b \<Longrightarrow> \<exists>r. alloc b = Ok r"
begin

lemma alloc_ok: "ok b \<Longrightarrow> alloc b = Ok (r, b') \<Longrightarrow> ok b' \<and> cap b' = cap b \<and> used b \<subseteq> used b'"
  by (cases r) (auto dest: alloc_Some alloc_None)

lemma alloc_Some_if_free:
  assumes "ok b" and "\<not> {..<cap b} \<subseteq> used b"
  shows "\<exists>i b'. alloc b = Ok (Some i, b')"
proof -
  obtain r b' where r: "alloc b = Ok (r, b')"
    using alloc_total [OF assms(1)] by force
  then show ?thesis
    using alloc_None [OF assms(1)] assms(2) by (cases r) auto
qed

lemma allocs_distinct:
  "ok b \<Longrightarrow> \<exists>js b'. allocs k alloc b = Ok (js, b') \<and> distinct js \<and> set js \<inter> used b = {} \<and> set js \<subseteq> {..<cap b} \<and>
    used b' = used b \<union> set js \<and> ok b' \<and> cap b' = cap b \<and> (length js = k \<or> {..<cap b} \<subseteq> used b')"
proof (induction k arbitrary: b)
  case (Suc k)
  obtain r b1 where r: "alloc b = Ok (r, b1)" using alloc_total [OF Suc.prems] by force
  show ?case
  proof (cases r)
    case None
    then show ?thesis using alloc_None [OF Suc.prems] r Suc.prems by auto
  next
    case (Some i)
    then have i: "i \<notin> used b" "i < cap b" "used b1 = insert i (used b)" "ok b1" "cap b1 = cap b"
      using alloc_Some [OF Suc.prems] r by auto
    obtain js b' where js: "allocs k alloc b1 = Ok (js, b')" "distinct js" "set js \<inter> used b1 = {}"
      "set js \<subseteq> {..<cap b1}" "used b' = used b1 \<union> set js" "ok b'" "cap b' = cap b1"
      "length js = k \<or> {..<cap b1} \<subseteq> used b'"
      using Suc.IH [OF i(4)] by blast
    have "allocs (Suc k) alloc b = Ok (i # js, b')" using r Some js(1) by simp
    moreover have "distinct (i # js)" "set (i # js) \<inter> used b = {}" using js i by auto
    ultimately show ?thesis using js i by (intro exI [of _ "i # js"] exI [of _ b']) auto
  qed
qed auto

end

definition slot_alloc :: "bitmap \<Rightarrow> (nat option \<times> bitmap) res" where
  "slot_alloc b = res_bind (bitmap_alloc b) (\<lambda>(r, idx, b').
     Ok (if r = 0 then map_option unat idx else None, b'))"

lemma slot_alloc_cases:
  assumes "bitmap_ok b"
  shows "(\<exists>i. first_free b i \<and> slot_alloc b = Ok (Some i, set_slot b i)) \<or>
         ({..<bcap b} \<subseteq> bset b \<and> slot_alloc b = Ok (None, b))"
  using bitmap_alloc_cases [OF assms] first_free_slot(4) [OF assms]
  by (auto simp: slot_alloc_def unat_of_nat)

interpretation slots: slot_allocator slot_alloc bset bcap bitmap_ok
proof unfold_locales
  fix b i b'
  assume ok: "bitmap_ok b" and "slot_alloc b = Ok (Some i, b')"
  then have "first_free b i" "b' = set_slot b i"
    using slot_alloc_cases [OF ok] by auto
  then show "i \<notin> bset b \<and> i < bcap b \<and> bset b' = insert i (bset b) \<and> bitmap_ok b' \<and> bcap b' = bcap b"
    using first_free_slot [OF ok] by (simp add: first_free_def)
next
  fix b b'
  assume ok: "bitmap_ok b" and "slot_alloc b = Ok (None, b')"
  then show "{..<bcap b} \<subseteq> bset b \<and> b' = b"
    using slot_alloc_cases [OF ok] by auto
next
  fix b
  assume "bitmap_ok b"
  then show "\<exists>r. slot_alloc b = Ok r"
    using slot_alloc_cases by blast
qed

end
