(* ===== verification/Swap.thy ===== *)
theory Swap
  imports Bitmap
begin

section \<open>The swap file (Assignment2/swap.c)\<close>

text \<open>
  \<open>swap_init\<close>, \<open>swap_pagein\<close>, \<open>swap_pageout\<close> and \<open>swap_destroy\<close> over a simulated physical memory \<open>mem\<close> and a swap
  file.  The file is what POSIX says of one: a byte array of length \<open>slen\<close> that reads as zero
  past its written parts, on a device that holds \<open>sroom\<close> bytes, so that a \<open>write\<close> past it is
  short.  \<open>lseek\<close> refuses a negative offset.
\<close>

definition SIMPAGESIZE :: nat where
  "SIMPAGESIZE = 16"

definition INVALID_SWAP :: int where
  "INVALID_SWAP = -1"

definition EINVAL :: int where
  "EINVAL = 22"

record swap_state =
  swapmap :: bitmap
  sfile :: mem
  slen :: nat
  sroom :: nat

text \<open>\<open>swap_init\<close>; \<open>mk\<close>: \<open>mkstemp\<close> succeeds, \<open>m1\<close>, \<open>m2\<close>: the two calls of \<open>malloc\<close> succeed.\<close>

definition swap_init :: "bool \<Rightarrow> bool \<Rightarrow> bool \<Rightarrow> nat \<Rightarrow> 32 word \<Rightarrow> swap_state res" where
  "swap_init mk m1 m2 room swapsize =
     (if \<not> mk then Err (Exit 1)
      else res_bind (bitmap_create m1 m2 swapsize) (\<lambda>r. case r of
             None \<Rightarrow> Err (Exit 1)
           | Some b \<Rightarrow> Ok \<lparr>swapmap = b, sfile = (\<lambda>_. 0), slen = 0, sroom = room\<rparr>))"

definition lseek_set :: "int \<Rightarrow> int" where
  "lseek_set off = (if off < 0 then -1 else off)"

definition swap_read :: "nat \<Rightarrow> nat \<Rightarrow> swap_state \<Rightarrow> byte list" where
  "swap_read n pos st = bytes_at (min n (slen st - pos)) (sfile st) pos"

definition swap_write :: "byte list \<Rightarrow> nat \<Rightarrow> swap_state \<Rightarrow> nat \<times> swap_state" where
  "swap_write bs pos st =
     (let k = min (length bs) (sroom st - pos) in
      (k, st\<lparr>sfile := blit (take k bs) pos (sfile st), slen := max (slen st) (pos + k)\<rparr>))"

definition swap_pagein :: "nat \<Rightarrow> int \<Rightarrow> swap_state \<Rightarrow> mem \<Rightarrow> (int \<times> mem) res" where
  "swap_pagein frame swap_offset st physmem =
     res_bind (check (swap_offset \<noteq> INVALID_SWAP) Assert_failed) (\<lambda>_.
       let frame_ptr = frame * SIMPAGESIZE;
           pos = lseek_set swap_offset in
       if pos \<noteq> swap_offset then
         res_bind (check (pos = -1) Assert_failed) (\<lambda>_. Ok (- EINVAL, physmem))
       else
         let bytes = swap_read SIMPAGESIZE (nat pos) st;
             physmem' = blit bytes frame_ptr physmem in
         if length bytes \<noteq> SIMPAGESIZE then Ok (int (length bytes), physmem')
         else Ok (0, physmem'))"

definition swap_pageout :: "nat \<Rightarrow> int \<Rightarrow> mem \<Rightarrow> swap_state \<Rightarrow> (int \<times> swap_state) res" where
  "swap_pageout frame swap_offset physmem st =
     res_bind
       (if swap_offset = INVALID_SWAP then
          res_bind (bitmap_alloc (swapmap st)) (\<lambda>(r, idx, b).
            if r \<noteq> 0 then Ok (None, st\<lparr>swapmap := b\<rparr>)
            else Ok (map_option (\<lambda>i. sint (i * word_of_nat SIMPAGESIZE)) idx, st\<lparr>swapmap := b\<rparr>))
        else Ok (Some swap_offset, st))
       (\<lambda>(off, st). case off of
          None \<Rightarrow> Ok (INVALID_SWAP, st)
        | Some swap_offset \<Rightarrow>
            res_bind (check (swap_offset \<noteq> INVALID_SWAP) Assert_failed) (\<lambda>_.
              let frame_ptr = frame * SIMPAGESIZE;
                  pos = lseek_set swap_offset in
              if pos \<noteq> swap_offset then
                res_bind (check (pos = -1) Assert_failed) (\<lambda>_. Ok (INVALID_SWAP, st))
              else
                let (written, st') =
                      swap_write (bytes_at SIMPAGESIZE physmem frame_ptr) (nat pos) st in
                if written \<noteq> SIMPAGESIZE then Ok (INVALID_SWAP, st')
                else Ok (swap_offset, st')))"

text \<open>
  \<open>swap_destroy\<close> closes the file, which is gone when its only name is removed, and frees the bitmap;
  \<open>None\<close> is the state afterwards.  The results of \<open>close\<close> and \<open>unlink\<close> are not looked at, so a second
  call ends in the freed bitmap.
\<close>

definition swap_destroy :: "swap_state option \<Rightarrow> swap_state option res" where
  "swap_destroy st =
     res_bind (bitmap_destroy (map_option swapmap st)) (\<lambda>_. Ok None)"

lemma swap_destroy_once:
  "swap_destroy (Some st) = Ok None" "swap_destroy None = Err Use_after_free"
  by (simp_all add: swap_destroy_def bitmap_destroy_def)

subsection \<open>Invariant and slots\<close>

text \<open>
  \<open>page_slot off i\<close>: offset \<open>off\<close> is that of slot \<open>i\<close>.  The bound on the number of slots keeps
  \<open>idx * SIMPAGESIZE\<close> inside the \<open>int\<close> it is assigned to; \<open>sim.c\<close> asks for 4096 slots.
\<close>

definition swap_ok :: "swap_state \<Rightarrow> bool" where
  "swap_ok st \<longleftrightarrow> bitmap_ok (swapmap st) \<and> bcap (swapmap st) \<le> 2 ^ 27"

definition slot_offset :: "nat \<Rightarrow> int" where
  "slot_offset i = int (i * SIMPAGESIZE)"

lemma sint_slot_offset:
  assumes "i < 2 ^ 27"
  shows "sint (word_of_nat i * word_of_nat SIMPAGESIZE :: 32 word) = slot_offset i"
proof -
  have "word_of_nat i * word_of_nat SIMPAGESIZE = (word_of_nat (i * 16) :: 32 word)"
    by (simp add: SIMPAGESIZE_def)
  moreover have "sint (word_of_nat (i * 16) :: 32 word) = int (i * 16)"
    using assms by (simp add: signed_of_nat signed_take_bit_int_eq_self del: of_nat_mult)
  ultimately show ?thesis
    unfolding slot_offset_def by (simp only: SIMPAGESIZE_def)
qed

lemma slot_offset_neq [simp]: "slot_offset i \<noteq> INVALID_SWAP" "slot_offset i \<noteq> -1"
  unfolding slot_offset_def INVALID_SWAP_def by linarith+

lemma lseek_set_cases: "lseek_set off = off \<or> (off < 0 \<and> lseek_set off = -1)"
  by (simp add: lseek_set_def leD)

lemma slot_offset_nonneg [simp]: "0 \<le> slot_offset i"
  by (simp add: slot_offset_def)

lemma nat_slot_offset [simp]: "nat (slot_offset i) = i * SIMPAGESIZE"
  by (simp add: slot_offset_def del: of_nat_mult)

lemma lseek_slot_offset [simp]: "lseek_set (slot_offset i) = slot_offset i"
  by (simp add: lseek_set_def leD)

text \<open>Writing a page at an offset: the part of \<open>swap_pageout\<close> after the slot is known.\<close>

lemma swap_write_full:
  assumes "swap_write bs pos st = (length bs, st')"
  shows "sfile st' = blit bs pos (sfile st)" and "slen st' = max (slen st) (pos + length bs)"
    and "swapmap st' = swapmap st" and "sroom st' = sroom st"
  using assms by (auto simp: swap_write_def Let_def)

lemma swap_write_swapmap: "swap_write bs pos st = (k, st') \<Longrightarrow> swapmap st' = swapmap st"
  by (auto simp: swap_write_def Let_def)

lemma swap_pageout_at:
  assumes "off \<noteq> INVALID_SWAP" and "0 \<le> off"
  shows "swap_pageout frame off physmem st =
    (let (k, st') = swap_write (bytes_at SIMPAGESIZE physmem (frame * SIMPAGESIZE)) (nat off) st in
     Ok (if k = SIMPAGESIZE then off else INVALID_SWAP, st'))"
  using assms by (auto simp: swap_pageout_def lseek_set_def Let_def split: prod.splits)

text \<open>With no slot yet, a page goes to the lowest free slot, or nowhere when there is none.\<close>

lemma swap_pageout_alloc:
  assumes "swap_ok st"
  shows "(\<exists>i. first_free (swapmap st) i \<and>
            swap_pageout frame INVALID_SWAP physmem st =
            swap_pageout frame (slot_offset i) physmem
              (st\<lparr>swapmap := set_slot (swapmap st) i\<rparr>)) \<or>
         ({..<bcap (swapmap st)} \<subseteq> bset (swapmap st) \<and>
            swap_pageout frame INVALID_SWAP physmem st = Ok (INVALID_SWAP, st))"
proof -
  have ok: "bitmap_ok (swapmap st)" and cap: "bcap (swapmap st) \<le> 2 ^ 27"
    using assms by (auto simp: swap_ok_def)
  from bitmap_alloc_cases [OF ok] consider
      i where "first_free (swapmap st) i"
        "bitmap_alloc (swapmap st) = Ok (0, Some (word_of_nat i), set_slot (swapmap st) i)"
    | "\<forall>k < bcap (swapmap st). k \<in> bset (swapmap st)"
        "bitmap_alloc (swapmap st) = Ok (1, None, swapmap st)"
    by auto
  then show ?thesis
  proof cases
    case (1 i)
    then have "i < 2 ^ 27"
      using cap by (simp add: first_free_def)
    then have "swap_pageout frame INVALID_SWAP physmem st =
        swap_pageout frame (slot_offset i) physmem (st\<lparr>swapmap := set_slot (swapmap st) i\<rparr>)"
      using 1(2) sint_slot_offset [of i] by (simp add: swap_pageout_def)
    then show ?thesis using 1(1) by blast
  next
    case 2
    then show ?thesis
      by (auto simp: swap_pageout_def subset_iff)
  qed
qed

lemma swap_pageout_slot:
  "swap_pageout frame (slot_offset i) physmem st =
    (let (k, st') = swap_write (bytes_at SIMPAGESIZE physmem (frame * SIMPAGESIZE)) (i * SIMPAGESIZE) st in
     Ok (if k = SIMPAGESIZE then slot_offset i else INVALID_SWAP, st'))"
  by (subst swap_pageout_at) (simp_all add: slot_offset_def INVALID_SWAP_def del: of_nat_mult)

subsection \<open>A page read back is the page written\<close>

lemma swap_read_back:
  assumes "swap_write bs pos st = (length bs, st')"
  shows "swap_read (length bs) pos st' = bs"
  using swap_write_full [OF assms] by (simp add: swap_read_def bytes_at_blit_same)

lemma swap_pageout_result:
  assumes "swap_pageout frame off physmem st = Ok (off', st')" and "off' \<noteq> INVALID_SWAP"
  obtains st1 where "0 \<le> off'" and
    "swap_write (bytes_at SIMPAGESIZE physmem (frame * SIMPAGESIZE)) (nat off') st1 = (SIMPAGESIZE, st')"
  using assms
  by (auto simp: swap_pageout_def lseek_set_def INVALID_SWAP_def Let_def
      split: option.splits prod.splits if_splits)

text \<open>
  C17. A page that \<open>swap_pageout\<close> writes out, and reports as written, is read back by
  \<open>swap_pagein\<close> from the offset it returned: into any frame, byte for byte, nothing else of the
  physical memory having changed.
\<close>

theorem swap_round_trip:
  assumes "swap_pageout frame off physmem st = Ok (off', st')" and "off' \<noteq> INVALID_SWAP"
  shows "swap_pagein frame' off' st' physmem' =
    Ok (0, blit (bytes_at SIMPAGESIZE physmem (frame * SIMPAGESIZE)) (frame' * SIMPAGESIZE) physmem')"
proof -
  obtain st1 where off': "0 \<le> off'" and w: "swap_write
      (bytes_at SIMPAGESIZE physmem (frame * SIMPAGESIZE)) (nat off') st1 = (SIMPAGESIZE, st')"
    using swap_pageout_result [OF assms] by blast
  have "swap_read SIMPAGESIZE (nat off') st' = bytes_at SIMPAGESIZE physmem (frame * SIMPAGESIZE)"
    using swap_read_back [of "bytes_at SIMPAGESIZE physmem (frame * SIMPAGESIZE)"] w by simp
  then show ?thesis
    using off' assms(2) by (simp add: swap_pagein_def lseek_set_def Let_def)
qed

definition swap_32 :: swap_state where
  "swap_32 = \<lparr>swapmap = \<lparr>nbits = 32, bv = [1]\<rparr>, sfile = (\<lambda>_. 0), slen = 0, sroom = 512\<rparr>"

lemma swap_32_pageout:
  "\<exists>st'. swap_pageout 1 INVALID_SWAP m swap_32 = Ok (16, st')"
proof -
  have "bitmap_alloc (swapmap swap_32) = Ok (0, Some 1, \<lparr>nbits = 32, bv = [3]\<rparr>)"
    by (simp add: swap_32_def bitmap_alloc_def DIVROUNDUP_def BITS_PER_WORD_def
        bitmap_alloc_from.simps WORD_ALLBITS_def clear_bit_from.simps)
  then show ?thesis
    by (simp add: swap_pageout_def SIMPAGESIZE_def INVALID_SWAP_def lseek_set_def swap_write_def
        swap_32_def Let_def)
qed

theorem swap_round_trip_witness:
  "\<exists>st'. swap_pageout 1 INVALID_SWAP (\<lambda>a. word_of_nat a) swap_32 = Ok (16, st') \<and>
    swap_pagein 3 16 st' (\<lambda>_. 0) =
      Ok (0, blit (bytes_at SIMPAGESIZE (\<lambda>a. word_of_nat a) (1 * SIMPAGESIZE)) (3 * SIMPAGESIZE) (\<lambda>_. 0))"
proof -
  obtain st' where st': "swap_pageout 1 INVALID_SWAP (\<lambda>a. word_of_nat a) swap_32 = Ok (16, st')"
    using swap_32_pageout by blast
  have "(16 :: int) \<noteq> INVALID_SWAP" by (simp add: INVALID_SWAP_def)
  from swap_round_trip [OF st' this] st' show ?thesis by blast
qed

subsection \<open>Slots do not interfere\<close>

text \<open>\<open>stored st i bs\<close>: slot \<open>i\<close> is allocated and holds the page \<open>bs\<close>.\<close>

definition stored :: "swap_state \<Rightarrow> nat \<Rightarrow> byte list \<Rightarrow> bool" where
  "stored st i bs \<longleftrightarrow> i \<in> bset (swapmap st) \<and> length bs = SIMPAGESIZE \<and>
     swap_read SIMPAGESIZE (i * SIMPAGESIZE) st = bs"

lemma swap_read_full: "length (swap_read n pos st) = n \<longleftrightarrow> n = 0 \<or> pos + n \<le> slen st"
  by (auto simp: swap_read_def)

lemma slots_apart:
  "i \<noteq> j \<Longrightarrow> i * SIMPAGESIZE + SIMPAGESIZE \<le> j * SIMPAGESIZE \<or> j * SIMPAGESIZE + SIMPAGESIZE \<le> i * SIMPAGESIZE"
  by (auto simp: SIMPAGESIZE_def)

lemma stored_write_other:
  assumes "stored st i bs" and "i \<noteq> j" and "length bs' = SIMPAGESIZE"
    and "swap_write bs' (j * SIMPAGESIZE) st = (k, st')"
  shows "stored st' i bs"
proof -
  have len: "i * SIMPAGESIZE + SIMPAGESIZE \<le> slen st"
    using assms(1) swap_read_full [of SIMPAGESIZE "i * SIMPAGESIZE" st]
    by (auto simp: stored_def SIMPAGESIZE_def)
  have st': "sfile st' = blit (take k bs') (j * SIMPAGESIZE) (sfile st)" "slen st \<le> slen st'"
    "swapmap st' = swapmap st"
    using assms(4) by (auto simp: swap_write_def Let_def)
  have "bytes_at SIMPAGESIZE (sfile st') (i * SIMPAGESIZE) = bytes_at SIMPAGESIZE (sfile st) (i * SIMPAGESIZE)"
    unfolding st'(1) by (rule bytes_at_blit_other) (use slots_apart [OF assms(2)] assms(3) in auto)
  then show ?thesis
    using assms(1) len st' by (simp add: stored_def swap_read_def)
qed

lemma stored_set_slot: "stored st i bs \<Longrightarrow> bset b = insert j (bset (swapmap st)) \<Longrightarrow>
    stored (st\<lparr>swapmap := b\<rparr>) i bs"
  by (simp add: stored_def swap_read_def)

text \<open>One page-out that does not name slot \<open>i\<close>: it keeps what slot \<open>i\<close> holds.\<close>

definition avoids :: "int \<Rightarrow> nat \<Rightarrow> bool" where
  "avoids off i \<longleftrightarrow> off = INVALID_SWAP \<or> (\<exists>j. off = slot_offset j \<and> j \<noteq> i)"

lemma swap_pageout_total:
  assumes "swap_ok st" and "off = INVALID_SWAP \<or> (\<exists>j. off = slot_offset j)"
  shows "\<exists>off' st'. swap_pageout frame off physmem st = Ok (off', st') \<and> swap_ok st' \<and>
    bset (swapmap st) \<subseteq> bset (swapmap st') \<and> bcap (swapmap st') = bcap (swapmap st)"
proof -
  have at: "\<exists>off' st'. swap_pageout frame (slot_offset j) physmem st = Ok (off', st') \<and>
      swapmap st' = swapmap st" for j st
    unfolding swap_pageout_slot by (auto simp: Let_def split: prod.splits dest: swap_write_swapmap)
  show ?thesis
  proof (cases "off = INVALID_SWAP")
    case False
    then show ?thesis
      using assms at by (metis order_refl swap_ok_def)
  next
    case True
    from swap_pageout_alloc [OF assms(1), of frame physmem] show ?thesis
    proof (elim disjE exE conjE)
      fix i
      assume i: "first_free (swapmap st) i"
        and eq: "swap_pageout frame INVALID_SWAP physmem st =
          swap_pageout frame (slot_offset i) physmem (st\<lparr>swapmap := set_slot (swapmap st) i\<rparr>)"
      have ok: "bitmap_ok (swapmap st)" using assms(1) by (simp add: swap_ok_def)
      obtain off' st' where r: "swap_pageout frame off physmem st = Ok (off', st')"
        "swapmap st' = set_slot (swapmap st) i"
        using at [of i "st\<lparr>swapmap := set_slot (swapmap st) i\<rparr>"] eq True by auto
      then show ?thesis
        using first_free_slot [OF ok i] assms(1) by (auto simp: swap_ok_def)
    qed (use True assms(1) in auto)
  qed
qed

lemma swap_pageout_keeps:
  assumes "swap_ok st" and "stored st i bs" and "avoids off i"
    and "swap_pageout frame off physmem st = Ok (off', st')"
  shows "stored st' i bs"
proof -
  have at: "stored st' i bs"
    if "stored st i bs" "j \<noteq> i" "swap_pageout frame (slot_offset j) physmem st = Ok (off', st')"
    for st j
    using that(3) stored_write_other [OF that(1) that(2) [symmetric] length_bytes_at]
    by (auto simp: swap_pageout_slot Let_def split: prod.splits)
  show ?thesis
  proof (cases "off = INVALID_SWAP")
    case False
    then show ?thesis
      using assms at by (auto simp: avoids_def)
  next
    case True
    have ok: "bitmap_ok (swapmap st)" using assms(1) by (simp add: swap_ok_def)
    from swap_pageout_alloc [OF assms(1), of frame physmem] show ?thesis
    proof (elim disjE exE conjE)
      fix j
      assume j: "first_free (swapmap st) j"
        and eq: "swap_pageout frame INVALID_SWAP physmem st =
          swap_pageout frame (slot_offset j) physmem (st\<lparr>swapmap := set_slot (swapmap st) j\<rparr>)"
      have "j \<noteq> i" using j assms(2) by (auto simp: first_free_def stored_def)
      moreover have "stored (st\<lparr>swapmap := set_slot (swapmap st) j\<rparr>) i bs"
        using stored_set_slot [OF assms(2)] first_free_slot(1) [OF ok j] by blast
      ultimately show ?thesis
        using at eq assms(4) True by metis
    qed (use True assms in auto)
  qed
qed

subsection \<open>Runs of page-outs\<close>

text \<open>A run: each step pages the frame of a memory out, to its own slot or to a fresh one.\<close>

fun pageouts :: "(nat \<times> int \<times> mem) list \<Rightarrow> swap_state \<Rightarrow> swap_state res" where
  "pageouts [] st = Ok st"
| "pageouts ((frame, off, physmem) # ops) st =
     res_bind (swap_pageout frame off physmem st) (\<lambda>(off', st'). pageouts ops st')"

lemma pageouts_keep:
  assumes "swap_ok st" and "stored st i bs" and "\<forall>(f, off, m) \<in> set ops. avoids off i"
  shows "\<exists>st'. pageouts ops st = Ok st' \<and> stored st' i bs \<and> swap_ok st'"
  using assms
proof (induction ops arbitrary: st)
  case (Cons op ops)
  obtain f off m where op: "op = (f, off, m)" by (cases op)
  then have av: "avoids off i" using Cons.prems by simp
  then obtain off' st' where st': "swap_pageout f off m st = Ok (off', st')" "swap_ok st'"
    using swap_pageout_total [OF Cons.prems(1)] unfolding avoids_def by metis
  then have "stored st' i bs"
    using swap_pageout_keeps Cons.prems av by blast
  with Cons st' op show ?case by simp
qed simp

lemma swap_pageout_fresh:
  assumes "swap_ok st" and "swap_pageout frame INVALID_SWAP physmem st = Ok (off', st')"
    and "off' \<noteq> INVALID_SWAP"
  shows "\<exists>i. off' = slot_offset i \<and> i \<notin> bset (swapmap st) \<and> i < bcap (swapmap st) \<and>
    stored st' i (bytes_at SIMPAGESIZE physmem (frame * SIMPAGESIZE)) \<and> swap_ok st'"
proof -
  have ok: "bitmap_ok (swapmap st)" using assms(1) by (simp add: swap_ok_def)
  let ?page = "bytes_at SIMPAGESIZE physmem (frame * SIMPAGESIZE)"
  from swap_pageout_alloc [OF assms(1), of frame physmem] assms(2,3) obtain i where
    i: "first_free (swapmap st) i" and
    eq: "swap_pageout frame (slot_offset i) physmem (st\<lparr>swapmap := set_slot (swapmap st) i\<rparr>)
      = Ok (off', st')"
    by auto
  then have w: "off' = slot_offset i"
    "swap_write ?page (i * SIMPAGESIZE) (st\<lparr>swapmap := set_slot (swapmap st) i\<rparr>) = (length ?page, st')"
    using assms(3) by (auto simp: swap_pageout_slot Let_def split: prod.splits if_splits)
  note written = swap_write_full [OF w(2)] swap_read_back [OF w(2)]
  note slot = first_free_slot [OF ok i]
  have "stored st' i ?page"
    using written slot by (simp add: stored_def)
  moreover have "swap_ok st'"
    using written slot assms(1) by (simp add: swap_ok_def)
  ultimately show ?thesis
    using w(1) i by (auto simp: first_free_def)
qed

lemma stored_pagein:
  assumes "stored st i bs"
  shows "swap_pagein frame (slot_offset i) st physmem = Ok (0, blit bs (frame * SIMPAGESIZE) physmem)"
  using assms by (simp add: stored_def swap_pagein_def Let_def)

text \<open>
  C22. A page that was written to a fresh slot is read back intact after any later run of page-outs,
  each of which goes to a fresh slot or to its own.
\<close>

theorem swap_page_survives:
  assumes "swap_ok st" and "swap_pageout frame INVALID_SWAP physmem st = Ok (off, st1)"
    and "off \<noteq> INVALID_SWAP" and "\<forall>(f, o', m) \<in> set ops. o' \<noteq> off \<and> (o' = INVALID_SWAP \<or> o' \<in> range slot_offset)"
  shows "\<exists>st2. pageouts ops st1 = Ok st2 \<and>
    swap_pagein frame' off st2 physmem' =
      Ok (0, blit (bytes_at SIMPAGESIZE physmem (frame * SIMPAGESIZE)) (frame' * SIMPAGESIZE) physmem')"
proof -
  obtain i where i: "off = slot_offset i" "swap_ok st1"
    "stored st1 i (bytes_at SIMPAGESIZE physmem (frame * SIMPAGESIZE))"
    using swap_pageout_fresh [OF assms(1-3)] by blast
  have "\<forall>(f, o', m) \<in> set ops. avoids o' i"
    using assms(4) i(1) by (fastforce simp: avoids_def)
  then show ?thesis
    using pageouts_keep [OF i(2,3)] stored_pagein i(1) by blast
qed

theorem swap_page_survives_witness:
  "\<exists>st1 st2. swap_pageout 1 INVALID_SWAP (\<lambda>a. word_of_nat a) swap_32 = Ok (16, st1) \<and>
    pageouts [(0, INVALID_SWAP, \<lambda>_. 7), (2, 0, \<lambda>_. 9)] st1 = Ok st2 \<and>
    swap_pagein 3 16 st2 (\<lambda>_. 0) =
      Ok (0, blit (bytes_at SIMPAGESIZE (\<lambda>a. word_of_nat a) (1 * SIMPAGESIZE)) (3 * SIMPAGESIZE) (\<lambda>_. 0))"
proof -
  obtain st1 where st1: "swap_pageout 1 INVALID_SWAP (\<lambda>a. word_of_nat a) swap_32 = Ok (16, st1)"
    using swap_32_pageout by blast
  have ok: "swap_ok swap_32"
    using sample_bitmap by (simp add: swap_ok_def swap_32_def)
  have n: "(16 :: int) \<noteq> INVALID_SWAP" by (simp add: INVALID_SWAP_def)
  have "0 = slot_offset 0" by (simp add: slot_offset_def)
  then have "\<forall>(f, o', m) \<in> set [(0 :: nat, INVALID_SWAP, \<lambda>_. 7 :: byte), (2, 0, \<lambda>_. 9)].
      o' \<noteq> 16 \<and> (o' = INVALID_SWAP \<or> o' \<in> range slot_offset)"
    by (auto simp: INVALID_SWAP_def)
  from swap_page_survives [OF ok st1 n this] st1 show ?thesis by blast
qed

end
