(* ===== verification/PageTable.thy ===== *)
theory PageTable
  imports Swap
begin

section \<open>The page table and demand paging (Assignment2/pagetable.c, pagetable.h)\<close>

text \<open>
  The simulator's state and the functions of \<open>pagetable.c\<close> that change it.  A second-level page
  table is the byte memory of its \<open>posix_memalign\<close> block.  A \<open>pgtbl_entry_t *\<close> is a pair of the
  table's number and a byte offset in the block: \<open>find_physpage\<close> does not mask the \<open>PG_VALID\<close> tag
  out of the directory entry, so the entries it uses start one byte after those that
  \<open>init_second_level\<close> initialises, and the model keeps that offset.  The replacement algorithm
  is a pair of functions \<open>evict\<close> and \<open>ref\<close>, the \<open>evict_fcn\<close> and \<open>ref_fcn\<close> of \<open>sim.c\<close>; its own
  state is the field \<open>pol\<close>.
\<close>

subsection \<open>Constants and state\<close>

definition PAGE_SHIFT :: nat where "PAGE_SHIFT = 12"
definition PGDIR_SHIFT :: nat where "PGDIR_SHIFT = 24"
definition PTRS_PER_PGDIR :: nat where "PTRS_PER_PGDIR = 4096"
definition PTRS_PER_PGTBL :: nat where "PTRS_PER_PGTBL = 4096"
definition PGTBL_MASK :: "64 word" where "PGTBL_MASK = 4095"
definition PG_VALID :: "32 word" where "PG_VALID = 1"
definition PG_DIRTY :: "32 word" where "PG_DIRTY = 2"
definition PG_REF :: "32 word" where "PG_REF = 4"
definition PG_ONSWAP :: "32 word" where "PG_ONSWAP = 8"

text \<open>\<open>sizeof(pgtbl_entry_t)\<close>, the offset of \<open>swap_off\<close> in it, and the tag in a directory entry.\<close>

definition PTE_SIZE :: nat where "PTE_SIZE = 16"
definition SWAP_OFF :: nat where "SWAP_OFF = 8"
definition PDE_TAG :: nat where "PDE_TAG = 1"

lemmas pt_consts = PAGE_SHIFT_def PGDIR_SHIFT_def PTRS_PER_PGDIR_def PTRS_PER_PGTBL_def
  PGTBL_MASK_def PG_VALID_def PG_DIRTY_def PG_REF_def PG_ONSWAP_def PTE_SIZE_def SWAP_OFF_def
  PDE_TAG_def

definition PGDIR_INDEX :: "64 word \<Rightarrow> 32 word" where
  "PGDIR_INDEX x = ucast (drop_bit PGDIR_SHIFT x)"

definition PGTBL_INDEX :: "64 word \<Rightarrow> 32 word" where
  "PGTBL_INDEX x = ucast (drop_bit PAGE_SHIFT x AND PGTBL_MASK)"

type_synonym pteref = "nat \<times> nat"

declare split_paired_All [simp del] split_paired_Ex [simp del]

record cframe =
  in_use :: bool
  cpte :: "pteref option"

text \<open>
  \<open>pgdir i\<close>: entry \<open>i\<close> of the directory is not 0; \<open>pgtbl i\<close>: the bytes of the table it points
  to.  \<open>tables_left\<close> is how many more tables \<open>posix_memalign\<close> can give, \<open>fresh_mem\<close> what an
  uninitialised block holds.  \<open>memsize\<close> is the length of the coremap.
\<close>

record 'p sim =
  pgdir :: "nat \<Rightarrow> bool"
  pgtbl :: "nat \<Rightarrow> mem"
  tables_left :: nat
  fresh_mem :: mem
  coremap :: "cframe list"
  physmem :: mem
  swap :: swap_state
  hit_count :: nat
  miss_count :: nat
  ref_count :: nat
  evict_clean_count :: nat
  evict_dirty_count :: nat
  pol :: 'p

definition memsize :: "'p sim \<Rightarrow> nat" where
  "memsize s = length (coremap s)"

subsection \<open>Page table entries through a pointer\<close>

definition get_frame :: "'p sim \<Rightarrow> pteref \<Rightarrow> 32 word" where
  "get_frame s p = rd32 (pgtbl s (fst p)) (snd p)"

definition set_frame :: "pteref \<Rightarrow> 32 word \<Rightarrow> 'p sim \<Rightarrow> 'p sim" where
  "set_frame p w s = s\<lparr>pgtbl := (pgtbl s)(fst p := wr32 (snd p) w (pgtbl s (fst p)))\<rparr>"

definition get_swap :: "'p sim \<Rightarrow> pteref \<Rightarrow> 64 word" where
  "get_swap s p = rd64 (pgtbl s (fst p)) (snd p + SWAP_OFF)"

definition set_swap :: "pteref \<Rightarrow> 64 word \<Rightarrow> 'p sim \<Rightarrow> 'p sim" where
  "set_swap p w s =
     s\<lparr>pgtbl := (pgtbl s)(fst p := wr64 (snd p + SWAP_OFF) w (pgtbl s (fst p)))\<rparr>"

text \<open>The conversions between \<open>off_t\<close> and \<open>int\<close> at the calls of the swap functions.\<close>

definition int_of_off :: "64 word \<Rightarrow> int" where
  "int_of_off w = sint (ucast w :: 32 word)"

definition off_of_int :: "int \<Rightarrow> 64 word" where
  "off_of_int i = word_of_int i"

subsection \<open>allocate_frame\<close>

text \<open>The search for a free frame: the first \<open>i\<close> whose frame is not in use.\<close>

fun find_free_frame :: "cframe list \<Rightarrow> nat \<Rightarrow> nat option" where
  "find_free_frame [] i = None"
| "find_free_frame (c # cs) i = (if \<not> in_use c then Some i else find_free_frame cs (Suc i))"

text \<open>What happens to the victim's page: lines 43 to 60.\<close>

definition evict_page :: "nat \<Rightarrow> 'p sim \<Rightarrow> 'p sim res" where
  "evict_page frame s =
     (if frame \<ge> memsize s then Err Out_of_bounds
      else case cpte (coremap s ! frame) of
        None \<Rightarrow> Err Null_deref
      | Some bye \<Rightarrow>
          res_bind
            (if get_frame s bye AND PG_DIRTY = 0 then
               Ok (s\<lparr>evict_clean_count := Suc (evict_clean_count s)\<rparr>)
             else
               let s = s\<lparr>evict_dirty_count := Suc (evict_dirty_count s)\<rparr> in
               res_bind (swap_pageout frame (int_of_off (get_swap s bye)) (physmem s) (swap s))
                 (\<lambda>(offset, sw).
                   let s = s\<lparr>swap := sw\<rparr> in
                   Ok (if offset \<noteq> INVALID_SWAP then
                         set_swap bye (off_of_int offset)
                           (set_frame bye (get_frame s bye OR PG_ONSWAP) s)
                       else s)))
            (\<lambda>s. Ok (set_frame bye (get_frame s bye AND NOT PG_VALID) s)))"

definition allocate_frame ::
  "('p sim \<Rightarrow> (nat \<times> 'p sim) res) \<Rightarrow> pteref \<Rightarrow> 'p sim \<Rightarrow> (nat \<times> 'p sim) res" where
  "allocate_frame evict p s =
     res_bind
       (case find_free_frame (coremap s) 0 of
          Some frame \<Rightarrow> Ok (frame, s)
        | None \<Rightarrow>
            res_bind (evict s) (\<lambda>(frame, s).
            res_bind (evict_page frame s) (\<lambda>s. Ok (frame, s))))
       (\<lambda>(frame, s).
          Ok (frame, s\<lparr>coremap := (coremap s)[frame := \<lparr>in_use = True, cpte = Some p\<rparr>]\<rparr>))"

subsection \<open>Tables and frames\<close>

definition init_pagetable :: "'p sim \<Rightarrow> 'p sim" where
  "init_pagetable s = s\<lparr>pgdir := (\<lambda>i. if i < PTRS_PER_PGDIR then False else pgdir s i)\<rparr>"

text \<open>The loop of \<open>init_second_level\<close> writes through the untagged pointer.\<close>

definition init_entries :: "mem \<Rightarrow> mem" where
  "init_entries m =
     fold (\<lambda>i m. wr64 (PTE_SIZE * i + SWAP_OFF) (word_of_int INVALID_SWAP)
                   (wr32 (PTE_SIZE * i) 0 m))
       [0..<PTRS_PER_PGTBL] m"

definition init_second_level :: "nat \<Rightarrow> 'p sim \<Rightarrow> 'p sim res" where
  "init_second_level idx s =
     (if tables_left s = 0 then Err (Exit 1)
      else Ok (s\<lparr>tables_left := tables_left s - 1,
                pgtbl := (pgtbl s)(idx := init_entries (fresh_mem s)),
                pgdir := (pgdir s)(idx := True)\<rparr>))"

text \<open>\<open>init_frame\<close>: zero the frame, then store the virtual address after the version counter.\<close>

definition init_frame :: "nat \<Rightarrow> 64 word \<Rightarrow> mem \<Rightarrow> mem" where
  "init_frame frame vaddr m =
     (let mem_ptr = frame * SIMPAGESIZE in
      wr64 (mem_ptr + 4) vaddr (blit (replicate SIMPAGESIZE 0) mem_ptr m))"

subsection \<open>find_physpage\<close>

text \<open>The pointer \<open>pter + idx2\<close>, with the tag of the directory entry still in it.\<close>

definition pte_ptr :: "64 word \<Rightarrow> pteref" where
  "pte_ptr vaddr =
     (unat (PGDIR_INDEX vaddr), PDE_TAG + PTE_SIZE * unat (PGTBL_INDEX vaddr))"

text \<open>The miss branch: lines 172 to 183.\<close>

definition page_miss ::
  "('p sim \<Rightarrow> (nat \<times> 'p sim) res) \<Rightarrow> 64 word \<Rightarrow> 'p sim \<Rightarrow> 'p sim res" where
  "page_miss evict vaddr s =
     (let p = pte_ptr vaddr; s = s\<lparr>miss_count := Suc (miss_count s)\<rparr> in
      res_bind (allocate_frame evict p s) (\<lambda>(frame, s).
        let s = set_frame p (push_bit PAGE_SHIFT (word_of_nat frame)) s in
        if get_frame s p AND PG_ONSWAP \<noteq> 0 then
          res_bind (swap_pagein frame (int_of_off (get_swap s p)) (swap s) (physmem s))
            (\<lambda>(r, m). Ok (s\<lparr>physmem := m\<rparr>))
        else Ok (s\<lparr>physmem := init_frame frame vaddr (physmem s)\<rparr>)))"

definition is_write :: "char \<Rightarrow> bool" where
  "is_write type \<longleftrightarrow> type = CHR ''M'' \<or> type = CHR ''S''"

definition find_physpage ::
  "('p sim \<Rightarrow> (nat \<times> 'p sim) res) \<Rightarrow> (pteref \<Rightarrow> 'p sim \<Rightarrow> 'p sim res) \<Rightarrow>
   64 word \<Rightarrow> char \<Rightarrow> 'p sim \<Rightarrow> (nat \<times> 'p sim) res" where
  "find_physpage evict ref vaddr type s =
     (let idx = unat (PGDIR_INDEX vaddr); p = pte_ptr vaddr in
      if idx \<ge> PTRS_PER_PGDIR then Err Out_of_bounds
      else
        res_bind (if \<not> pgdir s idx then init_second_level idx s else Ok s) (\<lambda>s.
        let s = s\<lparr>ref_count := Suc (ref_count s)\<rparr> in
        res_bind
          (if get_frame s p AND PG_VALID = 0 then page_miss evict vaddr s
           else Ok (s\<lparr>hit_count := Suc (hit_count s)\<rparr>)) (\<lambda>s.
        let s = set_frame p (get_frame s p OR PG_VALID) s;
            s = set_frame p (get_frame s p OR PG_REF) s;
            s = (if is_write type then set_frame p (get_frame s p OR PG_DIRTY) s else s) in
        res_bind (ref p s) (\<lambda>s.
          Ok (unat (drop_bit PAGE_SHIFT (get_frame s p)) * SIMPAGESIZE, s)))))"

end
