(* ===== verification/MemInv.thy ===== *)
theory MemInv
  imports PageTable
begin

section \<open>Invariant of the memory manager and the replacement interface\<close>

text \<open>
  The page table and the coremap are two views of one relation: page table entry \<open>p\<close> is valid
  and names frame \<open>f\<close> exactly when frame \<open>f\<close> is in use and its \<open>pte\<close> pointer is \<open>p\<close>.  \<open>rep s U\<close>
  states this for all frames but those of \<open>U\<close>, which are between two owners; \<open>mm_inv s\<close> is
  \<open>rep s {}\<close>.  The locales \<open>replacement\<close> and \<open>live_replacement\<close> state what \<open>pagetable.c\<close> needs of a
  replacement algorithm, and prove once, for every algorithm, that the invariant is kept and
  that a reference succeeds.
\<close>

subsection \<open>Flag bits\<close>

definition valid :: "32 word \<Rightarrow> bool" where "valid w \<longleftrightarrow> bit w 0"
definition dirty :: "32 word \<Rightarrow> bool" where "dirty w \<longleftrightarrow> bit w 1"
definition refd :: "32 word \<Rightarrow> bool" where "refd w \<longleftrightarrow> bit w 2"
definition onswap :: "32 word \<Rightarrow> bool" where "onswap w \<longleftrightarrow> bit w 3"
definition frame_no :: "32 word \<Rightarrow> nat" where "frame_no w = unat (drop_bit 12 w)"

lemmas flag_defs = valid_def dirty_def refd_def onswap_def

lemma and_flag_eq_0 [simp]:
  "w AND PG_VALID = 0 \<longleftrightarrow> \<not> valid w" "w AND PG_DIRTY = 0 \<longleftrightarrow> \<not> dirty w"
  "w AND PG_REF = 0 \<longleftrightarrow> \<not> refd w" "w AND PG_ONSWAP = 0 \<longleftrightarrow> \<not> onswap w"
  using and_mask_eq_0_iff_bit [of w 0] and_mask_eq_0_iff_bit [of w 1]
    and_mask_eq_0_iff_bit [of w 2] and_mask_eq_0_iff_bit [of w 3]
  by (simp_all add: flag_defs PG_VALID_def PG_DIRTY_def PG_REF_def PG_ONSWAP_def)

lemma bit_or_flag:
  "bit (w OR PG_VALID) k \<longleftrightarrow> bit w k \<or> k = 0" "bit (w OR PG_DIRTY) k \<longleftrightarrow> bit w k \<or> k = 1"
  "bit (w OR PG_REF) k \<longleftrightarrow> bit w k \<or> k = 2" "bit (w OR PG_ONSWAP) k \<longleftrightarrow> bit w k \<or> k = 3"
  using bit_or_mask [of w 0 k] bit_or_mask [of w 1 k] bit_or_mask [of w 2 k] bit_or_mask [of w 3 k]
  by (simp_all add: PG_VALID_def PG_DIRTY_def PG_REF_def PG_ONSWAP_def)

lemma bit_clear_flag:
  "bit (w AND NOT PG_VALID) k \<longleftrightarrow> bit w k \<and> k \<noteq> 0"
  "bit (w AND NOT PG_REF) k \<longleftrightarrow> bit w k \<and> k \<noteq> 2"
  using bit_and_not_mask [of w 0 k] bit_and_not_mask [of w 2 k]
  by (simp_all add: PG_VALID_def PG_REF_def)

lemma flags_or [simp]:
  "valid (w OR PG_VALID)" "valid (w OR PG_DIRTY) = valid w" "valid (w OR PG_REF) = valid w"
  "valid (w OR PG_ONSWAP) = valid w"
  "refd (w OR PG_VALID) = refd w" "refd (w OR PG_DIRTY) = refd w" "refd (w OR PG_REF)"
  "dirty (w OR PG_VALID) = dirty w" "dirty (w OR PG_DIRTY)" "dirty (w OR PG_REF) = dirty w"
  "onswap (w OR PG_VALID) = onswap w" "onswap (w OR PG_DIRTY) = onswap w"
  "onswap (w OR PG_REF) = onswap w" "onswap (w OR PG_ONSWAP)"
  by (simp_all add: flag_defs bit_or_flag)

lemma flags_clear [simp]:
  "\<not> valid (w AND NOT PG_VALID)" "valid (w AND NOT PG_REF) = valid w"
  "\<not> refd (w AND NOT PG_REF)" "dirty (w AND NOT PG_REF) = dirty w"
  "dirty (w AND NOT PG_VALID) = dirty w" "onswap (w AND NOT PG_VALID) = onswap w"
  "onswap (w AND NOT PG_REF) = onswap w"
  by (simp_all add: flag_defs bit_clear_flag)

lemma frame_no_cong: "(\<And>k. 12 \<le> k \<Longrightarrow> bit v k = bit w k) \<Longrightarrow> frame_no v = frame_no w"
  unfolding frame_no_def by (rule arg_cong [where f = unat]) (auto simp: bit_eq_iff bit_simps)

lemma frame_no_flags [simp]:
  "frame_no (w OR PG_VALID) = frame_no w" "frame_no (w OR PG_DIRTY) = frame_no w"
  "frame_no (w OR PG_REF) = frame_no w" "frame_no (w OR PG_ONSWAP) = frame_no w"
  "frame_no (w AND NOT PG_VALID) = frame_no w" "frame_no (w AND NOT PG_REF) = frame_no w"
  by (rule frame_no_cong; simp add: bit_or_flag bit_clear_flag)+

lemma new_frame_word [simp]:
  "\<not> valid (push_bit PAGE_SHIFT w)" "\<not> dirty (push_bit PAGE_SHIFT w)"
  "\<not> refd (push_bit PAGE_SHIFT w)" "\<not> onswap (push_bit PAGE_SHIFT w)"
  by (simp_all add: flag_defs bit_simps PAGE_SHIFT_def)

lemma frame_no_new:
  assumes "f < 2 ^ 20"
  shows "frame_no (push_bit PAGE_SHIFT (word_of_nat f)) = f"
proof -
  have "unat (push_bit 12 (word_of_nat f :: 32 word)) = f * 4096"
    using assms by (simp add: push_bit_eq_mult unat_word_ariths unat_of_nat)
  then show ?thesis
    by (simp add: frame_no_def PAGE_SHIFT_def drop_bit_eq_div unat_div)
qed

subsection \<open>Entries\<close>

definition is_pte :: "'p sim \<Rightarrow> pteref \<Rightarrow> bool" where
  "is_pte s p \<longleftrightarrow> fst p < PTRS_PER_PGDIR \<and> pgdir s (fst p) \<and>
     (\<exists>j < PTRS_PER_PGTBL. snd p = PDE_TAG + PTE_SIZE * j)"

definition mapped :: "'p sim \<Rightarrow> pteref \<Rightarrow> nat \<Rightarrow> bool" where
  "mapped s p f \<longleftrightarrow> is_pte s p \<and> valid (get_frame s p) \<and> frame_no (get_frame s p) = f"

lemma get_set_frame_same [simp]: "get_frame (set_frame p w s) p = w"
  by (simp add: get_frame_def set_frame_def mem_simps)

lemma get_set_swap_same [simp]: "get_swap (set_swap p w s) p = w"
  by (simp add: get_swap_def set_swap_def mem_simps)

lemma entries_apart:
  assumes "is_pte s p" and "is_pte s q" and "p \<noteq> q"
  shows "fst p \<noteq> fst q \<or> snd p + 16 \<le> snd q \<or> snd q + 16 \<le> snd p"
  using assms by (cases p; cases q) (auto simp: is_pte_def pt_consts)

lemma get_set_frame_other:
  assumes "is_pte s p" and "is_pte s q" and "p \<noteq> q"
  shows "get_frame (set_frame p w s) q = get_frame s q"
  using entries_apart [OF assms] by (auto simp: get_frame_def set_frame_def mem_simps)

lemma get_swap_set_frame:
  assumes "is_pte s p" and "is_pte s q"
  shows "get_swap (set_frame p w s) q = get_swap s q"
proof (cases "p = q")
  case True
  then show ?thesis
    by (simp add: get_swap_def set_frame_def mem_simps pt_consts)
next
  case False
  then show ?thesis
    using entries_apart [OF assms] by (auto simp: get_swap_def set_frame_def mem_simps pt_consts)
qed

lemma get_frame_set_swap:
  assumes "is_pte s p" and "is_pte s q"
  shows "get_frame (set_swap p w s) q = get_frame s q"
proof (cases "p = q")
  case True
  then show ?thesis
    by (simp add: get_frame_def set_swap_def mem_simps pt_consts)
next
  case False
  then show ?thesis
    using entries_apart [OF assms] by (auto simp: get_frame_def set_swap_def mem_simps pt_consts)
qed

lemma get_set_swap_other:
  assumes "is_pte s p" and "is_pte s q" and "p \<noteq> q"
  shows "get_swap (set_swap p w s) q = get_swap s q"
  using entries_apart [OF assms] by (auto simp: get_swap_def set_swap_def mem_simps pt_consts)

text \<open>Fields an entry write leaves alone.\<close>

lemma set_frame_fields [simp]:
  "pgdir (set_frame p w s) = pgdir s" "coremap (set_frame p w s) = coremap s"
  "physmem (set_frame p w s) = physmem s" "swap (set_frame p w s) = swap s"
  "pol (set_frame p w s) = pol s" "tables_left (set_frame p w s) = tables_left s"
  "fresh_mem (set_frame p w s) = fresh_mem s"
  "hit_count (set_frame p w s) = hit_count s" "miss_count (set_frame p w s) = miss_count s"
  "ref_count (set_frame p w s) = ref_count s"
  "evict_clean_count (set_frame p w s) = evict_clean_count s"
  "evict_dirty_count (set_frame p w s) = evict_dirty_count s"
  by (simp_all add: set_frame_def)

lemma set_swap_fields [simp]:
  "pgdir (set_swap p w s) = pgdir s" "coremap (set_swap p w s) = coremap s"
  "physmem (set_swap p w s) = physmem s" "swap (set_swap p w s) = swap s"
  "pol (set_swap p w s) = pol s" "tables_left (set_swap p w s) = tables_left s"
  "fresh_mem (set_swap p w s) = fresh_mem s"
  "hit_count (set_swap p w s) = hit_count s" "miss_count (set_swap p w s) = miss_count s"
  "ref_count (set_swap p w s) = ref_count s"
  "evict_clean_count (set_swap p w s) = evict_clean_count s"
  "evict_dirty_count (set_swap p w s) = evict_dirty_count s"
  by (simp_all add: set_swap_def)

lemma is_pte_cong: "pgdir s = pgdir s' \<Longrightarrow> is_pte s p = is_pte s' p"
  by (simp add: is_pte_def)

lemma is_pte_set [simp]:
  "is_pte (set_frame p w s) = is_pte s" "is_pte (set_swap p v s) = is_pte s"
  by (auto simp: is_pte_def fun_eq_iff)

lemma mapped_set_frame:
  assumes "is_pte s p"
  shows "mapped (set_frame p w s) q g \<longleftrightarrow>
    (if q = p then valid w \<and> frame_no w = g else mapped s q g)"
  using assms get_set_frame_other [OF assms, of q w] by (auto simp: mapped_def)

lemma mapped_set_swap: "is_pte s p \<Longrightarrow> mapped (set_swap p w s) q g \<longleftrightarrow> mapped s q g"
  by (auto simp: mapped_def get_frame_set_swap)

subsection \<open>The invariant\<close>

definition offset_ok :: "int \<Rightarrow> bool" where
  "offset_ok off \<longleftrightarrow> off = INVALID_SWAP \<or> (\<exists>i < 2 ^ 27. off = slot_offset i)"

definition rep :: "'p sim \<Rightarrow> nat set \<Rightarrow> bool" where
  "rep s U \<longleftrightarrow>
     0 < memsize s \<and> memsize s \<le> 2 ^ 20 \<and>
     (\<forall>p f. mapped s p f \<longleftrightarrow>
        f < memsize s \<and> f \<notin> U \<and> in_use (coremap s ! f) \<and> cpte (coremap s ! f) = Some p) \<and>
     (\<forall>f < memsize s. in_use (coremap s ! f) \<longrightarrow> (\<exists>p. cpte (coremap s ! f) = Some p \<and> is_pte s p)) \<and>
     (\<forall>f < memsize s. \<forall>g < f. in_use (coremap s ! f) \<longrightarrow> in_use (coremap s ! g)) \<and>
     (\<forall>p. is_pte s p \<longrightarrow> offset_ok (int_of_off (get_swap s p))) \<and>
     swap_ok (swap s)"

definition mm_inv :: "'p sim \<Rightarrow> bool" where
  "mm_inv s \<longleftrightarrow> rep s {}"

definition mem_full :: "'p sim \<Rightarrow> bool" where
  "mem_full s \<longleftrightarrow> (\<forall>c \<in> set (coremap s). in_use c)"

lemma repD:
  assumes "rep s U"
  shows "0 < memsize s" and "memsize s \<le> 2 ^ 20" and "swap_ok (swap s)"
    and "\<And>p f. mapped s p f \<longleftrightarrow>
      f < memsize s \<and> f \<notin> U \<and> in_use (coremap s ! f) \<and> cpte (coremap s ! f) = Some p"
    and "\<And>f. f < memsize s \<Longrightarrow> in_use (coremap s ! f) \<Longrightarrow>
      \<exists>p. cpte (coremap s ! f) = Some p \<and> is_pte s p"
    and "\<And>p. is_pte s p \<Longrightarrow> offset_ok (int_of_off (get_swap s p))"
  using assms by (auto simp: rep_def)

lemma int_of_off_of_int:
  assumes "- (2 ^ 31) \<le> v" and "v < 2 ^ 31"
  shows "int_of_off (off_of_int v) = v"
proof -
  have "ucast (word_of_int v :: 64 word) = (word_of_int v :: 32 word)"
    by (rule bit_word_eqI) (simp add: bit_simps)
  then show ?thesis
    using assms by (simp add: int_of_off_def off_of_int_def signed_of_int)
      (simp add: signed_take_bit_int_eq_self)
qed

lemma offset_ok_off_of_int:
  assumes "offset_ok v"
  shows "int_of_off (off_of_int v) = v"
proof -
  have "- 1 \<le> v \<and> v < 2 ^ 31"
    using assms by (auto simp: offset_ok_def INVALID_SWAP_def slot_offset_def SIMPAGESIZE_def)
  then show ?thesis by (intro int_of_off_of_int) auto
qed

lemma swap_pageout_offset_ok:
  assumes "swap_ok st" and "offset_ok off"
  shows "\<exists>off' st'. swap_pageout frame off m st = Ok (off', st') \<and> offset_ok off' \<and> swap_ok st'"
proof -
  obtain off' st' where r: "swap_pageout frame off m st = Ok (off', st')" "swap_ok st'"
    using swap_pageout_total [OF assms(1)] assms(2) unfolding offset_ok_def by metis
  moreover have "offset_ok off'"
  proof (cases "off = INVALID_SWAP \<and> off' \<noteq> INVALID_SWAP")
    case True
    then obtain i where i: "off' = slot_offset i" "i < bcap (swapmap st)"
      using swap_pageout_fresh [OF assms(1)] r(1) by blast
    have "i < 2 ^ 27"
      using i(2) assms(1) by (simp add: swap_ok_def)
    with i(1) show ?thesis
      unfolding offset_ok_def by blast
  next
    case False
    show ?thesis
    proof (cases "off' = INVALID_SWAP")
      case True
      then show ?thesis by (simp add: offset_ok_def)
    next
      case neq: False
      then obtain i where "off = slot_offset i" "i < 2 ^ 27"
        using False assms(2) by (auto simp: offset_ok_def)
      moreover from this have "off' = off"
        using neq r(1) by (auto simp: swap_pageout_slot Let_def split: prod.splits if_splits)
      ultimately show ?thesis by (auto simp: offset_ok_def)
    qed
  qed
  ultimately show ?thesis by blast
qed

text \<open>Changes that the invariant does not see.\<close>

lemma rep_cong:
  assumes "pgdir s' = pgdir s" and "pgtbl s' = pgtbl s" and "coremap s' = coremap s"
    and "swap_ok (swap s) \<Longrightarrow> swap_ok (swap s')"
  shows "rep s U \<Longrightarrow> rep s' U"
proof -
  have "is_pte s' = is_pte s" "get_frame s' = get_frame s" "get_swap s' = get_swap s"
    by (rule ext, simp add: is_pte_def get_frame_def get_swap_def assms)+
  then show "rep s U \<Longrightarrow> rep s' U"
    using assms unfolding rep_def mapped_def memsize_def by simp
qed

lemma rep_set_swap:
  assumes "rep s U" and "is_pte s p" and "offset_ok (int_of_off w)"
  shows "rep (set_swap p w s) U"
  using assms get_set_swap_other [OF assms(2)]
  unfolding rep_def memsize_def by (auto simp: mapped_set_swap) (metis get_set_swap_same)

text \<open>Writing an entry: it may change which of the frames of \<open>U\<close> it names.\<close>

lemma rep_set_frame:
  assumes "rep s U" and "is_pte s p"
    and "\<And>f. valid w \<and> frame_no w = f \<longleftrightarrow>
      f < memsize s \<and> f \<notin> U' \<and> in_use (coremap s ! f) \<and> cpte (coremap s ! f) = Some p"
    and "\<And>q f. q \<noteq> p \<Longrightarrow> f < memsize s \<Longrightarrow> in_use (coremap s ! f) \<Longrightarrow>
      cpte (coremap s ! f) = Some q \<Longrightarrow> f \<in> U \<longleftrightarrow> f \<in> U'"
  shows "rep (set_frame p w s) U'"
proof -
  have "mapped (set_frame p w s) q f \<longleftrightarrow>
      f < memsize s \<and> f \<notin> U' \<and> in_use (coremap s ! f) \<and> cpte (coremap s ! f) = Some q" for q f
    using assms(3) [of f] assms(4) [of q f] repD(4) [OF assms(1), of q f]
    by (auto simp: mapped_set_frame [OF assms(2)])
  then show ?thesis
    using assms(1) get_swap_set_frame [OF assms(2)]
    unfolding rep_def memsize_def by simp
qed

end
