(* ===== verification/PtInit.thy ===== *)
theory PtInit
  imports MemInv
begin

section \<open>A fresh second-level table seen through the tagged pointer\<close>

text \<open>
  \<open>init_second_level\<close> initialises the entries at offsets 0, 16, 32, \<dots> of the block;
  \<open>find_physpage\<close> reads them at offsets 1, 17, 33, \<dots>.  The entries it sees are invalid and
  their \<open>swap_off\<close>, converted to the \<open>int\<close> that \<open>swap_pageout\<close> takes, is \<open>INVALID_SWAP\<close>, whatever
  the block held before: the overlap is harmless on this path.
\<close>

definition fresh_byte :: "mem \<Rightarrow> mem" where
  "fresh_byte m x =
     (if x mod 16 < 4 then 0 else if 8 \<le> x mod 16 then 255 else m x)"

lemma wr32_zero: "wr32 a 0 m x = (if a \<le> x \<and> x < a + 4 then 0 else m x)"
proof -
  have "wr n a 0 m x = (if a \<le> x \<and> x < a + n then 0 else m x)" for n a
    by (induction n arbitrary: a) auto
  then show ?thesis by (simp add: wr32_def)
qed

lemma wr_ones: "wr n a (256 ^ n - 1) m x = (if a \<le> x \<and> x < a + n then 255 else m x)"
proof (induction n arbitrary: a)
  case 0
  show ?case by auto
next
  case (Suc n)
  define k :: nat where "k = 256 ^ n - 1"
  have e: "256 ^ Suc n - 1 = 255 + 256 * k"
    unfolding k_def by (cases "(256 :: nat) ^ n") auto
  have "(255 + 256 * k) div 256 = k" by simp
  moreover have "word_of_nat (255 + 256 * k) = (word_of_nat 255 :: byte)"
    by (simp only: word_of_nat_eq_iff take_bit_eq_mod) simp
  ultimately show ?case
    using Suc [of "Suc a"] unfolding e by (auto simp: k_def)
qed

lemma wr64_ones: "wr64 a (word_of_int INVALID_SWAP) m x = (if a \<le> x \<and> x < a + 8 then 255 else m x)"
  using wr_ones [of 8 a m x] by (simp add: wr64_def INVALID_SWAP_def unsigned_minus_1_eq_mask mask_eq_exp_minus_1)

definition init_entry :: "nat \<Rightarrow> mem \<Rightarrow> mem" where
  "init_entry i m = wr64 (PTE_SIZE * i + SWAP_OFF) (word_of_int INVALID_SWAP) (wr32 (PTE_SIZE * i) 0 m)"

lemma init_entry_at:
  "init_entry i m x = (if 16 * i \<le> x \<and> x < 16 * i + 16 then
     (if x < 16 * i + 4 then 0 else if 16 * i + 8 \<le> x then 255 else m x) else m x)"
  by (auto simp: init_entry_def wr64_ones wr32_zero PTE_SIZE_def SWAP_OFF_def)

lemma init_entries_upto:
  "fold init_entry [0..<n] m = (\<lambda>x. if x < 16 * n then fresh_byte m x else m x)"
proof (induction n)
  case 0
  then show ?case by simp
next
  case (Suc n)
  show ?case
  proof
    fix x
    have "x < 16 * Suc n \<Longrightarrow> \<not> x < 16 * n \<Longrightarrow> \<exists>k. x = 16 * n + k \<and> k < 16"
      by (metis add.commute le_add_diff_inverse less_diff_conv2 mult_Suc_right not_less)
    then consider "x < 16 * n" | k where "x = 16 * n + k" "k < 16" | "16 * Suc n \<le> x"
      by fastforce
    then show "fold init_entry [0..<Suc n] m x = (if x < 16 * Suc n then fresh_byte m x else m x)"
      by cases (auto simp: Suc init_entry_at fresh_byte_def)
  qed
qed

lemma init_entries_eq:
  "init_entries m = (\<lambda>x. if x < 65536 then fresh_byte m x else m x)"
proof -
  have "init_entries m = fold init_entry [0..<4096] m"
    by (simp add: init_entries_def PTRS_PER_PGTBL_def init_entry_def [abs_def])
  then show ?thesis
    unfolding init_entries_upto by simp
qed

lemma rd_4: "rd 4 m a = unat (m a) + 256 * (unat (m (Suc a)) +
    256 * (unat (m (Suc (Suc a))) + 256 * unat (m (Suc (Suc (Suc a))))))"
proof -
  have "4 = Suc (Suc (Suc (Suc 0)))" by simp
  then show ?thesis by (simp only: rd.simps mult_0_right add_0_right)
qed

lemma init_entries_at:
  assumes "j < 4096" and "k < 16"
  shows "init_entries m (16 * j + k) = (if k < 4 then 0 else if 8 \<le> k then 255 else m (16 * j + k))"
  using assms by (simp add: init_entries_eq fresh_byte_def)

lemma rd_split: "rd (n + k) m a = rd n m a + 256 ^ n * rd k m (a + n)"
  by (induction n arbitrary: a) (auto simp: algebra_simps)

text \<open>The two fields of an entry of a fresh table.\<close>

lemma fresh_frame_invalid:
  assumes "j < 4096"
  shows "\<not> valid (rd32 (init_entries m) (1 + 16 * j))"
proof -
  have "init_entries m (1 + 16 * j) = 0"
    using init_entries_at [OF assms, of 1] by simp
  then have "even (rd 4 (init_entries m) (1 + 16 * j))"
    by (simp add: rd_4)
  then show ?thesis
    by (simp add: valid_def rd32_def bit_0)
qed

lemma fresh_swap_invalid:
  assumes "j < 4096"
  shows "int_of_off (rd64 (init_entries m) (1 + 16 * j + 8)) = INVALID_SWAP"
proof -
  let ?m = "init_entries m"
  have b: "?m (9 + 16 * j) = 255" "?m (10 + 16 * j) = 255" "?m (11 + 16 * j) = 255"
    "?m (12 + 16 * j) = 255"
    using init_entries_at [OF assms, of 9] init_entries_at [OF assms, of 10]
      init_entries_at [OF assms, of 11] init_entries_at [OF assms, of 12]
    by (simp_all add: add.commute)
  have "rd 8 ?m (9 + 16 * j) = rd 4 ?m (9 + 16 * j) + 2 ^ 32 * rd 4 ?m (13 + 16 * j)"
    using rd_split [of 4 4 ?m "9 + 16 * j"] by (simp add: algebra_simps)
  moreover have "rd 4 ?m (9 + 16 * j) = 2 ^ 32 - 1"
    using b unfolding rd_4 by simp
  ultimately have r: "rd 8 ?m (9 + 16 * j) = 2 ^ 32 - 1 + 2 ^ 32 * rd 4 ?m (13 + 16 * j)"
    by simp
  have "ucast (rd64 ?m (9 + 16 * j)) = (word_of_nat (rd 8 ?m (9 + 16 * j)) :: 32 word)"
    unfolding rd64_def by (rule bit_word_eqI) (simp add: bit_simps)
  also have "\<dots> = word_of_nat (2 ^ 32 - 1)"
    unfolding r by (simp only: word_of_nat_eq_iff take_bit_eq_mod) simp
  finally show ?thesis
    by (simp add: int_of_off_def INVALID_SWAP_def)
qed

lemma rep_init_second_level:
  assumes "rep s U" and "\<not> pgdir s idx" and "idx < PTRS_PER_PGDIR"
    and "init_second_level idx s = Ok s'"
  shows "rep s' U" and "pgdir s' idx" and "coremap s' = coremap s" and "pol s' = pol s"
proof -
  have s': "s' = s\<lparr>tables_left := tables_left s - 1,
      pgtbl := (pgtbl s)(idx := init_entries (fresh_mem s)), pgdir := (pgdir s)(idx := True)\<rparr>"
    using assms(4) by (auto simp: init_second_level_def split: if_splits)
  then show "pgdir s' idx" "coremap s' = coremap s" "pol s' = pol s" by simp_all
  have pte: "is_pte s' p \<longleftrightarrow> is_pte s p \<or>
      (fst p = idx \<and> (\<exists>j < PTRS_PER_PGTBL. snd p = PDE_TAG + PTE_SIZE * j))" for p
    using assms(2,3) by (auto simp: s' is_pte_def)
  have old: "get_frame s' p = get_frame s p" "get_swap s' p = get_swap s p" if "is_pte s p" for p
    using that assms(2) by (auto simp: s' is_pte_def get_frame_def get_swap_def)
  have new: "\<not> valid (get_frame s' p)" "int_of_off (get_swap s' p) = INVALID_SWAP"
    if "fst p = idx" "\<exists>j < PTRS_PER_PGTBL. snd p = PDE_TAG + PTE_SIZE * j" for p
    using that fresh_frame_invalid fresh_swap_invalid
    by (auto simp: s' get_frame_def get_swap_def pt_consts)
  have map: "mapped s' p f = mapped s p f" for p f
    using pte [of p] old [of p] new [of p] by (auto simp: mapped_def)
  have off: "offset_ok (int_of_off (get_swap s' p))" if "is_pte s' p" for p
    using that pte [of p] old [of p] new [of p] repD(6) [OF assms(1), of p]
    by (auto simp: offset_ok_def)
  have same: "memsize s' = memsize s" "coremap s' = coremap s" "swap s' = swap s"
    by (simp_all add: s' memsize_def)
  show "rep s' U"
    unfolding rep_def same map
    using off pte repD [OF assms(1)] assms(1) unfolding rep_def by blast
qed

end
