(* ===== verification/Paging.thy ===== *)
theory Paging
  imports PtInit
begin

section \<open>Demand paging keeps the page table and the coremap in step\<close>

text \<open>
  Preservation of the invariant of \<open>MemInv\<close> by eviction, allocation, page misses and
  \<open>find_physpage\<close>, for every replacement algorithm that meets the contract \<open>replacement\<close>; and
  success of every reference for those that meet \<open>live_replacement\<close>.
\<close>

subsection \<open>Eviction\<close>

text \<open>Fields that no step of paging but the counting changes.\<close>

definition keeps :: "'p sim \<Rightarrow> 'p sim \<Rightarrow> bool" where
  "keeps s s' \<longleftrightarrow> pgdir s' = pgdir s \<and> tables_left s' = tables_left s \<and>
     fresh_mem s' = fresh_mem s \<and> hit_count s' = hit_count s \<and> miss_count s' = miss_count s \<and>
     ref_count s' = ref_count s"

lemma keeps_refl [simp]: "keeps s s"
  by (simp add: keeps_def)

lemma keeps_trans: "keeps s t \<Longrightarrow> keeps t u \<Longrightarrow> keeps s u"
  by (simp add: keeps_def)

text \<open>The victim's entry after its page has left: still its frame, but not valid.\<close>

lemma rep_invalidate:
  assumes "rep s {}" and "f < memsize s" and "in_use (coremap s ! f)"
    and "cpte (coremap s ! f) = Some p" and "\<not> valid w"
  shows "rep (set_frame p w s) {f}"
proof (rule rep_set_frame [OF assms(1)])
  have m: "mapped s p f"
    using assms repD(4) [OF assms(1)] by simp
  then show "is_pte s p" by (simp add: mapped_def)
  fix g
  have "g = f" if "g < memsize s" "in_use (coremap s ! g)" "cpte (coremap s ! g) = Some p"
    using that m repD(4) [OF assms(1), of p g] by (auto simp: mapped_def)
  then show "valid w \<and> frame_no w = g \<longleftrightarrow>
      g < memsize s \<and> g \<notin> {f} \<and> in_use (coremap s ! g) \<and> cpte (coremap s ! g) = Some p"
    using assms(5) by auto
qed (use assms in auto)

lemma evict_page_spec:
  assumes "rep s {}" and "f < memsize s" and "in_use (coremap s ! f)"
  shows "\<exists>s'. evict_page f s = Ok s' \<and> rep s' {f} \<and> keeps s s' \<and> coremap s' = coremap s \<and>
    physmem s' = physmem s \<and> pol s' = pol s \<and>
    evict_clean_count s' + evict_dirty_count s' = Suc (evict_clean_count s + evict_dirty_count s)"
proof -
  obtain bye where bye: "cpte (coremap s ! f) = Some bye" "is_pte s bye"
    using repD(5) [OF assms] by blast
  define clean where "clean = s\<lparr>evict_clean_count := Suc (evict_clean_count s)\<rparr>"
  define dirt where "dirt = s\<lparr>evict_dirty_count := Suc (evict_dirty_count s)\<rparr>"
  have inval: "rep (set_frame bye (get_frame t bye AND NOT PG_VALID) t) {f}"
    if "rep t {}" "coremap t = coremap s" for t :: "'a sim"
    using rep_invalidate [OF that(1), of f bye] that assms bye by (simp add: memsize_def)
  show ?thesis
  proof (cases "dirty (get_frame s bye)")
    case False
    then have "evict_page f s = Ok (set_frame bye (get_frame clean bye AND NOT PG_VALID) clean)"
      using assms bye by (simp add: evict_page_def clean_def)
    moreover have "rep clean {}"
      using assms(1) by (rule rep_cong [rotated -1]) (simp_all add: clean_def)
    ultimately show ?thesis
      using inval by (auto simp: clean_def keeps_def)
  next
    case True
    have off: "offset_ok (int_of_off (get_swap s bye))"
      using repD(6) [OF assms(1)] bye by blast
    then obtain o' sw where sw: "swap_pageout f (int_of_off (get_swap s bye)) (physmem s) (swap s)
        = Ok (o', sw)" "offset_ok o'" "swap_ok sw"
      using swap_pageout_offset_ok repD(3) [OF assms(1)] by blast
    define out where "out = dirt\<lparr>swap := sw\<rparr>"
    have out: "rep out {}" "is_pte out bye"
      using assms(1) bye sw(3)
      by (auto simp: out_def dirt_def is_pte_def elim!: rep_cong [rotated -1])
    define out' where "out' = set_swap bye (off_of_int o')
        (set_frame bye (get_frame out bye OR PG_ONSWAP) out)"
    have "rep (set_frame bye (get_frame out bye OR PG_ONSWAP) out) {}"
      by (rule rep_set_frame [OF out])
        (use repD(4) [OF out(1), of bye] out(2) in \<open>auto simp: mapped_def\<close>)
    then have out': "rep out' {}"
      unfolding out'_def using out(2) sw(2) by (intro rep_set_swap) (auto simp: offset_ok_off_of_int)
    define t where "t = (if o' \<noteq> INVALID_SWAP then out' else out)"
    have "evict_page f s = Ok (set_frame bye (get_frame t bye AND NOT PG_VALID) t)"
      using assms bye True sw(1)
      by (auto simp: evict_page_def t_def out'_def out_def dirt_def get_swap_def get_frame_def Let_def)
    moreover have "rep t {}" "coremap t = coremap s" "keeps s t" "physmem t = physmem s"
      "pol t = pol s"
      "evict_clean_count t + evict_dirty_count t = Suc (evict_clean_count s + evict_dirty_count s)"
      using out out' by (auto simp: t_def out'_def out_def dirt_def keeps_def)
    ultimately show ?thesis
      using inval [of t] by (auto simp: keeps_def)
  qed
qed

subsection \<open>Finding a frame\<close>

lemma find_free_frame_None: "find_free_frame cs i = None \<longleftrightarrow> (\<forall>c \<in> set cs. in_use c)"
  by (induction cs arbitrary: i) auto

lemma find_free_frame_Some:
  "find_free_frame cs i = Some f \<Longrightarrow>
    i \<le> f \<and> f < i + length cs \<and> \<not> in_use (cs ! (f - i)) \<and> (\<forall>g < f - i. in_use (cs ! g))"
proof (induction cs arbitrary: i)
  case (Cons c cs)
  show ?case
  proof (cases "in_use c")
    case True
    then have IH: "Suc i \<le> f \<and> f < Suc i + length cs \<and> \<not> in_use (cs ! (f - Suc i)) \<and>
        (\<forall>g < f - Suc i. in_use (cs ! g))"
      using Cons.IH [of "Suc i"] Cons.prems by simp
    then have "f - i = Suc (f - Suc i)" by auto
    then show ?thesis
      using True IH by (auto simp: less_Suc_eq_0_disj)
  next
    case False
    with Cons.prems show ?thesis by auto
  qed
qed simp

lemma mem_full_iff: "mem_full s \<longleftrightarrow> (\<forall>f < memsize s. in_use (coremap s ! f))"
  by (auto simp: mem_full_def memsize_def set_conv_nth)

text \<open>The new owner is entered in the coremap before its entry is valid.\<close>

lemma rep_new_owner:
  assumes "rep s {f}" and "f < memsize s" and "is_pte s p" and "\<not> valid (get_frame s p)"
    and "\<forall>g < f. in_use (coremap s ! g)"
  shows "rep (s\<lparr>coremap := (coremap s)[f := \<lparr>in_use = True, cpte = Some p\<rparr>]\<rparr>) {f}"
proof -
  let ?s = "s\<lparr>coremap := (coremap s)[f := \<lparr>in_use = True, cpte = Some p\<rparr>]\<rparr>"
  have same: "is_pte ?s = is_pte s" "get_frame ?s = get_frame s" "get_swap ?s = get_swap s"
    "memsize ?s = memsize s" "swap ?s = swap s"
    by (auto simp: fun_eq_iff is_pte_def get_frame_def get_swap_def memsize_def)
  have cm: "coremap ?s ! g = (if g = f then \<lparr>in_use = True, cpte = Some p\<rparr> else coremap s ! g)"
    if "g < memsize s" for g
    using assms(2) that by (simp add: memsize_def nth_list_update_if)
  have map: "mapped ?s q g \<longleftrightarrow>
      g < memsize s \<and> g \<notin> {f} \<and> in_use (coremap ?s ! g) \<and> cpte (coremap ?s ! g) = Some q" for q g
    using repD(4) [OF assms(1), of q g] cm [of g] by (auto simp: mapped_def same)
  have own: "\<exists>q. cpte (coremap ?s ! g) = Some q \<and> is_pte s q"
    if "g < memsize s" "in_use (coremap ?s ! g)" for g
    using that cm [of g] repD(5) [OF assms(1), of g] assms(3)
    by (cases "g = f") (simp_all del: split_paired_Ex)
  have pre: "in_use (coremap ?s ! g)" if "h < memsize s" "g < h" "in_use (coremap ?s ! h)" for g h
    using that cm [of g] cm [of h] assms(1,5) by (auto simp: rep_def split: if_splits)
  show ?thesis
    unfolding rep_def same using map own pre repD(1-3,6) [OF assms(1)] by blast
qed

subsection \<open>The contract of a replacement algorithm\<close>

text \<open>
  An algorithm may change its own state and the reference bits of page table entries, nothing
  else.
\<close>

definition only_ref_bits :: "'p sim \<Rightarrow> 'p sim \<Rightarrow> bool" where
  "only_ref_bits s s' \<longleftrightarrow> keeps s s' \<and> coremap s' = coremap s \<and> physmem s' = physmem s \<and>
     swap s' = swap s \<and> evict_clean_count s' = evict_clean_count s \<and>
     evict_dirty_count s' = evict_dirty_count s \<and>
     (\<forall>p. is_pte s p \<longrightarrow>
        get_frame s' p AND NOT PG_REF = get_frame s p AND NOT PG_REF \<and> get_swap s' p = get_swap s p)"

lemma only_ref_bits_refl [simp]: "only_ref_bits s s"
  by (simp add: only_ref_bits_def)

lemma only_ref_bits_pol [simp]: "only_ref_bits s (s\<lparr>pol := q\<rparr>)"
  by (simp add: only_ref_bits_def keeps_def get_frame_def get_swap_def)

lemma only_ref_bits_is_pte: "only_ref_bits s s' \<Longrightarrow> is_pte s' = is_pte s"
  by (simp add: only_ref_bits_def keeps_def is_pte_def fun_eq_iff)

lemma only_ref_bits_trans:
  "only_ref_bits s t \<Longrightarrow> only_ref_bits t u \<Longrightarrow> only_ref_bits s u"
  using only_ref_bits_is_pte [of s t] by (simp add: only_ref_bits_def keeps_def)

lemma only_ref_bits_frame:
  assumes "only_ref_bits s s'" and "is_pte s p"
  shows "valid (get_frame s' p) = valid (get_frame s p)"
    and "frame_no (get_frame s' p) = frame_no (get_frame s p)"
    and "dirty (get_frame s' p) = dirty (get_frame s p)"
proof -
  have "get_frame s' p AND NOT PG_REF = get_frame s p AND NOT PG_REF"
    using assms by (simp add: only_ref_bits_def)
  then show "valid (get_frame s' p) = valid (get_frame s p)"
    "frame_no (get_frame s' p) = frame_no (get_frame s p)"
    "dirty (get_frame s' p) = dirty (get_frame s p)"
    using flags_clear(2) [of "get_frame s' p"] flags_clear(2) [of "get_frame s p"]
      frame_no_flags(6) [of "get_frame s' p"] frame_no_flags(6) [of "get_frame s p"]
      flags_clear(4) [of "get_frame s' p"] flags_clear(4) [of "get_frame s p"] by simp_all
qed

lemma only_ref_bits_mapped: "only_ref_bits s s' \<Longrightarrow> mapped s' p f = mapped s p f"
  using only_ref_bits_is_pte [of s s'] only_ref_bits_frame [of s s' p] by (auto simp: mapped_def)

lemma only_ref_bits_rep:
  assumes "only_ref_bits s s'" and "rep s U"
  shows "rep s' U"
proof -
  have "get_swap s' p = get_swap s p" if "is_pte s p" for p
    using assms(1) that by (simp add: only_ref_bits_def)
  moreover have "memsize s' = memsize s" "coremap s' = coremap s" "swap s' = swap s"
    using assms(1) by (simp_all add: only_ref_bits_def memsize_def)
  ultimately show ?thesis
    using assms(2) only_ref_bits_mapped [OF assms(1)] only_ref_bits_is_pte [OF assms(1)]
    unfolding rep_def by simp
qed

lemma only_ref_bits_coremap:
  "only_ref_bits s s' \<Longrightarrow> coremap s' = coremap s \<and> memsize s' = memsize s \<and> mem_full s' = mem_full s"
  by (simp add: only_ref_bits_def memsize_def mem_full_def)

text \<open>Setting or clearing the reference bit of one entry.\<close>

lemma only_ref_bits_set_ref:
  assumes "is_pte s p" and "w AND NOT PG_REF = get_frame s p AND NOT PG_REF"
  shows "only_ref_bits s (set_frame p w s)"
proof -
  have "get_frame (set_frame p w s) q AND NOT PG_REF = get_frame s q AND NOT PG_REF"
    if "is_pte s q" for q
    using assms get_set_frame_other [OF assms(1) that] by (cases "p = q") auto
  then show ?thesis
    using get_swap_set_frame [OF assms(1)] by (simp add: only_ref_bits_def keeps_def)
qed

lemma ref_bit_masks [simp]:
  "(w OR PG_REF) AND NOT PG_REF = w AND NOT PG_REF"
  "(w AND NOT PG_REF) AND NOT PG_REF = w AND NOT PG_REF"
  by (rule bit_word_eqI; auto simp: bit_clear_flag bit_or_flag)+

text \<open>
  \<open>pinv n full q\<close>: the algorithm's own invariant on its state \<open>q\<close>, with \<open>n\<close> frames, all of them in
  use when \<open>full\<close>.
\<close>

locale replacement =
  fixes evict :: "'p sim \<Rightarrow> (nat \<times> 'p sim) res"
    and ref :: "pteref \<Rightarrow> 'p sim \<Rightarrow> 'p sim res"
    and pinv :: "nat \<Rightarrow> bool \<Rightarrow> 'p \<Rightarrow> bool"
  assumes evict_law: "mm_inv s \<Longrightarrow> mem_full s \<Longrightarrow> pinv (memsize s) True (pol s) \<Longrightarrow>
      evict s = Ok (f, s') \<Longrightarrow>
      f < memsize s \<and> only_ref_bits s s' \<and> pinv (memsize s) True (pol s')"
    and ref_law: "mm_inv s \<Longrightarrow> mapped s p g \<Longrightarrow> pinv (memsize s) (mem_full s) (pol s) \<Longrightarrow>
      ref p s = Ok s' \<Longrightarrow>
      only_ref_bits s s' \<and> pinv (memsize s) (mem_full s) (pol s')"
    and pinv_full: "pinv n False q \<Longrightarrow> pinv n True q"

locale live_replacement = replacement +
  assumes evict_total: "mm_inv s \<Longrightarrow> mem_full s \<Longrightarrow> pinv (memsize s) True (pol s) \<Longrightarrow>
      \<exists>r. evict s = Ok r"
    and ref_total: "mm_inv s \<Longrightarrow> mapped s p g \<Longrightarrow> pinv (memsize s) (mem_full s) (pol s) \<Longrightarrow>
      \<exists>s'. ref p s = Ok s'"

definition sim_inv :: "(nat \<Rightarrow> bool \<Rightarrow> 'p \<Rightarrow> bool) \<Rightarrow> 'p sim \<Rightarrow> bool" where
  "sim_inv pinv s \<longleftrightarrow> mm_inv s \<and> pinv (memsize s) (mem_full s) (pol s)"

subsection \<open>Allocation, miss and reference\<close>

text \<open>The state between \<open>allocate_frame\<close> and the validation of the new entry.\<close>

definition claimed :: "'p sim \<Rightarrow> pteref \<Rightarrow> nat \<Rightarrow> bool" where
  "claimed s p f \<longleftrightarrow> rep s {f} \<and> f < memsize s \<and> is_pte s p \<and> \<not> valid (get_frame s p) \<and>
     coremap s ! f = \<lparr>in_use = True, cpte = Some p\<rparr>"

lemma rep_free_frame:
  "rep s {} \<Longrightarrow> \<not> in_use (coremap s ! f) \<Longrightarrow> rep s {f}"
  unfolding rep_def by auto

lemma invalid_no_owner:
  assumes "rep s {}" and "is_pte s p" and "\<not> valid (get_frame s p)" and "g < memsize s"
    and "in_use (coremap s ! g)"
  shows "cpte (coremap s ! g) \<noteq> Some p"
  using assms repD(4) [OF assms(1), of p g] by (auto simp: mapped_def)

lemma claim_frame:
  assumes "rep s {f}" and "f < memsize s" and "is_pte s p" and "\<forall>g < f. in_use (coremap s ! g)"
    and "\<And>g. g < memsize s \<Longrightarrow> in_use (coremap s ! g) \<Longrightarrow> cpte (coremap s ! g) \<noteq> Some p"
  shows "claimed (s\<lparr>coremap := (coremap s)[f := \<lparr>in_use = True, cpte = Some p\<rparr>]\<rparr>) p f"
proof -
  have "\<not> valid (get_frame s p)"
    using repD(4) [OF assms(1), of p "frame_no (get_frame s p)"] assms(3,5)
    by (auto simp: mapped_def)
  then show ?thesis
    using rep_new_owner [OF assms(1-3) _ assms(4)] assms(2,3)
    by (auto simp: claimed_def memsize_def is_pte_def get_frame_def)
qed

text \<open>Validating the claimed entry restores the invariant.\<close>

lemma claimed_validate:
  assumes "claimed s p f" and "valid w" and "frame_no w = f"
  shows "mm_inv (set_frame p w s)" and "mapped (set_frame p w s) p f"
proof -
  have c: "rep s {f}" "f < memsize s" "is_pte s p" "\<not> valid (get_frame s p)"
    "coremap s ! f = \<lparr>in_use = True, cpte = Some p\<rparr>"
    using assms(1) by (auto simp: claimed_def)
  have only: "g = f" if "g < memsize s" "in_use (coremap s ! g)" "cpte (coremap s ! g) = Some p" for g
    using that c(4) repD(4) [OF c(1), of p g] by (auto simp: mapped_def)
  show "mm_inv (set_frame p w s)"
    unfolding mm_inv_def
  proof (rule rep_set_frame [OF c(1,3)])
    fix g
    show "valid w \<and> frame_no w = g \<longleftrightarrow>
        g < memsize s \<and> g \<notin> {} \<and> in_use (coremap s ! g) \<and> cpte (coremap s ! g) = Some p"
    proof (cases "g = f")
      case True
      then show ?thesis using assms(2,3) c(2,5) by simp
    next
      case False
      then show ?thesis using assms(3) only [of g] by blast
    qed
  next
    fix q g
    assume "q \<noteq> p" "cpte (coremap s ! g) = Some q"
    then have "g \<noteq> f" using c(5) by auto
    then show "g \<in> {f} \<longleftrightarrow> g \<in> {}" by simp
  qed
  show "mapped (set_frame p w s) p f"
    using mapped_set_frame [OF c(3)] assms(2,3) by simp
qed

lemma claimed_invalid:
  assumes "claimed s p f" and "\<not> valid w"
  shows "claimed (set_frame p w s) p f"
proof -
  have c: "rep s {f}" "f < memsize s" "is_pte s p" "\<not> valid (get_frame s p)"
    "coremap s ! f = \<lparr>in_use = True, cpte = Some p\<rparr>"
    using assms(1) by (auto simp: claimed_def)
  have "g = f" if "g < memsize s" "in_use (coremap s ! g)" "cpte (coremap s ! g) = Some p" for g
    using that c(4) repD(4) [OF c(1), of p g] by (auto simp: mapped_def)
  then have "rep (set_frame p w s) {f}"
    by (intro rep_set_frame [OF c(1,3)]) (use assms(2) in blast)+
  then show ?thesis
    using c assms(2) by (simp add: claimed_def memsize_def)
qed

lemma claimed_physmem: "claimed s p f \<Longrightarrow> claimed (s\<lparr>physmem := m\<rparr>) p f"
  using rep_cong [of "s\<lparr>physmem := m\<rparr>" s "{f}"]
  by (simp add: claimed_def memsize_def is_pte_def get_frame_def)

lemma set_frame_twice [simp]: "set_frame p v (set_frame p w s) = set_frame p v s"
  by (simp add: set_frame_def mem_simps)

text \<open>
  A miss never reads the swap file: \<open>p->frame = frame << PAGE_SHIFT\<close> clears \<open>PG_ONSWAP\<close> just
  before the code tests it.
\<close>

lemma page_miss_eq:
  "page_miss evict vaddr s =
     res_bind (allocate_frame evict (pte_ptr vaddr) (s\<lparr>miss_count := Suc (miss_count s)\<rparr>))
       (\<lambda>(f, s). let s = set_frame (pte_ptr vaddr) (push_bit PAGE_SHIFT (word_of_nat f)) s in
          Ok (s\<lparr>physmem := init_frame f vaddr (physmem s)\<rparr>))"
  by (simp add: page_miss_def Let_def case_prod_unfold)

context replacement
begin

lemma allocate_frame_claims:
  assumes "sim_inv pinv s" and "is_pte s p" and "\<not> valid (get_frame s p)"
    and "allocate_frame evict p s = Ok (f, s')"
  shows "claimed s' p f \<and> keeps s s' \<and> physmem s' = physmem s \<and> memsize s' = memsize s \<and>
    pinv (memsize s') (mem_full s') (pol s')"
proof -
  have inv: "rep s {}" "pinv (memsize s) (mem_full s) (pol s)"
    using assms(1) by (auto simp: sim_inv_def mm_inv_def)
  show ?thesis
  proof (cases "find_free_frame (coremap s) 0")
    case (Some g)
    then have g: "g < memsize s" "\<not> in_use (coremap s ! g)" "\<forall>h < g. in_use (coremap s ! h)"
      using find_free_frame_Some by (fastforce simp: memsize_def)+
    have s': "f = g" "s' = s\<lparr>coremap := (coremap s)[g := \<lparr>in_use = True, cpte = Some p\<rparr>]\<rparr>"
      using assms(4) Some by (auto simp: allocate_frame_def)
    have "claimed s' p f"
      unfolding s' using invalid_no_owner [OF inv(1) assms(2,3)] rep_free_frame [OF inv(1) g(2)]
      by (intro claim_frame) (use g assms(2) in auto)
    moreover have "\<not> mem_full s"
      using g by (auto simp: mem_full_iff)
    ultimately show ?thesis
      using inv pinv_full s' by (cases "mem_full s'") (auto simp: keeps_def memsize_def)
  next
    case None
    then have full: "mem_full s"
      by (simp add: mem_full_def find_free_frame_None)
    obtain s1 s2 where ev: "evict s = Ok (f, s1)" "evict_page f s1 = Ok s2"
      "s' = s2\<lparr>coremap := (coremap s2)[f := \<lparr>in_use = True, cpte = Some p\<rparr>]\<rparr>"
      using assms(4) None by (auto simp: allocate_frame_def)
    have e: "f < memsize s" "only_ref_bits s s1" "pinv (memsize s) True (pol s1)"
      using evict_law [OF _ full _ ev(1)] assms(1) full by (auto simp: sim_inv_def)
    note same = only_ref_bits_coremap [OF e(2)]
    have r1: "rep s1 {}" "is_pte s1 p" "\<not> valid (get_frame s1 p)"
      using only_ref_bits_rep [OF e(2) inv(1)] only_ref_bits_is_pte [OF e(2)]
        only_ref_bits_frame [OF e(2) assms(2)] assms(2,3) by auto
    have used: "in_use (coremap s1 ! f)"
      using full e(1) same by (simp add: mem_full_iff)
    then have s2: "rep s2 {f}" "keeps s1 s2" "coremap s2 = coremap s1" "physmem s2 = physmem s1"
      "pol s2 = pol s1"
      using evict_page_spec [OF r1(1) _ used] e(1) same ev(2) by auto
    have "claimed s' p f"
      unfolding ev(3)
    proof (rule claim_frame [OF s2(1)])
      show "f < memsize s2" "is_pte s2 p" "\<forall>g < f. in_use (coremap s2 ! g)"
        using e(1) same s2 r1(2) full is_pte_cong [of s1 s2]
        by (auto simp: memsize_def keeps_def mem_full_iff)
      show "cpte (coremap s2 ! g) \<noteq> Some p" if "g < memsize s2" "in_use (coremap s2 ! g)" for g
        using that invalid_no_owner [OF r1, of g] s2(3) by (simp add: memsize_def)
    qed
    moreover have "mem_full s'" "memsize s' = memsize s"
      using full same s2(3) e(1) by (auto simp: ev(3) mem_full_def memsize_def
          dest!: set_update_subset_insert [THEN subsetD])
    ultimately show ?thesis
      using e s2 by (auto simp: ev(3) keeps_def only_ref_bits_def)
  qed
qed

end

text \<open>The three flag updates of \<open>find_physpage\<close> as one.\<close>

definition touch :: "char \<Rightarrow> 32 word \<Rightarrow> 32 word" where
  "touch type w =
     (let w = w OR PG_VALID OR PG_REF in if is_write type then w OR PG_DIRTY else w)"

lemma touch_flags [simp]:
  "valid (touch type w)" "refd (touch type w)" "frame_no (touch type w) = frame_no w"
  "dirty (touch type w) \<longleftrightarrow> is_write type \<or> dirty w" "onswap (touch type w) = onswap w"
proof -
  have a: "w OR PG_VALID OR PG_REF = (w OR PG_VALID) OR PG_REF"
    by (simp add: or.assoc)
  show "valid (touch type w)" "refd (touch type w)" "frame_no (touch type w) = frame_no w"
    "dirty (touch type w) \<longleftrightarrow> is_write type \<or> dirty w" "onswap (touch type w) = onswap w"
    by (auto simp: touch_def Let_def a simp del: or.assoc)
qed

definition table_for :: "nat \<Rightarrow> 'p sim \<Rightarrow> 'p sim res" where
  "table_for idx s = (if \<not> pgdir s idx then init_second_level idx s else Ok s)"

definition hit_or_miss ::
  "('p sim \<Rightarrow> (nat \<times> 'p sim) res) \<Rightarrow> 64 word \<Rightarrow> 'p sim \<Rightarrow> 'p sim res" where
  "hit_or_miss evict vaddr s =
     (if \<not> valid (get_frame s (pte_ptr vaddr)) then page_miss evict vaddr s
      else Ok (s\<lparr>hit_count := Suc (hit_count s)\<rparr>))"

lemma find_physpage_eq:
  "find_physpage evict ref vaddr type s =
     (if fst (pte_ptr vaddr) \<ge> PTRS_PER_PGDIR then Err Out_of_bounds
      else res_bind (table_for (fst (pte_ptr vaddr)) s) (\<lambda>s.
        res_bind (hit_or_miss evict vaddr (s\<lparr>ref_count := Suc (ref_count s)\<rparr>)) (\<lambda>s.
        res_bind (ref (pte_ptr vaddr)
            (set_frame (pte_ptr vaddr) (touch type (get_frame s (pte_ptr vaddr))) s)) (\<lambda>s.
          Ok (frame_no (get_frame s (pte_ptr vaddr)) * SIMPAGESIZE, s)))))"
proof -
  have fst: "unat (PGDIR_INDEX vaddr) = fst (pte_ptr vaddr)"
    by (simp add: pte_ptr_def)
  show ?thesis
    unfolding find_physpage_def Let_def fst table_for_def hit_or_miss_def touch_def frame_no_def
      PAGE_SHIFT_def
    by (cases "is_write type") (simp_all add: or.assoc cong: if_cong)
qed

lemma pgtbl_index_bound: "unat (PGTBL_INDEX v) < PTRS_PER_PGTBL"
proof -
  have "drop_bit PAGE_SHIFT v AND PGTBL_MASK \<le> 4095"
    unfolding PGTBL_MASK_def by (rule word_and_le1)
  then have u: "unat (drop_bit PAGE_SHIFT v AND PGTBL_MASK) \<le> 4095"
    by (simp add: word_le_nat_alt)
  then have "unat (PGTBL_INDEX v) = unat (drop_bit PAGE_SHIFT v AND PGTBL_MASK)"
    unfolding PGTBL_INDEX_def by (simp add: unsigned_ucast_eq take_bit_nat_eq_self)
  with u show ?thesis by (simp add: PTRS_PER_PGTBL_def)
qed

lemma is_pte_ptr:
  "fst (pte_ptr v) < PTRS_PER_PGDIR \<Longrightarrow> is_pte s (pte_ptr v) \<longleftrightarrow> pgdir s (fst (pte_ptr v))"
  using pgtbl_index_bound [of v] by (auto simp: is_pte_def pte_ptr_def)

context replacement
begin

lemma table_for_inv:
  assumes "sim_inv pinv s" and "fst (pte_ptr v) < PTRS_PER_PGDIR"
    and "table_for (fst (pte_ptr v)) s = Ok s'"
  shows "sim_inv pinv s' \<and> is_pte s' (pte_ptr v) \<and> coremap s' = coremap s"
proof (cases "pgdir s (fst (pte_ptr v))")
  case True
  then show ?thesis
    using assms is_pte_ptr [OF assms(2), of s'] by (simp add: table_for_def)
next
  case False
  then have i: "init_second_level (fst (pte_ptr v)) s = Ok s'"
    using assms(3) by (simp add: table_for_def)
  have "rep s {}" using assms(1) by (simp add: sim_inv_def mm_inv_def)
  note r = rep_init_second_level [OF this False assms(2) i]
  then show ?thesis
    using assms(1) is_pte_ptr [OF assms(2), of s']
    by (simp add: sim_inv_def mm_inv_def memsize_def mem_full_def)
qed

text \<open>After the hit or miss and the flag updates, the entry of \<open>vaddr\<close> is mapped.\<close>

lemma hit_or_miss_inv:
  assumes "sim_inv pinv s" and "is_pte s (pte_ptr v)"
    and "hit_or_miss evict v s = Ok s'"
    and "s'' = set_frame (pte_ptr v) (touch type (get_frame s' (pte_ptr v))) s'"
  shows "sim_inv pinv s'' \<and> memsize s'' = memsize s \<and>
    (\<exists>f. mapped s'' (pte_ptr v) f \<and>
       (\<not> valid (get_frame s (pte_ptr v)) \<longrightarrow> physmem s'' = init_frame f v (physmem s))) \<and>
    ref_count s'' = ref_count s \<and>
    hit_count s'' + miss_count s'' = Suc (hit_count s + miss_count s)"
proof (cases "valid (get_frame s (pte_ptr v))")
  case True
  let ?p = "pte_ptr v"
  have s': "s' = s\<lparr>hit_count := Suc (hit_count s)\<rparr>"
    using assms(3) True by (simp add: hit_or_miss_def)
  have inv: "rep s {}" using assms(1) by (simp add: sim_inv_def mm_inv_def)
  have g: "get_frame s' = get_frame s"
    by (rule ext) (simp add: s' get_frame_def)
  have r': "rep s' {}" "is_pte s' ?p"
    using rep_cong [of s' s "{}"] inv assms(2) is_pte_cong [of s' s] by (simp_all add: s')
  define f where "f = frame_no (get_frame s' ?p)"
  have m: "mapped s' ?p f"
    using True r'(2) g by (simp add: mapped_def f_def)
  have "rep s'' {}"
    unfolding assms(4) by (rule rep_set_frame [OF r'])
      (use repD(4) [OF r'(1), of ?p] m in \<open>auto simp: mapped_def\<close>)
  moreover have "mapped s'' ?p f"
    unfolding assms(4) mapped_set_frame [OF r'(2)] by (simp add: f_def)
  ultimately show ?thesis
    using assms(1) True by (auto simp: sim_inv_def mm_inv_def assms(4) s' memsize_def mem_full_def)
next
  case False
  let ?p = "pte_ptr v"
  let ?s = "s\<lparr>miss_count := Suc (miss_count s)\<rparr>"
  obtain f t where a: "allocate_frame evict ?p ?s = Ok (f, t)"
    and s': "s' = (set_frame ?p (push_bit PAGE_SHIFT (word_of_nat f)) t)
        \<lparr>physmem := init_frame f v (physmem t)\<rparr>"
    using assms(3) False by (auto simp: hit_or_miss_def page_miss_eq Let_def)
  have "sim_inv pinv ?s" "is_pte ?s ?p" "\<not> valid (get_frame ?s ?p)"
    using assms(1,2) False rep_cong [of ?s s "{}"]
    by (auto simp: sim_inv_def mm_inv_def memsize_def mem_full_def is_pte_def get_frame_def)
  note t = allocate_frame_claims [OF this a]
  have f20: "f < 2 ^ 20"
    using t repD(2) [of t "{f}"] by (auto simp: claimed_def)
  have c: "claimed s' ?p f"
    unfolding s' using t by (intro claimed_physmem claimed_invalid) auto
  have w: "get_frame s' ?p = push_bit PAGE_SHIFT (word_of_nat f)"
    unfolding s' by (simp add: get_frame_def set_frame_def mem_simps)
  note v = claimed_validate [OF c, of "touch type (get_frame s' ?p)"]
  have "mm_inv s''" "mapped s'' ?p f"
    using v f20 by (auto simp: assms(4) w frame_no_new)
  moreover have "memsize s'' = memsize s" "mem_full s'' = mem_full t" "pol s'' = pol t"
    "memsize t = memsize s" "physmem s'' = init_frame f v (physmem s)"
    using t by (auto simp: assms(4) s' memsize_def mem_full_def)
  ultimately show ?thesis
    using t False by (auto simp: sim_inv_def keeps_def assms(4) s')
qed

lemma find_physpage_safe:
  assumes "sim_inv pinv s" and "find_physpage evict ref v type s = Ok (addr, s')"
  shows "sim_inv pinv s' \<and> memsize s' = memsize s \<and>
    (\<exists>f < memsize s. mapped s' (pte_ptr v) f \<and> addr = f * SIMPAGESIZE) \<and>
    ref_count s' = Suc (ref_count s) \<and>
    hit_count s' + miss_count s' = Suc (hit_count s + miss_count s)"
proof -
  let ?p = "pte_ptr v"
  obtain s1 s2 where idx: "fst ?p < PTRS_PER_PGDIR" and s1: "table_for (fst ?p) s = Ok s1"
    and s2: "hit_or_miss evict v (s1\<lparr>ref_count := Suc (ref_count s1)\<rparr>) = Ok s2"
    and s3: "ref ?p (set_frame ?p (touch type (get_frame s2 ?p)) s2) = Ok s'"
    and addr: "addr = frame_no (get_frame s' ?p) * SIMPAGESIZE"
    using assms(2) unfolding find_physpage_eq by (auto split: if_splits)
  note i1 = table_for_inv [OF assms(1) idx s1]
  let ?s1 = "s1\<lparr>ref_count := Suc (ref_count s1)\<rparr>"
  let ?s2 = "set_frame ?p (touch type (get_frame s2 ?p)) s2"
  have "sim_inv pinv ?s1" "is_pte ?s1 ?p"
    using i1 rep_cong [of ?s1 s1 "{}"]
    by (auto simp: sim_inv_def mm_inv_def memsize_def mem_full_def is_pte_def)
  then obtain f where i2: "sim_inv pinv ?s2" "memsize ?s2 = memsize ?s1" "mapped ?s2 ?p f"
    "ref_count ?s2 = ref_count ?s1"
    "hit_count ?s2 + miss_count ?s2 = Suc (hit_count ?s1 + miss_count ?s1)"
    using hit_or_miss_inv [OF _ _ s2 refl] by blast
  then have i3: "only_ref_bits ?s2 s'" "pinv (memsize ?s2) (mem_full ?s2) (pol s')"
    using ref_law [OF _ i2(3) _ s3] by (auto simp: sim_inv_def)
  have inv: "sim_inv pinv s'"
    using i2(1) i3 only_ref_bits_rep [OF i3(1)] only_ref_bits_coremap [OF i3(1)]
    by (simp add: sim_inv_def mm_inv_def)
  have m: "mapped s' ?p f"
    using i2(3) only_ref_bits_mapped [OF i3(1)] by simp
  then have "f < memsize s'" "addr = f * SIMPAGESIZE"
    using inv repD(4) [of s' "{}" ?p f] addr by (auto simp: sim_inv_def mm_inv_def mapped_def)
  moreover have "hit_count s1 = hit_count s" "miss_count s1 = miss_count s" "ref_count s1 = ref_count s"
    using s1 by (auto simp: table_for_def init_second_level_def split: if_splits)
  moreover have "memsize s' = memsize s"
    using only_ref_bits_coremap [OF i3(1)] i2(2) i1 by (simp add: memsize_def)
  ultimately show ?thesis
    using inv m i2 i3(1) by (auto simp: only_ref_bits_def keeps_def)
qed

text \<open>A reference to a page that is not in memory leaves a new page in the frame.\<close>

lemma find_physpage_miss:
  assumes "sim_inv pinv s" and "find_physpage evict ref v type s = Ok (addr, s')"
    and "pgdir s (fst (pte_ptr v))" and "\<not> valid (get_frame s (pte_ptr v))"
  shows "\<exists>f. addr = f * SIMPAGESIZE \<and> physmem s' = init_frame f v (physmem s)"
proof -
  let ?p = "pte_ptr v"
  let ?s1 = "s\<lparr>ref_count := Suc (ref_count s)\<rparr>"
  obtain s2 where idx: "fst ?p < PTRS_PER_PGDIR" and s2: "hit_or_miss evict v ?s1 = Ok s2"
    and s3: "ref ?p (set_frame ?p (touch type (get_frame s2 ?p)) s2) = Ok s'"
    and addr: "addr = frame_no (get_frame s' ?p) * SIMPAGESIZE"
    using assms(2,3) unfolding find_physpage_eq by (auto simp: table_for_def split: if_splits)
  let ?s2 = "set_frame ?p (touch type (get_frame s2 ?p)) s2"
  have i1: "sim_inv pinv ?s1" "is_pte ?s1 ?p" "\<not> valid (get_frame ?s1 ?p)"
    using assms(1,3,4) rep_cong [of ?s1 s "{}"] is_pte_ptr [OF idx, of s]
    by (auto simp: sim_inv_def mm_inv_def memsize_def mem_full_def is_pte_def get_frame_def)
  obtain f where i2: "sim_inv pinv ?s2" "mapped ?s2 ?p f" "physmem ?s2 = init_frame f v (physmem ?s1)"
    using hit_or_miss_inv [OF i1(1,2) s2 refl] i1(3) by blast
  have o': "only_ref_bits ?s2 s'"
    using ref_law [OF _ i2(2) _ s3] i2(1) by (auto simp: sim_inv_def)
  then have "mapped s' ?p f" "physmem s' = init_frame f v (physmem s)"
    using only_ref_bits_mapped [OF o', of ?p f] i2(2,3) by (simp_all add: only_ref_bits_def)
  then show ?thesis using addr by (auto simp: mapped_def)
qed

end

subsection \<open>Every reference succeeds\<close>

context live_replacement
begin

lemma allocate_frame_total:
  assumes "sim_inv pinv s"
  shows "\<exists>f s'. allocate_frame evict p s = Ok (f, s')"
proof (cases "find_free_frame (coremap s) 0")
  case (Some g)
  then show ?thesis by (simp add: allocate_frame_def)
next
  case None
  then have full: "mem_full s"
    by (simp add: mem_full_def find_free_frame_None)
  have inv: "mm_inv s" "pinv (memsize s) True (pol s)"
    using assms full by (auto simp: sim_inv_def)
  then obtain f s1 where ev: "evict s = Ok (f, s1)"
    using evict_total full by fastforce
  have e: "f < memsize s" "only_ref_bits s s1"
    using evict_law [OF inv(1) full inv(2) ev] by auto
  have "rep s1 {}" "f < memsize s1" "in_use (coremap s1 ! f)"
    using only_ref_bits_rep [OF e(2)] only_ref_bits_coremap [OF e(2)] inv(1) e(1) full
    by (auto simp: mm_inv_def mem_full_iff)
  then obtain s2 where "evict_page f s1 = Ok s2"
    using evict_page_spec by blast
  then show ?thesis
    using None ev by (simp add: allocate_frame_def)
qed

lemma hit_or_miss_total:
  assumes "sim_inv pinv s"
  shows "\<exists>s'. hit_or_miss evict v s = Ok s'"
proof (cases "valid (get_frame s (pte_ptr v))")
  case False
  let ?s = "s\<lparr>miss_count := Suc (miss_count s)\<rparr>"
  have "sim_inv pinv ?s"
    using assms rep_cong [of ?s s "{}"]
    by (auto simp: sim_inv_def mm_inv_def memsize_def mem_full_def)
  then show ?thesis
    using allocate_frame_total [of ?s "pte_ptr v"] False
    by (auto simp: hit_or_miss_def page_miss_eq Let_def)
qed (simp add: hit_or_miss_def)

lemma find_physpage_total:
  assumes "sim_inv pinv s" and "fst (pte_ptr v) < PTRS_PER_PGDIR"
    and "pgdir s (fst (pte_ptr v)) \<or> 0 < tables_left s"
  shows "\<exists>r. find_physpage evict ref v type s = Ok r"
proof -
  let ?p = "pte_ptr v"
  obtain s1 where s1: "table_for (fst ?p) s = Ok s1"
    using assms(3) by (cases "pgdir s (fst ?p)") (auto simp: table_for_def init_second_level_def)
  let ?s1 = "s1\<lparr>ref_count := Suc (ref_count s1)\<rparr>"
  have i1: "sim_inv pinv ?s1" "is_pte ?s1 ?p"
    using table_for_inv [OF assms(1,2) s1] rep_cong [of ?s1 s1 "{}"]
    by (auto simp: sim_inv_def mm_inv_def memsize_def mem_full_def is_pte_def)
  obtain s2 where s2: "hit_or_miss evict v ?s1 = Ok s2"
    using hit_or_miss_total [OF i1(1)] by blast
  let ?s2 = "set_frame ?p (touch type (get_frame s2 ?p)) s2"
  obtain f where "sim_inv pinv ?s2" "mapped ?s2 ?p f"
    using hit_or_miss_inv [OF i1 s2 refl] by blast
  then obtain s3 where "ref ?p ?s2 = Ok s3"
    using ref_total [of ?s2 ?p f] by (auto simp: sim_inv_def)
  then show ?thesis
    using assms(2) s1 s2 by (simp add: find_physpage_eq not_le [symmetric])
qed

end

text \<open>Which addresses have a directory entry: those below \<open>2 ^ 36\<close>.\<close>

lemma pte_ptr_in_directory:
  assumes "v < 2 ^ 36"
  shows "fst (pte_ptr v) < PTRS_PER_PGDIR"
proof -
  have "unat v < 2 ^ 36"
    using assms by (simp add: word_less_nat_alt)
  then have "unat (drop_bit PGDIR_SHIFT v) < 4096"
    by (simp add: PGDIR_SHIFT_def drop_bit_eq_div unat_div)
  then show ?thesis
    by (simp add: pte_ptr_def PGDIR_INDEX_def PTRS_PER_PGDIR_def unsigned_ucast_eq
        take_bit_nat_eq_self)
qed

lemma init_frame_content:
  "rd32 (init_frame f v m) (f * SIMPAGESIZE) = 0" "rd64 (init_frame f v m) (f * SIMPAGESIZE + 4) = v"
proof -
  have "rd32 (init_frame f v m) (f * SIMPAGESIZE) = rd32 (\<lambda>_. 0) (f * SIMPAGESIZE)"
    by (rule rd32_cong) (auto simp: init_frame_def Let_def wr64_other blit_def SIMPAGESIZE_def)
  also have "\<dots> = 0"
  proof -
    have "rd 4 (\<lambda>_. 0) a = 0" for a by (simp add: numeral_eq_Suc)
    then show ?thesis by (simp add: rd32_def)
  qed
  finally show "rd32 (init_frame f v m) (f * SIMPAGESIZE) = 0" .
  show "rd64 (init_frame f v m) (f * SIMPAGESIZE + 4) = v"
    by (simp add: init_frame_def Let_def mem_simps)
qed

end
