(* ===== verification/Start.thy ===== *)
theory Start
  imports Paging
begin

section \<open>The first state of the simulator (Assignment2/sim.c)\<close>

text \<open>The data structures that \<open>main\<close> sets up, and that they meet the invariant.\<close>

text \<open>
  \<open>main\<close> before the replay: \<open>calloc\<close> clears the coremap, \<open>junk\<close> is what other fresh memory holds,
  \<open>tables\<close> is how many page tables the machine can give.
\<close>

definition sim_start :: "nat \<Rightarrow> nat \<Rightarrow> mem \<Rightarrow> swap_state \<Rightarrow> 'p \<Rightarrow> 'p sim" where
  "sim_start n tables junk sw q =
     init_pagetable \<lparr>pgdir = (\<lambda>_. False), pgtbl = (\<lambda>_. junk), tables_left = tables,
       fresh_mem = junk, coremap = replicate n \<lparr>in_use = False, cpte = None\<rparr>, physmem = junk,
       swap = sw, hit_count = 0, miss_count = 0, ref_count = 0, evict_clean_count = 0,
       evict_dirty_count = 0, pol = q\<rparr>"

subsection \<open>The invariant\<close>

lemma swap_init_ok:
  assumes "unat swapsize \<le> 2 ^ 27"
  obtains sw where "swap_init True True True room swapsize = Ok sw" and "swap_ok sw"
proof -
  have "unat swapsize \<le> 2 ^ 32 - 32" using assms by simp
  then obtain b where "bitmap_create True True swapsize = Ok (Some b)" "bitmap_ok b"
    "bcap b = unat swapsize"
    using bitmap_create_free by blast
  then show ?thesis
    using that assms by (simp add: swap_init_def swap_ok_def)
qed

lemma rep_sim_start:
  assumes "0 < n" and "n \<le> 2 ^ 20" and "swap_ok sw"
  shows "rep (sim_start n tables junk sw q) {}"
proof -
  have "\<not> is_pte (sim_start n tables junk sw q) p" for p
    by (simp add: is_pte_def sim_start_def init_pagetable_def)
  then show ?thesis
    using assms by (auto simp: rep_def mapped_def sim_start_def init_pagetable_def memsize_def)
qed

lemma sim_inv_sim_start:
  assumes "0 < n" and "n \<le> 2 ^ 20" and "swap_ok sw" and "pinv n False q"
  shows "sim_inv pinv (sim_start n tables junk sw q)"
  using rep_sim_start [OF assms(1-3), of tables junk q] assms(1,4)
  by (simp add: sim_inv_def mm_inv_def sim_start_def init_pagetable_def memsize_def mem_full_def)

text \<open>A swap device with no slot.\<close>

definition no_swap :: swap_state where
  "no_swap = \<lparr>swapmap = \<lparr>nbits = 0, bv = []\<rparr>, sfile = (\<lambda>_. 0), slen = 0, sroom = 0\<rparr>"

lemma swap_ok_no_swap: "swap_ok no_swap"
  by (simp add: swap_ok_def no_swap_def bitmap_ok_def bcap_def)

subsection \<open>A full memory of one frame\<close>

text \<open>The state after the first reference, to address 0, of a run with one frame.\<close>

definition one_page :: "'p \<Rightarrow> 'p sim" where
  "one_page q = snd (projr (find_physpage (\<lambda>s. Ok (0, s)) (\<lambda>p s. Ok s) 0 CHR ''I''
     (sim_start 1 4096 (\<lambda>_. 0) no_swap q)))"

lemma one_page:
  "mm_inv (one_page q)" "mem_full (one_page q)" "memsize (one_page q) = 1" "pol (one_page q) = q"
  "mapped (one_page q) (0, 1) 0" "cpte (coremap (one_page q) ! 0) = Some (0, 1)"
proof -
  let ?s = "sim_start 1 4096 (\<lambda>_. 0) no_swap q" and ?P = "\<lambda>n full r. r = q"
  have l: "live_replacement (\<lambda>s. Ok (0, s)) (\<lambda>p s. Ok s) ?P"
    by unfold_locales (use repD(1) in \<open>auto simp: mm_inv_def\<close>)
  then have r: "replacement (\<lambda>s. Ok (0, s)) (\<lambda>p s. Ok s) ?P"
    by (simp add: live_replacement_def)
  have s: "sim_inv ?P ?s"
    by (rule sim_inv_sim_start) (simp_all add: swap_ok_no_swap)
  have p: "pte_ptr 0 = (0, 1)"
    by (simp add: pte_ptr_def PGDIR_INDEX_def PGTBL_INDEX_def PDE_TAG_def)
  have "\<exists>r. find_physpage (\<lambda>s. Ok (0, s)) (\<lambda>p s. Ok s) 0 CHR ''I'' ?s = Ok r"
    by (rule live_replacement.find_physpage_total [OF l s])
      (simp_all add: p PTRS_PER_PGDIR_def sim_start_def init_pagetable_def)
  then obtain addr where f: "find_physpage (\<lambda>s. Ok (0, s)) (\<lambda>p s. Ok s) 0 CHR ''I'' ?s = Ok (addr, one_page q)"
    by (auto simp: one_page_def)
  have n: "memsize ?s = 1"
    by (simp add: sim_start_def init_pagetable_def memsize_def)
  note safe = replacement.find_physpage_safe [OF r s f, unfolded n p]
  show "mm_inv (one_page q)" "memsize (one_page q) = 1" "pol (one_page q) = q"
    "mapped (one_page q) (0, 1) 0"
    using safe by (auto simp: sim_inv_def)
  then show "mem_full (one_page q)" "cpte (coremap (one_page q) ! 0) = Some (0, 1)"
    using repD(4) [of "one_page q" "{}" "(0, 1)" 0] by (auto simp: mm_inv_def mem_full_iff)
qed

end
