(* ===== verification/Fifo.thy ===== *)
theory Fifo
  imports Start
begin

section \<open>FIFO replacement (Assignment2/fifo.c)\<close>

text \<open>
  The algorithm's state is \<open>coremap->index\<close>, the frame to evict next.  Read from the hand on, the
  frames are the queue of loaded pages, oldest first: eviction takes the head of the queue and the
  page loaded into that frame joins its end.
\<close>

subsection \<open>Operations\<close>

text \<open>\<open>coremap->index++\<close> and its wrap at \<open>memsize\<close>, the same lines in \<open>fifo.c\<close> and \<open>clock.c\<close>.\<close>

definition advance_index :: "nat sim \<Rightarrow> nat sim" where
  "advance_index s =
     (let s = s\<lparr>pol := Suc (pol s)\<rparr> in if pol s \<ge> memsize s then s\<lparr>pol := 0\<rparr> else s)"

definition fifo_evict :: "nat sim \<Rightarrow> (nat \<times> nat sim) res" where
  "fifo_evict s = (let evict = pol s in Ok (evict, advance_index s))"

definition fifo_ref :: "pteref \<Rightarrow> nat sim \<Rightarrow> nat sim res" where
  "fifo_ref p s = Ok s"

definition fifo_init :: "nat sim \<Rightarrow> nat sim res" where
  "fifo_init s = Ok (s\<lparr>pol := 0\<rparr>)"

subsection \<open>The contract\<close>

lemma advance_index_eq:
  assumes "pol s < memsize s"
  shows "advance_index s = s\<lparr>pol := Suc (pol s) mod memsize s\<rparr>"
  using assms by (auto simp: advance_index_def Let_def memsize_def le_Suc_eq)

lemma mod_memsize_less: "mm_inv s \<Longrightarrow> k mod memsize s < memsize s"
  using repD(1) [of s "{}"] by (simp add: mm_inv_def)

definition index_ok :: "nat \<Rightarrow> bool \<Rightarrow> nat \<Rightarrow> bool" where
  "index_ok n full i \<longleftrightarrow> i < n"

interpretation fifo: live_replacement fifo_evict fifo_ref index_ok
proof
  fix s s' :: "nat sim" and f
  assume s: "mm_inv s" "index_ok (memsize s) True (pol s)" "fifo_evict s = Ok (f, s')"
  have i: "pol s < memsize s"
    using s(2) by (simp add: index_ok_def)
  show "f < memsize s \<and> only_ref_bits s s' \<and> index_ok (memsize s) True (pol s')"
    using s(3) i mod_memsize_less [OF s(1), of "Suc (pol s)"]
    by (auto simp: fifo_evict_def Let_def advance_index_eq index_ok_def)
qed (auto simp: fifo_evict_def fifo_ref_def index_ok_def Let_def)

subsection \<open>The queue of loaded pages\<close>

definition load_queue :: "'p sim \<Rightarrow> nat \<Rightarrow> nat list" where
  "load_queue s i = rotate i [0..<memsize s]"

lemma hd_load_queue: "i < memsize s \<Longrightarrow> hd (load_queue s i) = i"
  by (simp add: load_queue_def hd_rotate_conv_nth)

lemma load_queue_advance:
  assumes "i < memsize s"
  shows "load_queue s (Suc i mod memsize s) = tl (load_queue s i) @ [hd (load_queue s i)]"
proof -
  have ne: "load_queue s i \<noteq> []"
    using assms by (auto simp: load_queue_def)
  have "load_queue s (Suc i mod memsize s) = rotate1 (load_queue s i)"
    using rotate_conv_mod [of "Suc i" "[0..<memsize s]"] by (simp add: load_queue_def)
  then show ?thesis
    using ne by (cases "load_queue s i") auto
qed

text \<open>
  FIFO is first in, first out: the victim is the head of the queue of loaded pages, and the
  frame, which the new page gets, moves to the end of the queue.
\<close>

lemma fifo_is_a_queue:
  assumes "pol s < memsize s"
  shows "\<exists>s'. fifo_evict s = Ok (hd (load_queue s (pol s)), s') \<and>
    load_queue s' (pol s') = tl (load_queue s (pol s)) @ [hd (load_queue s (pol s))] \<and>
    pol s' < memsize s'"
proof (intro exI conjI)
  have pos: "0 < memsize s" using assms by linarith
  show "fifo_evict s = Ok (hd (load_queue s (pol s)), s\<lparr>pol := Suc (pol s) mod memsize s\<rparr>)"
    using assms by (simp add: fifo_evict_def Let_def hd_load_queue advance_index_eq)
  show "load_queue (s\<lparr>pol := Suc (pol s) mod memsize s\<rparr>) (pol (s\<lparr>pol := Suc (pol s) mod memsize s\<rparr>)) =
      tl (load_queue s (pol s)) @ [hd (load_queue s (pol s))]"
    using load_queue_advance [OF assms] by (simp add: load_queue_def memsize_def)
  show "pol (s\<lparr>pol := Suc (pol s) mod memsize s\<rparr>) < memsize (s\<lparr>pol := Suc (pol s) mod memsize s\<rparr>)"
    using mod_less_divisor [OF pos, of "Suc (pol s)"] by (simp add: memsize_def)
qed

end
