(* ===== verification/Clock.thy ===== *)
theory Clock
  imports Fifo
begin

section \<open>Clock replacement (Assignment2/clock.c)\<close>

text \<open>
  \<open>clock_evict\<close> calls itself after it has cleared a reference bit, and each level advances the
  hand once more on the way out.  It returns because every call clears the bit of an entry that
  had it set.  The victim is the first frame from the hand on whose bit is clear, the bits of the
  frames before it are cleared, and the hand ends \<open>2 * d + 1\<close> frames on when \<open>d\<close> frames are passed.
\<close>

subsection \<open>Operations\<close>

text \<open>The entries that have the reference bit set, of those that the coremap points to.\<close>

definition refd_entries :: "'p sim \<Rightarrow> pteref set" where
  "refd_entries s = {p. \<exists>c \<in> set (coremap s). cpte c = Some p \<and> refd (get_frame s p)}"

lemma finite_refd_entries [simp]: "finite (refd_entries s)"
proof (rule finite_subset)
  show "refd_entries s \<subseteq> (\<lambda>c. the (cpte c)) ` set (coremap s)"
    unfolding refd_entries_def by (force simp: image_iff)
qed simp

definition clear_ref :: "pteref \<Rightarrow> 'p sim \<Rightarrow> 'p sim" where
  "clear_ref p s = set_frame p (get_frame s p AND NOT PG_REF) s"

lemma refd_low_byte: "refd (get_frame s q) \<longleftrightarrow> bit (pgtbl s (fst q) (snd q)) 2"
  using bit_rd32 [of 0 2 "pgtbl s (fst q)" "snd q"] 
  by (simp add: refd_def get_frame_def del: add_2_eq_Suc add_2_eq_Suc')

text \<open>Clearing one entry's bit sets no other's, even where two entries overlap.\<close>

lemma refd_clear_ref: "refd (get_frame (clear_ref p s) q) \<Longrightarrow> refd (get_frame s q)"
  unfolding refd_low_byte clear_ref_def set_frame_def
  by (auto simp: get_frame_def split: if_splits elim!: wr32_fewer_bits [rotated])
    (simp add: bit_clear_flag)

lemma refd_entries_clear_ref:
  assumes "c \<in> set (coremap s)" and "cpte c = Some p" and "refd (get_frame s p)"
  shows "card (refd_entries (clear_ref p s)) < card (refd_entries s)"
proof (rule psubset_card_mono)
  have "p \<in> refd_entries s" "p \<notin> refd_entries (clear_ref p s)"
    using assms by (auto simp: refd_entries_def clear_ref_def)
  moreover have "refd_entries (clear_ref p s) \<subseteq> refd_entries s"
    using refd_clear_ref [of p s] by (auto simp: refd_entries_def clear_ref_def)
  ultimately show "refd_entries (clear_ref p s) \<subset> refd_entries s" by blast
qed simp

lemma advance_index_fields [simp]:
  "pgtbl (advance_index s) = pgtbl s" "coremap (advance_index s) = coremap s"
  "pgdir (advance_index s) = pgdir s"
  by (simp_all add: advance_index_def Let_def)

lemma refd_entries_advance [simp]: "refd_entries (advance_index s) = refd_entries s"
  by (simp add: refd_entries_def get_frame_def)

function clock_evict :: "nat sim \<Rightarrow> (nat \<times> nat sim) res" where
  "clock_evict s =
     (let evict = pol s in
      if evict \<ge> memsize s then Err Out_of_bounds
      else case cpte (coremap s ! evict) of
        None \<Rightarrow> Err Null_deref
      | Some p \<Rightarrow>
          res_bind
            (if get_frame s p AND PG_REF \<noteq> 0 then clock_evict (advance_index (clear_ref p s))
             else Ok (evict, s))
            (\<lambda>(evict, s). Ok (evict, advance_index s)))"
  by pat_completeness auto
termination
  by (relation "measure (\<lambda>s. card (refd_entries s))")
    (auto intro!: refd_entries_clear_ref nth_mem simp: memsize_def)

declare clock_evict.simps [simp del]

definition clock_ref :: "pteref \<Rightarrow> nat sim \<Rightarrow> nat sim res" where
  "clock_ref p s =
     (if pol s \<ge> memsize s then Err Out_of_bounds
      else case cpte (coremap s ! pol s) of
        None \<Rightarrow> Err Null_deref
      | Some q \<Rightarrow> Ok (set_frame q (get_frame s q OR PG_REF) s))"

definition clock_init :: "nat sim \<Rightarrow> nat sim res" where
  "clock_init s = Ok (s\<lparr>pol := 0\<rparr>)"

subsection \<open>Which frame the hand picks\<close>

definition refd_at :: "'p sim \<Rightarrow> nat \<Rightarrow> bool" where
  "refd_at s i \<longleftrightarrow> (\<exists>p. cpte (coremap s ! i) = Some p \<and> refd (get_frame s p))"

lemma full_entry:
  assumes "rep s {}" and "mem_full s" and "i < memsize s"
  obtains p where "cpte (coremap s ! i) = Some p" and "mapped s p i" and "is_pte s p"
proof -
  have "in_use (coremap s ! i)"
    using assms(2,3) by (simp add: mem_full_iff)
  then show ?thesis
    using that repD(4) [OF assms(1), of _ i] repD(5) [OF assms(1), of i] assms(3) by blast
qed

lemma mapped_inj: "mapped s p i \<Longrightarrow> mapped s p j \<Longrightarrow> i = j"
  by (simp add: mapped_def)

lemma only_ref_bits_clear: "is_pte s p \<Longrightarrow> only_ref_bits s (clear_ref p s)"
  by (simp add: clear_ref_def only_ref_bits_set_ref)

lemma only_ref_bits_advance: "only_ref_bits s (advance_index s)"
  by (auto simp: advance_index_def Let_def only_ref_bits_def keeps_def get_frame_def get_swap_def)

lemma refd_at_advance [simp]: "refd_at (advance_index s) i = refd_at s i"
  by (simp add: refd_at_def get_frame_def)

lemma refd_at_clear:
  assumes "rep s {}" and "mem_full s" and "mapped s p i" and "j < memsize s"
  shows "refd_at (clear_ref p s) j \<longleftrightarrow> refd_at s j \<and> j \<noteq> i"
proof -
  obtain q where q: "cpte (coremap s ! j) = Some q" "mapped s q j" "is_pte s q"
    using full_entry assms by blast
  have "p = q \<longleftrightarrow> i = j"
    using mapped_inj assms(3) q repD(4) [OF assms(1), of p i] by (auto simp: mapped_def)
  moreover have "is_pte s p"
    using assms(3) by (simp add: mapped_def)
  ultimately show ?thesis
    using q get_set_frame_other [of s p q] by (auto simp: refd_at_def clear_ref_def)
qed

lemma mod_shift_self:
  assumes "k < n"
  shows "(c + k) mod n = c mod n \<longleftrightarrow> k = (0::nat)"
  using assms by (metis add.right_neutral add_diff_cancel_left' mod_eq_dvd_iff_nat
      le_add1 dvd_imp_le not_less neq0_conv)

text \<open>\<open>d\<close> frames are passed: all of them are referenced, and the next is not, unless all are.\<close>

definition hand_result :: "nat sim \<Rightarrow> nat \<Rightarrow> nat \<Rightarrow> nat sim \<Rightarrow> bool" where
  "hand_result s d f s' \<longleftrightarrow> (let c = pol s; n = memsize s in
     d \<le> n \<and> f = (c + d) mod n \<and> (\<forall>k < d. refd_at s ((c + k) mod n)) \<and>
     (d < n \<longrightarrow> \<not> refd_at s f) \<and> pol s' = (c + 2 * d + 1) mod n \<and>
     (\<forall>i < n. refd_at s' i \<longleftrightarrow> refd_at s i \<and> (\<forall>k < d. i \<noteq> (c + k) mod n)))"

lemma hand_result_step:
  assumes s: "rep s {}" "mem_full s" "pol s < memsize s" "mapped s p (pol s)" "refd_at s (pol s)"
    and r: "hand_result (advance_index (clear_ref p s)) d f s'"
    and n: "memsize s' = memsize s" and hand: "pol s' < memsize s"
  shows "hand_result s (Suc d) f (advance_index s')"
proof -
  let ?n = "memsize s" and ?c = "pol s" and ?t = "advance_index (clear_ref p s)"
  have t: "memsize ?t = ?n" "pol ?t = Suc ?c mod ?n"
    using s(3) by (simp_all add: advance_index_eq clear_ref_def memsize_def)
  have pos: "(Suc ?c mod ?n + k) mod ?n = (?c + Suc k) mod ?n" for k
    by (simp add: mod_simps)
  have clear: "refd_at ?t i \<longleftrightarrow> refd_at s i \<and> i \<noteq> ?c" if "i < ?n" for i
    using refd_at_clear [OF s(1,2,4) that] by simp
  have lt: "(?c + k) mod ?n < ?n" for k
    using s(3) by simp
  note r' = r [unfolded hand_result_def Let_def t pos]
  have skip: "refd_at s ((?c + Suc k) mod ?n) \<and> (?c + Suc k) mod ?n \<noteq> ?c" if "k < d" for k
    using r' that clear [OF lt [of "Suc k"]] by blast
  have d: "d < ?n"
  proof (rule ccontr)
    assume "\<not> d < ?n"
    then have "?n - 1 < d" using s(3) by simp
    from skip [OF this] s(3) show False by simp
  qed
  have "refd_at s ((?c + k) mod ?n)" if "k < Suc d" for k
    using that skip s(3,5) by (cases k) auto
  moreover have "\<not> refd_at s f" if "Suc d < ?n"
  proof -
    have "f \<noteq> ?c" "f < ?n" "\<not> refd_at ?t f"
      using r' d mod_shift_self [OF that, of ?c] s(3) lt [of "Suc d"] by auto
    then show ?thesis using clear by blast
  qed
  moreover have "pol (advance_index s') = (?c + 2 * Suc d + 1) mod ?n"
  proof -
    have "pol s' = (Suc ?c mod ?n + 2 * d + 1) mod ?n"
      using r' by blast
    moreover have "(Suc ?c mod ?n + (2 * d + 2)) mod ?n = (Suc ?c + (2 * d + 2)) mod ?n"
      by (rule mod_add_left_eq)
    ultimately show ?thesis
      using advance_index_eq [of s'] hand n by (simp add: mod_simps)
  qed
  moreover have "refd_at (advance_index s') i \<longleftrightarrow>
      refd_at s i \<and> (\<forall>k < Suc d. i \<noteq> (?c + k) mod ?n)" if "i < ?n" for i
  proof -
    have "(\<forall>k < Suc d. i \<noteq> (?c + k) mod ?n) \<longleftrightarrow>
        i \<noteq> ?c \<and> (\<forall>k < d. i \<noteq> (?c + Suc k) mod ?n)"
      using s(3) by (auto simp: All_less_Suc2)
    then show ?thesis
      using r' clear [OF that] that by auto
  qed
  moreover have "f = (?c + Suc d) mod ?n"
    using r' by blast
  ultimately show ?thesis
    using d unfolding hand_result_def Let_def by simp
qed

lemma clock_evict_spec:
  "rep s {} \<Longrightarrow> mem_full s \<Longrightarrow> pol s < memsize s \<Longrightarrow>
    \<exists>d f s'. clock_evict s = Ok (f, s') \<and> hand_result s d f s' \<and> only_ref_bits s s'"
proof (induction s rule: clock_evict.induct)
  case (1 s)
  obtain p where p: "cpte (coremap s ! pol s) = Some p" "mapped s p (pol s)" "is_pte s p"
    using full_entry 1 by blast
  show ?case
  proof (cases "refd (get_frame s p)")
    case False
    then have "\<not> refd_at s (pol s)" using p by (simp add: refd_at_def)
    then have "hand_result s 0 (pol s) (advance_index s)"
      using 1(4) by (simp add: hand_result_def Let_def) (simp add: advance_index_eq)
    moreover have "clock_evict s = Ok (pol s, advance_index s)"
      using p False 1 by (subst clock_evict.simps) simp
    ultimately show ?thesis
      using only_ref_bits_advance by blast
  next
    case True
    let ?t = "advance_index (clear_ref p s)"
    have t: "only_ref_bits s ?t"
      using only_ref_bits_trans only_ref_bits_clear [OF p(3)] only_ref_bits_advance by blast
    have "pol ?t = Suc (pol s) mod memsize s" "0 < memsize s"
      using 1(4) by (auto simp: advance_index_eq clear_ref_def memsize_def)
    then have tm: "memsize ?t = memsize s" "mem_full ?t" "pol ?t < memsize s"
      using only_ref_bits_coremap [OF t] 1(3) by auto
    obtain d f s' where r: "clock_evict ?t = Ok (f, s')" "hand_result ?t d f s'"
      "only_ref_bits ?t s'"
      using 1(1) [OF refl _ p(1)] True only_ref_bits_rep [OF t 1(2)] tm 1(4) by auto
    have s': "memsize s' = memsize s" "pol s' < memsize s"
      using only_ref_bits_coremap [OF r(3)] tm r(2) 1(4)
      by (auto simp: hand_result_def Let_def)
    have "hand_result s (Suc d) f (advance_index s')"
      using hand_result_step [OF 1(2-4) p(2) _ r(2) s'] p True by (simp add: refd_at_def)
    moreover have "clock_evict s = Ok (f, advance_index s')"
      using p True 1(4) r(1) by (subst clock_evict.simps) simp
    moreover have "only_ref_bits s (advance_index s')"
      using only_ref_bits_trans t r(3) only_ref_bits_advance by blast
    ultimately show ?thesis by blast
  qed
qed

subsection \<open>The contract\<close>

definition hand_ok :: "nat \<Rightarrow> bool \<Rightarrow> nat \<Rightarrow> bool" where
  "hand_ok n full c \<longleftrightarrow> c < n \<and> (full \<or> c = 0)"

text \<open>With memory not full the hand is at frame 0, which is in use once any entry is mapped.\<close>

lemma hand_entry:
  assumes "mm_inv s" and "mapped s p g" and "hand_ok (memsize s) (mem_full s) (pol s)"
  obtains q where "cpte (coremap s ! pol s) = Some q" and "is_pte s q"
proof -
  have "in_use (coremap s ! pol s)"
  proof (cases "mem_full s")
    case True
    then show ?thesis using assms(3) by (simp add: hand_ok_def mem_full_iff)
  next
    case False
    then have "pol s = 0" using assms(3) by (simp add: hand_ok_def)
    moreover have "g < memsize s" "in_use (coremap s ! g)"
      using assms(1,2) repD(4) [of s "{}"] by (auto simp: mm_inv_def)
    ultimately show ?thesis
      using assms(1) by (cases g) (auto simp: mm_inv_def rep_def)
  qed
  then show ?thesis
    using that repD(5) [of s "{}" "pol s"] assms(1,3) by (auto simp: mm_inv_def hand_ok_def)
qed

interpretation clock: live_replacement clock_evict clock_ref hand_ok
proof
  fix s s' :: "nat sim" and f
  assume s: "mm_inv s" "mem_full s" "hand_ok (memsize s) True (pol s)"
    and e: "clock_evict s = Ok (f, s')"
  obtain d where "hand_result s d f s'" "only_ref_bits s s'"
    using clock_evict_spec [of s] s e by (auto simp: mm_inv_def hand_ok_def)
  then show "f < memsize s \<and> only_ref_bits s s' \<and> hand_ok (memsize s) True (pol s')"
    using s by (auto simp: hand_result_def Let_def hand_ok_def)
next
  fix s :: "nat sim"
  assume "mm_inv s" "mem_full s" "hand_ok (memsize s) True (pol s)"
  then show "\<exists>r. clock_evict s = Ok r"
    using clock_evict_spec [of s] by (auto simp: mm_inv_def hand_ok_def)
next
  fix s s' :: "nat sim" and p g
  assume s: "mm_inv s" "mapped s p g" "hand_ok (memsize s) (mem_full s) (pol s)"
    and r: "clock_ref p s = Ok s'"
  obtain q where "cpte (coremap s ! pol s) = Some q" "is_pte s q"
    using hand_entry s by blast
  then show "only_ref_bits s s' \<and> hand_ok (memsize s) (mem_full s) (pol s')"
    using r s(3) by (auto simp: clock_ref_def only_ref_bits_set_ref split: if_splits)
next
  fix s :: "nat sim" and p g
  assume s: "mm_inv s" "mapped s p g" "hand_ok (memsize s) (mem_full s) (pol s)"
  obtain q where "cpte (coremap s ! pol s) = Some q"
    using hand_entry s by blast
  then show "\<exists>s'. clock_ref p s = Ok s'"
    using s(3) by (simp add: clock_ref_def hand_ok_def)
qed (auto simp: hand_ok_def)

text \<open>
  C23. \<open>clock_evict\<close> returns, with memory full, and gives the pages from the hand on a second chance:
  it passes \<open>d\<close> referenced frames, clears exactly their reference bits, and evicts the next frame,
  which is not referenced (or is the first one again, when all were).  The hand ends
  \<open>2 * d + 1\<close> frames on, not \<open>d + 1\<close>, so \<open>d\<close> frames lose their turn.
\<close>

theorem clock_second_chance:
  assumes "mm_inv s" and "mem_full s" and "pol s < memsize s"
  shows "\<exists>d f s'. clock_evict s = Ok (f, s') \<and> only_ref_bits s s' \<and> d \<le> memsize s \<and>
    f = (pol s + d) mod memsize s \<and> pol s' = (pol s + 2 * d + 1) mod memsize s \<and>
    (\<forall>k < d. refd_at s ((pol s + k) mod memsize s)) \<and> (d < memsize s \<longrightarrow> \<not> refd_at s f) \<and>
    (\<forall>i < memsize s. refd_at s' i \<longleftrightarrow>
       refd_at s i \<and> (\<forall>k < d. i \<noteq> (pol s + k) mod memsize s))"
  using clock_evict_spec [of s] assms unfolding mm_inv_def hand_result_def Let_def by blast

theorem clock_second_chance_witness:
  "\<exists>f s'. clock_evict (one_page 0) = Ok (f, s') \<and> only_ref_bits (one_page 0) s' \<and> f = 0"
  using clock_second_chance [OF one_page(1,2), of 0] by (auto simp: one_page)

text \<open>
  \<open>clock_ref\<close> sets the reference bit of the page under the hand, whatever entry it is called
  with: after every reference the frame under the hand counts as referenced, so the next
  eviction passes it over.
\<close>

lemma clock_hand_always_referenced:
  assumes "find_physpage clock_evict clock_ref v type s = Ok (addr, s')"
  shows "refd_at s' (pol s')"
proof -
  obtain t where "clock_ref (pte_ptr v) t = Ok s'"
    using assms unfolding find_physpage_eq by (auto split: if_splits)
  then obtain q where "cpte (coremap t ! pol t) = Some q"
    "s' = set_frame q (get_frame t q OR PG_REF) t"
    by (auto simp: clock_ref_def split: if_splits option.splits)
  then show ?thesis by (simp add: refd_at_def)
qed

end
