(* ===== verification/RandPol.thy ===== *)
theory RandPol
  imports Start
begin

section \<open>Random replacement (Assignment2/rand.c)\<close>

text \<open>
  The algorithm's state is the generator behind \<open>random()\<close>: the numbers it will return and how
  many of them have been used.  The contract holds for every such stream.
\<close>

record random_state =
  random_stream :: "nat \<Rightarrow> nat"
  random_pos :: nat

definition rand_evict :: "random_state sim \<Rightarrow> (nat \<times> random_state sim) res" where
  "rand_evict s =
     (let r = random_stream (pol s) (random_pos (pol s));
          s = s\<lparr>pol := (pol s)\<lparr>random_pos := Suc (random_pos (pol s))\<rparr>\<rparr> in
      if memsize s = 0 then Err Division_by_zero
      else let idx = r mod memsize s in Ok (idx, s))"

definition rand_ref :: "pteref \<Rightarrow> random_state sim \<Rightarrow> random_state sim res" where
  "rand_ref p s = Ok s"

definition rand_init :: "random_state sim \<Rightarrow> random_state sim res" where
  "rand_init s = Ok s"

definition any_stream :: "nat \<Rightarrow> bool \<Rightarrow> random_state \<Rightarrow> bool" where
  "any_stream n full q \<longleftrightarrow> True"

interpretation rand: live_replacement rand_evict rand_ref any_stream
proof
  fix s s' :: "random_state sim" and f
  assume "mm_inv s" "rand_evict s = Ok (f, s')"
  then show "f < memsize s \<and> only_ref_bits s s' \<and> any_stream (memsize s) True (pol s')"
    using repD(1) [of s "{}"]
    by (auto simp: rand_evict_def mm_inv_def any_stream_def Let_def memsize_def)
next
  fix s :: "random_state sim"
  assume "mm_inv s"
  then show "\<exists>r. rand_evict s = Ok r"
    using repD(1) [of s "{}"] by (auto simp: rand_evict_def mm_inv_def memsize_def Let_def)
qed (auto simp: rand_ref_def any_stream_def)

end
