(* ===== verification/Lru.thy ===== *)
theory Lru
  imports Start
begin

section \<open>LRU replacement (Assignment2/lru.c)\<close>

text \<open>
  The algorithm keeps a doubly linked list of nodes on the C heap, most recently used frame
  first.  The heap is a partial map from addresses to nodes: a freed block is outside its domain
  and an access to it is the fault \<open>Use_after_free\<close>.  \<open>malloc\<close> is a parameter of the state, any
  function that returns a block not in use, or null.  The two loops over the list follow \<open>nxt\<close>
  pointers and need not end, so they are partial functions, and a loop that does not end is the
  fault \<open>Diverges\<close>.
\<close>

subsection \<open>Nodes and the loops over them\<close>

record lnode =
  pre :: "nat option"
  nxt :: "nat option"
  nd_index :: nat

type_synonym lheap = "nat \<Rightarrow> lnode option"

record lru_state =
  lheap :: lheap
  lhead :: "nat option"
  lmalloc :: "lheap \<Rightarrow> nat option"

definition set_nxt :: "nat \<Rightarrow> nat option \<Rightarrow> lheap \<Rightarrow> lheap res" where
  "set_nxt a v h = (case h a of None \<Rightarrow> Err Use_after_free | Some nd \<Rightarrow> Ok (h(a \<mapsto> nd\<lparr>nxt := v\<rparr>)))"

definition set_pre :: "nat \<Rightarrow> nat option \<Rightarrow> lheap \<Rightarrow> lheap res" where
  "set_pre a v h = (case h a of None \<Rightarrow> Err Use_after_free | Some nd \<Rightarrow> Ok (h(a \<mapsto> nd\<lparr>pre := v\<rparr>)))"

text \<open>\<open>while (last->nxt) last = last->nxt;\<close>\<close>

partial_function (option) lru_last :: "lheap \<Rightarrow> nat \<Rightarrow> nat res option" where
  "lru_last h a =
     (case h a of
        None \<Rightarrow> Some (Err Use_after_free)
      | Some nd \<Rightarrow> (case nxt nd of None \<Rightarrow> Some (Ok a) | Some b \<Rightarrow> lru_last h b))"

text \<open>The search loop of \<open>lru_ref\<close>: the first node with index \<open>i\<close>.\<close>

partial_function (option) lru_find ::
  "lheap \<Rightarrow> nat \<Rightarrow> nat option \<Rightarrow> nat option res option" where
  "lru_find h i cur =
     (case cur of
        None \<Rightarrow> Some (Ok None)
      | Some a \<Rightarrow>
          (case h a of
             None \<Rightarrow> Some (Err Use_after_free)
           | Some nd \<Rightarrow> if nd_index nd = i then Some (Ok (Some a)) else lru_find h i (nxt nd)))"

declare lru_last.simps [code] lru_find.simps [code]

definition loop_res :: "'a res option \<Rightarrow> 'a res" where
  "loop_res r = (case r of None \<Rightarrow> Err Diverges | Some x \<Rightarrow> x)"

subsection \<open>Operations\<close>

definition lru_evict :: "lru_state sim \<Rightarrow> (nat \<times> lru_state sim) res" where
  "lru_evict s =
     (let q = pol s in
      case lhead q of
        None \<Rightarrow> Err Null_deref
      | Some a \<Rightarrow>
          res_bind (loop_res (lru_last (lheap q) a)) (\<lambda>last.
          case lheap q last of
            None \<Rightarrow> Err Use_after_free
          | Some nd \<Rightarrow>
              let h = (lheap q)(last := None) in
              res_bind (case pre nd of None \<Rightarrow> Ok h | Some b \<Rightarrow> set_nxt b None h) (\<lambda>h.
                Ok (nd_index nd, s\<lparr>pol := q\<lparr>lheap := h\<rparr>\<rparr>))))"

text \<open>Unlinking and freeing the node found by the search.\<close>

definition lru_unlink :: "nat \<Rightarrow> lheap \<Rightarrow> lheap res" where
  "lru_unlink a h =
     (case h a of
        None \<Rightarrow> Err Use_after_free
      | Some nd \<Rightarrow>
          res_bind (case pre nd of None \<Rightarrow> Ok h | Some b \<Rightarrow> set_nxt b (nxt nd) h) (\<lambda>h.
          res_bind (case nxt nd of None \<Rightarrow> Ok h | Some c \<Rightarrow> set_pre c (pre nd) h) (\<lambda>h.
            Ok (h(a := None)))))"

text \<open>The new head node.\<close>

definition lru_push :: "nat \<Rightarrow> lru_state \<Rightarrow> lru_state res" where
  "lru_push i q =
     (case lmalloc q (lheap q) of
        None \<Rightarrow> Err Null_deref
      | Some a \<Rightarrow>
          let h = (lheap q)(a \<mapsto> \<lparr>pre = None, nxt = lhead q, nd_index = i\<rparr>) in
          res_bind (case lhead q of None \<Rightarrow> Ok h | Some b \<Rightarrow> set_pre b (Some a) h) (\<lambda>h.
            Ok (q\<lparr>lheap := h, lhead := Some a\<rparr>)))"

definition lru_ref :: "pteref \<Rightarrow> lru_state sim \<Rightarrow> lru_state sim res" where
  "lru_ref p s =
     (let q = pol s; i = unat (drop_bit PAGE_SHIFT (get_frame s p)) in
      res_bind (loop_res (lru_find (lheap q) i (lhead q))) (\<lambda>found.
      res_bind (case found of None \<Rightarrow> Ok (lheap q) | Some a \<Rightarrow> lru_unlink a (lheap q)) (\<lambda>h.
      res_bind (lru_push i (q\<lparr>lheap := h\<rparr>)) (\<lambda>q.
        Ok (s\<lparr>pol := q\<rparr>)))))"

definition lru_init :: "lru_state sim \<Rightarrow> lru_state sim res" where
  "lru_init s = Ok (s\<lparr>pol := (pol s)\<lparr>lhead := None\<rparr>\<rparr>)"

subsection \<open>The contract\<close>

definition nodes_ok :: "nat \<Rightarrow> bool \<Rightarrow> lru_state \<Rightarrow> bool" where
  "nodes_ok n full q \<longleftrightarrow> (\<forall>a nd. lheap q a = Some nd \<longrightarrow> nd_index nd < n)"

definition heap_indices_ok :: "nat \<Rightarrow> lheap \<Rightarrow> bool" where
  "heap_indices_ok n h \<longleftrightarrow> (\<forall>a nd. h a = Some nd \<longrightarrow> nd_index nd < n)"

lemma set_nxt_ok: "heap_indices_ok n h \<Longrightarrow> set_nxt a v h = Ok h' \<Longrightarrow> heap_indices_ok n h'"
  by (auto simp: set_nxt_def heap_indices_ok_def split: option.splits if_splits)

lemma set_pre_ok: "heap_indices_ok n h \<Longrightarrow> set_pre a v h = Ok h' \<Longrightarrow> heap_indices_ok n h'"
  by (auto simp: set_pre_def heap_indices_ok_def split: option.splits if_splits)

lemma heap_upd_ok:
  "heap_indices_ok n h \<Longrightarrow> heap_indices_ok n (h(a := None))"
  "heap_indices_ok n h \<Longrightarrow> nd_index nd < n \<Longrightarrow> heap_indices_ok n (h(a \<mapsto> nd))"
  by (auto simp: heap_indices_ok_def)

lemma lru_unlink_ok:
  assumes "heap_indices_ok n h" and "lru_unlink a h = Ok h'"
  shows "heap_indices_ok n h'"
proof (cases "h a")
  case (Some nd)
  obtain h1 h2 where u: "(case pre nd of None \<Rightarrow> Ok h | Some b \<Rightarrow> set_nxt b (nxt nd) h) = Ok h1"
    "(case nxt nd of None \<Rightarrow> Ok h1 | Some c \<Rightarrow> set_pre c (pre nd) h1) = Ok h2" "h' = h2(a := None)"
    using assms(2) Some by (auto simp: lru_unlink_def)
  have "heap_indices_ok n h1"
    using u(1) set_nxt_ok [OF assms(1)] assms(1) by (cases "pre nd") auto
  then have "heap_indices_ok n h2"
    using u(2) set_pre_ok [of n h1] by (cases "nxt nd") auto
  then show ?thesis
    using u(3) heap_upd_ok(1) by simp
qed (use assms in \<open>simp add: lru_unlink_def\<close>)

lemma lru_push_ok:
  "heap_indices_ok n (lheap q) \<Longrightarrow> i < n \<Longrightarrow> lru_push i q = Ok q' \<Longrightarrow> heap_indices_ok n (lheap q')"
  by (auto simp: lru_push_def Let_def split: option.splits intro!: heap_upd_ok elim!: set_pre_ok [rotated])

interpretation lru: replacement lru_evict lru_ref nodes_ok
proof
  fix s s' :: "lru_state sim" and f
  assume s: "nodes_ok (memsize s) True (pol s)" and e: "lru_evict s = Ok (f, s')"
  have h: "heap_indices_ok (memsize s) (lheap (pol s))"
    using s by (simp add: nodes_ok_def heap_indices_ok_def)
  obtain nd last h' where nd: "lheap (pol s) last = Some nd" "f = nd_index nd"
    "s' = s\<lparr>pol := (pol s)\<lparr>lheap := h'\<rparr>\<rparr>"
    "(case pre nd of None \<Rightarrow> Ok ((lheap (pol s))(last := None))
      | Some b \<Rightarrow> set_nxt b None ((lheap (pol s))(last := None))) = Ok h'"
    using e by (auto simp: lru_evict_def Let_def split: option.splits)
  have "heap_indices_ok (memsize s) h'"
    using nd(4) heap_upd_ok(1) [OF h] by (auto split: option.splits intro: set_nxt_ok)
  moreover have "f < memsize s"
    using h nd(1,2) by (auto simp: heap_indices_ok_def)
  ultimately show "f < memsize s \<and> only_ref_bits s s' \<and> nodes_ok (memsize s) True (pol s')"
    by (auto simp: nd(3) nodes_ok_def heap_indices_ok_def)
next
  fix s s' :: "lru_state sim" and p g
  assume s: "mm_inv s" "mapped s p g" "nodes_ok (memsize s) (mem_full s) (pol s)"
    and r: "lru_ref p s = Ok s'"
  have h: "heap_indices_ok (memsize s) (lheap (pol s))"
    using s by (simp add: nodes_ok_def heap_indices_ok_def)
  have i: "unat (drop_bit PAGE_SHIFT (get_frame s p)) < memsize s"
    using s repD(4) [of s "{}" p g] by (auto simp: mm_inv_def mapped_def frame_no_def PAGE_SHIFT_def)
  obtain found h' q where q: "s' = s\<lparr>pol := q\<rparr>"
    "(case found of None \<Rightarrow> Ok (lheap (pol s)) | Some a \<Rightarrow> lru_unlink a (lheap (pol s))) = Ok h'"
    "lru_push (unat (drop_bit PAGE_SHIFT (get_frame s p))) ((pol s)\<lparr>lheap := h'\<rparr>) = Ok q"
    using r by (auto simp: lru_ref_def Let_def)
  have "heap_indices_ok (memsize s) h'"
    using q(2) lru_unlink_ok [OF h] h by (cases found) auto
  then have "heap_indices_ok (memsize s) (lheap q)"
    using lru_push_ok [OF _ i q(3)] by simp
  then show "only_ref_bits s s' \<and> nodes_ok (memsize s) (mem_full s) (pol s')"
    by (simp add: q(1) nodes_ok_def heap_indices_ok_def)
qed (simp add: nodes_ok_def)

subsection \<open>The list as a sequence of frames\<close>

text \<open>
  \<open>dseg h p cur as l e\<close>: from \<open>cur\<close> on, the \<open>nxt\<close> pointers run through the blocks \<open>as\<close> and then
  to \<open>e\<close>, the \<open>pre\<close> pointers run back from the last one, \<open>l\<close>, to \<open>p\<close>.
\<close>

fun dseg :: "lheap \<Rightarrow> nat option \<Rightarrow> nat option \<Rightarrow> nat list \<Rightarrow> nat option \<Rightarrow> nat option \<Rightarrow> bool" where
  "dseg h p cur [] l e \<longleftrightarrow> cur = e \<and> p = l"
| "dseg h p cur (a # as) l e \<longleftrightarrow>
     cur = Some a \<and> (\<exists>nd. h a = Some nd \<and> pre nd = p \<and> dseg h (Some a) (nxt nd) as l e)"

definition frames_of :: "lheap \<Rightarrow> nat list \<Rightarrow> nat list" where
  "frames_of h as = map (\<lambda>a. nd_index (the (h a))) as"

text \<open>The list of \<open>q\<close> holds the frames \<open>is\<close>, each once, most recently used first.\<close>

definition lru_order :: "lru_state \<Rightarrow> nat list \<Rightarrow> bool" where
  "lru_order q is \<longleftrightarrow> (\<exists>as l. dseg (lheap q) None (lhead q) as l None \<and> distinct as \<and>
     is = frames_of (lheap q) as \<and> distinct is) \<and> finite (dom (lheap q))"

text \<open>\<open>malloc\<close> returns a block that is not in use.\<close>

definition malloc_ok :: "lru_state \<Rightarrow> bool" where
  "malloc_ok q \<longleftrightarrow> (\<forall>h. finite (dom h) \<longrightarrow> (\<exists>a. lmalloc q h = Some a \<and> h a = None))"

lemma frames_of_simps [simp]:
  "frames_of h [] = []" "frames_of h (a # as) = nd_index (the (h a)) # frames_of h as"
  "frames_of h (as @ bs) = frames_of h as @ frames_of h bs"
  by (simp_all add: frames_of_def)

lemma dseg_append:
  "dseg h p cur (xs @ ys) l e \<longleftrightarrow> (\<exists>m c. dseg h p cur xs m c \<and> dseg h m c ys l e)"
  by (induction xs arbitrary: p cur) auto

lemma dseg_cong:
  "(\<And>a. a \<in> set as \<Longrightarrow> h a = h' a) \<Longrightarrow> dseg h p cur as l e = dseg h' p cur as l e"
  by (induction as arbitrary: p cur) auto

lemma dseg_upd [simp]: "a \<notin> set as \<Longrightarrow> dseg (h(a := v)) p cur as l e = dseg h p cur as l e"
  by (rule dseg_cong) auto

lemma dseg_dom: "dseg h p cur as l e \<Longrightarrow> a \<in> set as \<Longrightarrow> h a \<noteq> None"
  by (induction as arbitrary: p cur) auto

lemma dseg_last: "dseg h p cur as l e \<Longrightarrow> as \<noteq> [] \<Longrightarrow> l = Some (last as)"
proof (induction as arbitrary: p cur)
  case (Cons a as)
  then show ?case by (cases as) auto
qed simp

lemma frames_of_cong:
  "(\<And>a. a \<in> set as \<Longrightarrow> nd_index (the (h a)) = nd_index (the (h' a))) \<Longrightarrow>
    frames_of h as = frames_of h' as"
  by (simp add: frames_of_def)

text \<open>Redirecting the pointer that leaves a segment at either end.\<close>

lemma dseg_set_nxt:
  assumes "dseg h p cur as (Some b) e" and "as \<noteq> []" and "distinct as"
  shows "\<exists>h'. set_nxt b v h = Ok h' \<and> dseg h' p cur as (Some b) v \<and> b \<in> set as \<and>
    (\<forall>x. x \<noteq> b \<longrightarrow> h' x = h x) \<and> (\<forall>x. map_option nd_index (h' x) = map_option nd_index (h x))"
  using assms
proof (induction as arbitrary: p cur)
  case (Cons a as)
  then obtain nd where nd: "cur = Some a" "h a = Some nd" "pre nd = p"
    "dseg h (Some a) (nxt nd) as (Some b) e" by auto
  show ?case
  proof (cases as)
    case Nil
    then show ?thesis using nd by (auto simp: set_nxt_def)
  next
    case (Cons c cs)
    with Cons.IH [OF nd(4)] Cons.prems(3) obtain h' where h': "set_nxt b v h = Ok h'"
      "dseg h' (Some a) (nxt nd) as (Some b) v" "b \<in> set as" "\<forall>x. x \<noteq> b \<longrightarrow> h' x = h x"
      "\<forall>x. map_option nd_index (h' x) = map_option nd_index (h x)" by auto
    then have "h' a = Some nd" using nd(2) Cons.prems(3) by auto
    then show ?thesis using h' nd by auto
  qed
qed simp

lemma dseg_set_pre:
  assumes "dseg h p (Some b) as l e" and "as \<noteq> []" and "distinct as"
  shows "\<exists>h'. set_pre b v h = Ok h' \<and> dseg h' v (Some b) as l e \<and> b \<in> set as \<and>
    (\<forall>x. x \<noteq> b \<longrightarrow> h' x = h x) \<and> (\<forall>x. map_option nd_index (h' x) = map_option nd_index (h x))"
proof -
  obtain cs nd where as: "as = b # cs" "h b = Some nd" "dseg h (Some b) (nxt nd) cs l e"
    using assms by (cases as) auto
  have "dseg (h(b \<mapsto> nd\<lparr>pre := v\<rparr>)) (Some b) (nxt nd) cs l e"
    using as(1,3) assms(3) dseg_cong [of cs h "h(b \<mapsto> nd\<lparr>pre := v\<rparr>)"] by fastforce
  then show ?thesis
    using as by (auto simp: set_pre_def)
qed

lemma lru_find_spec:
  "dseg h p cur as l None \<Longrightarrow>
    lru_find h i cur = Some (Ok (find (\<lambda>a. nd_index (the (h a)) = i) as))"
  by (induction as arbitrary: p cur) (auto simp: lru_find.simps)

lemma lru_last_spec:
  "dseg h p (Some a) as l None \<Longrightarrow> as \<noteq> [] \<Longrightarrow> lru_last h a = Some (Ok (last as))"
proof (induction as arbitrary: p a)
  case (Cons b as)
  show ?case
  proof (cases as)
    case Nil
    then show ?thesis using Cons.prems by (subst lru_last.simps) auto
  next
    case (Cons c cs)
    then obtain nd where "a = b" "h a = Some nd" "dseg h (Some b) (Some c) as l None" "nxt nd = Some c"
      using Cons.prems by auto
    then show ?thesis
      using Cons.IH [of "Some b" c] Cons by (subst lru_last.simps) simp
  qed
qed simp

lemma finite_dom_index:
  assumes "finite (dom h)" and "\<And>x. x \<noteq> b \<Longrightarrow> map_option nd_index (h' x) = map_option nd_index (h x)"
  shows "finite (dom h')"
proof (rule finite_subset)
  show "dom h' \<subseteq> insert b (dom h)"
  proof
    fix x
    assume "x \<in> dom h'"
    then show "x \<in> insert b (dom h)"
      using assms(2) [of x] by (cases "x = b"; cases "h x") auto
  qed
qed (use assms(1) in simp)

text \<open>Eviction takes the last frame of the order.\<close>

lemma lru_evict_order:
  assumes "lru_order (pol s) is" and "2 \<le> length is"
  shows "\<exists>q. lru_evict s = Ok (last is, s\<lparr>pol := q\<rparr>) \<and> lru_order q (butlast is) \<and>
    lmalloc q = lmalloc (pol s)"
proof -
  let ?h = "lheap (pol s)"
  obtain as l where as: "dseg ?h None (lhead (pol s)) as l None" "distinct as"
    "is = frames_of ?h as" "distinct is" "finite (dom ?h)"
    using assms(1) by (auto simp: lru_order_def)
  then have "as \<noteq> []" "length as = length is"
    using assms(2) by (auto simp: frames_of_def)
  define bs b where "bs = butlast as" and "b = last as"
  have asb: "as = bs @ [b]" and bs: "bs \<noteq> []"
    using \<open>as \<noteq> []\<close> \<open>length as = length is\<close> assms(2)
    by (auto simp: bs_def b_def) (metis One_nat_def Suc_1 length_butlast list.size(3) not_less_eq_eq
        diff_is_0_eq)
  obtain m nd where m: "dseg ?h None (lhead (pol s)) bs m (Some b)" "?h b = Some nd" "pre nd = m"
    using as(1) unfolding asb dseg_append by auto
  then have ml: "m = Some (last bs)"
    using dseg_last bs by blast
  have last: "lru_last ?h (hd as) = Some (Ok b)" "lhead (pol s) = Some (hd as)"
    using lru_last_spec [of ?h None "hd as" as l] as(1) \<open>as \<noteq> []\<close> by (cases as; auto simp: b_def)+
  have "dseg (?h(b := None)) None (lhead (pol s)) bs (Some (last bs)) (Some b)"
    using m(1) ml as(2) by (simp add: asb)
  from dseg_set_nxt [OF this bs, of None] as(2) obtain h' where h':
    "set_nxt (last bs) None (?h(b := None)) = Ok h'"
    "dseg h' None (lhead (pol s)) bs (Some (last bs)) None"
    "\<forall>x. x \<noteq> last bs \<longrightarrow> h' x = (?h(b := None)) x"
    "\<forall>x. map_option nd_index (h' x) = map_option nd_index ((?h(b := None)) x)"
    by (auto simp: asb)
  have fr: "frames_of h' bs = butlast is"
  proof -
    have "nd_index (the (h' x)) = nd_index (the (?h x))" if "x \<in> set bs" for x
    proof -
      have "x \<noteq> b" using that as(2) by (auto simp: asb)
      then have "map_option nd_index (h' x) = map_option nd_index (?h x)"
        using h'(4) by (metis fun_upd_other)
      moreover have "?h x \<noteq> None" using dseg_dom [OF m(1) that] .
      ultimately show ?thesis by auto
    qed
    then have "frames_of h' bs = frames_of ?h bs" by (rule frames_of_cong)
    then show ?thesis using as(3) by (simp add: asb)
  qed
  have fin: "finite (dom h')"
    using finite_dom_index [OF as(5), of b h'] h'(4) by simp
  have "lru_evict s = Ok (last is, s\<lparr>pol := (pol s)\<lparr>lheap := h'\<rparr>\<rparr>)"
    using last m(2,3) ml h'(1) as(3) by (simp add: lru_evict_def loop_res_def asb)
  moreover have "lru_order ((pol s)\<lparr>lheap := h'\<rparr>) (butlast is)"
    unfolding lru_order_def using h'(2) as(2,4) fr fin
    by (auto simp: asb distinct_butlast intro!: exI [of _ bs])
  ultimately show ?thesis by auto
qed

text \<open>A reference to a frame that is not the most recent one moves it to the front.\<close>

lemma lru_unlink_spec:
  assumes "dseg h None cur (xs @ b # ys) l None" and "xs \<noteq> []" and "distinct (xs @ b # ys)"
  shows "\<exists>h' l'. lru_unlink b h = Ok h' \<and> dseg h' None cur (xs @ ys) l' None \<and>
    (\<forall>x. x \<noteq> b \<longrightarrow> map_option nd_index (h' x) = map_option nd_index (h x))"
proof -
  obtain nd m where m: "dseg h None cur xs m (Some b)" "h b = Some nd" "pre nd = m"
    "dseg h (Some b) (nxt nd) ys l None"
    using assms(1) unfolding dseg_append by auto
  have ml: "m = Some (last xs)"
    using dseg_last [OF m(1) assms(2)] .
  obtain h1 where h1: "set_nxt (last xs) (nxt nd) h = Ok h1"
    "dseg h1 None cur xs (Some (last xs)) (nxt nd)" "\<forall>x. x \<noteq> last xs \<longrightarrow> h1 x = h x"
    "\<forall>x. map_option nd_index (h1 x) = map_option nd_index (h x)"
    using dseg_set_nxt [OF m(1) [unfolded ml] assms(2), of "nxt nd"] assms(3) by auto
  have ys1: "dseg h1 (Some b) (nxt nd) ys l None"
  proof -
    have "last xs \<in> set xs" using assms(2) by simp
    then have "last xs \<notin> set ys" using assms(3) by auto
    then show ?thesis using m(4) dseg_cong [of ys h h1] h1(3) by metis
  qed
  show ?thesis
  proof (cases ys)
    case Nil
    then have "nxt nd = None" using ys1 by simp
    then have "lru_unlink b h = Ok (h1(b := None))"
      using m(2,3) ml h1(1) by (simp add: lru_unlink_def)
    moreover have "dseg (h1(b := None)) None cur (xs @ ys) (Some (last xs)) None"
      using h1(2) \<open>nxt nd = None\<close> assms(3) Nil by simp
    ultimately show ?thesis using h1(4) by auto
  next
    case (Cons c cs)
    then have n: "nxt nd = Some c" using ys1 by simp
    obtain h2 where h2: "set_pre c (Some (last xs)) h1 = Ok h2"
      "dseg h2 (Some (last xs)) (Some c) ys l None" "\<forall>x. x \<noteq> c \<longrightarrow> h2 x = h1 x"
      "\<forall>x. map_option nd_index (h2 x) = map_option nd_index (h1 x)"
      using dseg_set_pre [OF ys1 [unfolded n], of "Some (last xs)"] assms(3) Cons by auto
    have "dseg h2 None cur xs (Some (last xs)) (Some c)"
      using h1(2) n dseg_cong [of xs h1 h2] h2(3) assms(3) Cons by (metis (no_types, lifting)
          distinct_append disjoint_iff list.set_intros(1) list.set_intros(2))
    then have "dseg (h2(b := None)) None cur (xs @ ys) l None"
      using h2(2) assms(3) unfolding dseg_append by auto
    moreover have "lru_unlink b h = Ok (h2(b := None))"
      using m(2,3) ml h1(1) n h2(1) by (simp add: lru_unlink_def)
    ultimately show ?thesis using h1(4) h2(4) by auto
  qed
qed

lemma lru_push_spec:
  assumes "dseg (lheap q) None (lhead q) as l None" and "distinct as"
    and "lmalloc q (lheap q) = Some a" and "lheap q a = None"
  shows "\<exists>q' l'. lru_push i q = Ok q' \<and> dseg (lheap q') None (lhead q') (a # as) l' None \<and>
    a \<notin> set as \<and> lmalloc q' = lmalloc q \<and> nd_index (the (lheap q' a)) = i \<and>
    (\<forall>x. x \<noteq> a \<longrightarrow> map_option nd_index (lheap q' x) = map_option nd_index (lheap q x))"
proof -
  have a: "a \<notin> set as"
    using dseg_dom [OF assms(1), of a] assms(4) by auto
  define h where "h = (lheap q)(a \<mapsto> \<lparr>pre = None, nxt = lhead q, nd_index = i\<rparr>)"
  have seg: "dseg h None (lhead q) as l None"
    using assms(1) a by (simp add: h_def)
  show ?thesis
  proof (cases as)
    case Nil
    then have "lhead q = None" using assms(1) by simp
    then show ?thesis
      using assms(3) Nil by (auto simp: lru_push_def Let_def)
  next
    case (Cons b bs)
    then have hd: "lhead q = Some b" using assms(1) by simp
    obtain h' where h': "set_pre b (Some a) h = Ok h'" "dseg h' (Some a) (Some b) as l None"
      "\<forall>x. x \<noteq> b \<longrightarrow> h' x = h x" "\<forall>x. map_option nd_index (h' x) = map_option nd_index (h x)"
      using dseg_set_pre [OF seg [unfolded hd], of "Some a"] assms(2) Cons by auto
    have "h' a = Some \<lparr>pre = None, nxt = Some b, nd_index = i\<rparr>"
      using h'(3) a Cons hd by (auto simp: h_def)
    moreover have "lru_push i q = Ok (q\<lparr>lheap := h', lhead := Some a\<rparr>)"
      using assms(3) hd h'(1) by (simp add: lru_push_def Let_def h_def)
    moreover have "map_option nd_index (h' x) = map_option nd_index (lheap q x)" if "x \<noteq> a" for x
      using h'(4) that by (simp add: h_def)
    ultimately show ?thesis
      using h'(2) a by auto
  qed
qed

lemma find_split:
  "find P as = Some b \<Longrightarrow> \<exists>xs ys. as = xs @ b # ys \<and> P b \<and> (\<forall>x \<in> set xs. \<not> P x)"
proof (induction as)
  case (Cons a as)
  show ?case
  proof (cases "P a")
    case True
    then show ?thesis using Cons.prems by (intro exI [of _ "[]"] exI [of _ as]) auto
  next
    case False
    then obtain xs ys where "as = xs @ b # ys \<and> P b \<and> (\<forall>x \<in> set xs. \<not> P x)"
      using Cons by auto
    then show ?thesis using False by (intro exI [of _ "a # xs"] exI [of _ ys]) auto
  qed
qed simp

text \<open>The push after the search, on the blocks that are left.\<close>

lemma lru_push_order:
  assumes "dseg h None (lhead q) as l None" and "distinct as" and "finite (dom h)" and "malloc_ok q"
    and "i \<notin> set (frames_of h as)" and "distinct (frames_of h as)"
  shows "\<exists>q'. lru_push i (q\<lparr>lheap := h\<rparr>) = Ok q' \<and> lru_order q' (i # frames_of h as) \<and>
    lmalloc q' = lmalloc q"
proof -
  obtain a where a: "lmalloc q h = Some a" "h a = None"
    using assms(3,4) by (auto simp: malloc_ok_def)
  obtain q' l' where q': "lru_push i (q\<lparr>lheap := h\<rparr>) = Ok q'"
    "dseg (lheap q') None (lhead q') (a # as) l' None" "a \<notin> set as" "lmalloc q' = lmalloc q"
    "nd_index (the (lheap q' a)) = i"
    "\<forall>x. x \<noteq> a \<longrightarrow> map_option nd_index (lheap q' x) = map_option nd_index (h x)"
    using lru_push_spec [of "q\<lparr>lheap := h\<rparr>" as l a i] assms(1,2) a by auto
  have "frames_of (lheap q') as = frames_of h as"
  proof (rule frames_of_cong)
    fix x
    assume x: "x \<in> set as"
    then have "map_option nd_index (lheap q' x) = map_option nd_index (h x)"
      using q'(3,6) by metis
    moreover have "h x \<noteq> None" using dseg_dom [OF assms(1) x] .
    ultimately show "nd_index (the (lheap q' x)) = nd_index (the (h x))"
      by (cases "h x"; cases "lheap q' x") auto
  qed
  moreover have "finite (dom (lheap q'))"
    using finite_dom_index [OF assms(3), of a "lheap q'"] q'(6) by simp
  ultimately have "lru_order q' (i # frames_of h as)"
    unfolding lru_order_def using q'(2,3,5) assms(2,5,6)
    by (intro conjI exI [of _ "a # as"] exI [of _ l']) (simp_all del: dseg.simps)
  then show ?thesis
    using q'(1,4) by blast
qed

lemma lru_ref_order:
  assumes "lru_order (pol s) is" and "malloc_ok (pol s)" and "is = [] \<or> hd is \<noteq> frame_no (get_frame s p)"
  shows "\<exists>q. lru_ref p s = Ok (s\<lparr>pol := q\<rparr>) \<and>
    lru_order q (frame_no (get_frame s p) # remove1 (frame_no (get_frame s p)) is) \<and>
    lmalloc q = lmalloc (pol s)"
proof -
  let ?q = "pol s" and ?i = "frame_no (get_frame s p)"
  let ?h = "lheap ?q"
  obtain as l where as: "dseg ?h None (lhead ?q) as l None" "distinct as"
    "is = frames_of ?h as" "distinct is" "finite (dom ?h)"
    using assms(1) by (auto simp: lru_order_def)
  have find: "lru_find ?h ?i (lhead ?q) = Some (Ok (find (\<lambda>a. nd_index (the (?h a)) = ?i) as))"
    using lru_find_spec [OF as(1)] .
  have ref: "lru_ref p s = res_bind (case find (\<lambda>a. nd_index (the (?h a)) = ?i) as of
      None \<Rightarrow> Ok ?h | Some a \<Rightarrow> lru_unlink a ?h) (\<lambda>h.
      res_bind (lru_push ?i (?q\<lparr>lheap := h\<rparr>)) (\<lambda>q. Ok (s\<lparr>pol := q\<rparr>)))"
    using find by (simp add: lru_ref_def Let_def loop_res_def frame_no_def PAGE_SHIFT_def)
  show ?thesis
  proof (cases "find (\<lambda>a. nd_index (the (?h a)) = ?i) as")
    case None
    then have "?i \<notin> set (frames_of ?h as)"
      by (auto simp: find_None_iff frames_of_def)
    then show ?thesis
      using lru_push_order [OF as(1,2,5) assms(2), of ?i] as(3,4) ref None
      by (auto simp: remove1_idem)
  next
    case (Some b)
    then obtain xs ys where xs: "as = xs @ b # ys" "nd_index (the (?h b)) = ?i"
      "\<forall>x \<in> set xs. nd_index (the (?h x)) \<noteq> ?i"
      using find_split [OF Some] by blast
    have "xs \<noteq> []"
      using assms(3) xs(1,2) as(3) by auto
    then obtain h' l' where h': "lru_unlink b ?h = Ok h'" "dseg h' None (lhead ?q) (xs @ ys) l' None"
      "\<forall>x. x \<noteq> b \<longrightarrow> map_option nd_index (h' x) = map_option nd_index (?h x)"
      using lru_unlink_spec as(1,2) unfolding xs(1) by blast
    have fr: "frames_of h' (xs @ ys) = frames_of ?h (xs @ ys)"
    proof (rule frames_of_cong)
      fix x
      assume x: "x \<in> set (xs @ ys)"
      then have "map_option nd_index (h' x) = map_option nd_index (?h x)"
        using h'(3) as(2) xs(1) by auto
      moreover have "?h x \<noteq> None" using dseg_dom [OF as(1)] x xs(1) by auto
      ultimately show "nd_index (the (h' x)) = nd_index (the (?h x))"
        by (cases "?h x"; cases "h' x") auto
    qed
    have "?i \<notin> set (frames_of ?h xs)"
      using xs(3) by (auto simp: frames_of_def)
    then have rem: "remove1 ?i is = frames_of ?h (xs @ ys)"
      using as(3) xs(1,2) by (simp add: remove1_append)
    have "?i \<notin> set (frames_of h' (xs @ ys))" "distinct (frames_of h' (xs @ ys))"
      using as(3,4) xs(1,2) unfolding fr by auto
    then show ?thesis
      using lru_push_order [OF h'(2) _ _ assms(2), of ?i] as(2) xs(1) ref Some h'(1)
        finite_dom_index [OF as(5), of b h'] h'(3) rem fr by auto
  qed
qed

subsection \<open>A second reference to the most recent frame\<close>

lemma self_loop_diverges:
  assumes "h a = Some nd" and "nxt nd = Some a"
  shows "lru_last h a = None"
proof -
  have "\<not> (\<exists>nd. h a = Some nd \<and> nxt nd = Some a)" if "lru_last h a = Some r" for h a r
    by (rule lru_last.raw_induct
          [where P = "\<lambda>h a r. \<not> (\<exists>nd. h a = Some nd \<and> nxt nd = Some a)", OF _ that])
      (auto split: option.splits)
  then show ?thesis using assms by (cases "lru_last h a") auto
qed

lemma lru_ref_head:
  assumes "lru_order (pol s) (frame_no (get_frame s p) # is)" and "malloc_ok (pol s)"
  shows "res_bind (lru_ref p s) lru_evict \<in> {Err Use_after_free, Err Diverges}"
proof -
  let ?q = "pol s" and ?i = "frame_no (get_frame s p)"
  let ?h = "lheap ?q"
  obtain b as l where as: "dseg ?h None (lhead ?q) (b # as) l None" "distinct (b # as)"
    "nd_index (the (?h b)) = ?i" "finite (dom ?h)"
    using assms(1) by (auto simp: lru_order_def frames_of_def)
  then obtain nd where nd: "lhead ?q = Some b" "?h b = Some nd" "pre nd = None" "nd_index nd = ?i"
    "dseg ?h (Some b) (nxt nd) as l None" by auto
  have find: "lru_find ?h ?i (lhead ?q) = Some (Ok (Some b))"
    using nd by (simp add: lru_find.simps)
  obtain h' where h': "lru_unlink b ?h = Ok h'" "h' b = None" "finite (dom h')"
  proof (cases "nxt nd")
    case None
    then show ?thesis
      using that [of "?h(b := None)"] nd as(4) by (simp add: lru_unlink_def)
  next
    case (Some c)
    then obtain ndc where "?h c = Some ndc"
      using nd(5) by (cases as) auto
    then show ?thesis
      using that [of "?h(c \<mapsto> ndc\<lparr>pre := None\<rparr>, b := None)"] nd as(4) Some
      by (simp add: lru_unlink_def set_pre_def)
  qed
  obtain a where a: "lmalloc ?q h' = Some a" "h' a = None"
    using assms(2) h'(3) by (auto simp: malloc_ok_def)
  define h where "h = h'(a \<mapsto> \<lparr>pre = None, nxt = Some b, nd_index = ?i\<rparr>)"
  have ref: "lru_ref p s = res_bind (set_pre b (Some a) h) (\<lambda>h.
      Ok (s\<lparr>pol := ?q\<lparr>lheap := h, lhead := Some a\<rparr>\<rparr>))"
    using find h'(1) a(1) nd(1)
    by (simp add: lru_ref_def Let_def loop_res_def lru_push_def h_def frame_no_def PAGE_SHIFT_def
        res_bind_def split: sum.split)
  show ?thesis
  proof (cases "a = b")
    case True
    define h2 where "h2 = h(b \<mapsto> \<lparr>pre = Some a, nxt = Some b, nd_index = ?i\<rparr>)"
    have "lru_ref p s = Ok (s\<lparr>pol := ?q\<lparr>lheap := h2, lhead := Some a\<rparr>\<rparr>)"
      unfolding ref using True by (simp add: set_pre_def h_def h2_def)
    moreover have "lru_last h2 a = None"
      by (rule self_loop_diverges [OF _ lnode.select_convs(2)])
        (use True in \<open>simp add: h2_def\<close>)
    ultimately show ?thesis
      by (simp add: lru_evict_def loop_res_def)
  next
    case False
    then have "lru_ref p s = Err Use_after_free"
      unfolding ref using h'(2) by (simp add: set_pre_def h_def)
    then show ?thesis by simp
  qed
qed

subsection \<open>Properties\<close>

text \<open>A first-fit \<open>malloc\<close>, to run the algorithm with.\<close>

partial_function (option) first_fit :: "lheap \<Rightarrow> nat \<Rightarrow> nat option" where
  "first_fit h a = (case h a of None \<Rightarrow> Some a | Some nd \<Rightarrow> first_fit h (Suc a))"

declare first_fit.simps [code]

lemma first_fit_finds:
  assumes "h b = None" and "a \<le> b"
  shows "\<exists>c. first_fit h a = Some c \<and> h c = None"
  using assms
proof (induction "b - a" arbitrary: a)
  case 0
  then show ?case by (auto simp: first_fit.simps)
next
  case (Suc n)
  then show ?case
    using Suc(1) [of "Suc a"] by (cases "h a") (auto simp: first_fit.simps [of h a])
qed

lemma first_fit_ok: "malloc_ok \<lparr>lheap = h, lhead = c, lmalloc = (\<lambda>h. first_fit h 0)\<rparr>"
proof -
  have "\<exists>a. first_fit h 0 = Some a \<and> h a = None" if fin: "finite (dom h)" for h
  proof -
    obtain b where "b \<notin> dom h"
      using ex_new_if_finite [OF infinite_UNIV_nat fin] by blast
    then have "h b = None" by (simp add: domIff)
    then show ?thesis by (rule first_fit_finds) simp
  qed
  then show ?thesis by (simp add: malloc_ok_def)
qed

text \<open>Two frames in the list, \<open>i\<close> more recent than \<open>j\<close>.\<close>

definition two_nodes :: "nat \<Rightarrow> nat \<Rightarrow> lru_state" where
  "two_nodes i j = \<lparr>lheap = (\<lambda>a. None)(0 \<mapsto> \<lparr>pre = None, nxt = Some 1, nd_index = i\<rparr>,
     1 \<mapsto> \<lparr>pre = Some 0, nxt = None, nd_index = j\<rparr>), lhead = Some 0, lmalloc = (\<lambda>h. first_fit h 0)\<rparr>"

lemma two_nodes: "i \<noteq> j \<Longrightarrow> lru_order (two_nodes i j) [i, j]" "malloc_ok (two_nodes i j)"
proof -
  show "malloc_ok (two_nodes i j)"
    unfolding two_nodes_def by (rule first_fit_ok)
  have "dseg (lheap (two_nodes i j)) None (lhead (two_nodes i j)) [0, 1] (Some 1) None"
    "[i, j] = frames_of (lheap (two_nodes i j)) [0, 1]" "finite (dom (lheap (two_nodes i j)))"
    by (simp_all add: two_nodes_def)
  then show "i \<noteq> j \<Longrightarrow> lru_order (two_nodes i j) [i, j]"
    unfolding lru_order_def by (intro conjI exI [of _ "[0, 1]"] exI [of _ "Some 1"]) auto
qed

lemma start_frame_0: "frame_no (get_frame (sim_start n k (\<lambda>_. 0) sw q) p) = 0"
proof -
  have "rd 4 (\<lambda>_. 0) a = 0" for a by (simp add: numeral_eq_Suc)
  then show ?thesis
    by (simp add: sim_start_def init_pagetable_def get_frame_def rd32_def frame_no_def)
qed

lemma start_pol [simp]: "pol (sim_start n k m sw q) = q"
  by (simp add: sim_start_def init_pagetable_def)

text \<open>
  C24. A reference to any frame but the most recent one is exact LRU on the linked list: the frame
  leaves its place, if it had one, and becomes the first of the order.
\<close>

theorem lru_ref_moves_to_front:
  assumes "lru_order (pol s) is" and "malloc_ok (pol s)"
    and "is = [] \<or> hd is \<noteq> frame_no (get_frame s p)"
  shows "\<exists>q. lru_ref p s = Ok (s\<lparr>pol := q\<rparr>) \<and>
    lru_order q (frame_no (get_frame s p) # remove1 (frame_no (get_frame s p)) is)"
  using lru_ref_order [OF assms] by blast

theorem lru_ref_moves_to_front_witness:
  "\<exists>q. lru_ref (0, 1) (sim_start 2 0 (\<lambda>_. 0) no_swap (two_nodes 1 0)) =
      Ok ((sim_start 2 0 (\<lambda>_. 0) no_swap (two_nodes 1 0))\<lparr>pol := q\<rparr>) \<and> lru_order q [0, 1]"
  using lru_ref_moves_to_front [of "sim_start 2 0 (\<lambda>_. 0) no_swap (two_nodes 1 0)" "[1, 0]" "(0, 1)"]
  by (simp add: start_frame_0 two_nodes)

text \<open>
  C25. With two or more frames in the list, \<open>lru_evict\<close> returns the least recently used frame and
  takes it off the list.
\<close>

theorem lru_evicts_least_recent:
  assumes "lru_order (pol s) is" and "2 \<le> length is"
  shows "\<exists>q. lru_evict s = Ok (last is, s\<lparr>pol := q\<rparr>) \<and> lru_order q (butlast is)"
  using lru_evict_order [OF assms] by blast

theorem lru_evicts_least_recent_witness:
  "\<exists>q. lru_evict (sim_start 2 0 (\<lambda>_. 0) no_swap (two_nodes 1 0)) =
      Ok (0, (sim_start 2 0 (\<lambda>_. 0) no_swap (two_nodes 1 0))\<lparr>pol := q\<rparr>) \<and> lru_order q [1]"
  using lru_evicts_least_recent [of "sim_start 2 0 (\<lambda>_. 0) no_swap (two_nodes 1 0)" "[1, 0]"]
  by (simp add: two_nodes)

text \<open>
  C26. A second reference in a row to the same page breaks the list: \<open>lru_ref\<close> frees the head node
  and then uses \<open>coremap->head\<close>.  Either \<open>malloc\<close> returns another block and the write through the
  old head is a use after free, or it returns the same block, the new node is its own successor,
  and the next \<open>lru_evict\<close> never returns.
\<close>

theorem lru_repeated_reference_breaks_list:
  assumes "lru_order (pol s) (frame_no (get_frame s p) # is)" and "malloc_ok (pol s)"
  shows "res_bind (lru_ref p s) lru_evict \<in> {Err Use_after_free, Err Diverges}"
  by (rule lru_ref_head [OF assms])

theorem lru_repeated_reference_breaks_list_witness:
  "res_bind (lru_ref (0, 1) (sim_start 2 0 (\<lambda>_. 0) no_swap (two_nodes 0 1))) lru_evict
    \<in> {Err Use_after_free, Err Diverges}"
  by (rule lru_repeated_reference_breaks_list [of _ _ "[1]"]) (simp_all add: start_frame_0 two_nodes)

end
