(* ===== verification/Trace.thy ===== *)
theory Trace
  imports Prelude "HOL-Library.Char_ord"
begin

section \<open>Reading trace lines (the scanf formats of Assignment2)\<close>

text \<open>
  A trace line is \<open>"%c %lx"\<close> in \<open>sim.c\<close> and \<open>"%c %x"\<close> in \<open>opt.c\<close>: one character, white space, a
  hexadecimal number with an optional sign and \<open>0x\<close>.  These are the conversions of the C library
  on a string that stands for the input; a conversion that fails leaves its variable alone.
\<close>

definition newline :: char where "newline = CHR 0x0A"

definition is_space :: "char \<Rightarrow> bool" where
  "is_space c \<longleftrightarrow> c \<in> {CHR '' '', CHR 0x09, CHR 0x0A, CHR 0x0B, CHR 0x0C, CHR 0x0D}"

definition hex_digit :: "char \<Rightarrow> nat option" where
  "hex_digit c =
     (let n = of_char c :: nat in
      if 48 \<le> n \<and> n \<le> 57 then Some (n - 48)
      else if 97 \<le> n \<and> n \<le> 102 then Some (n - 87)
      else if 65 \<le> n \<and> n \<le> 70 then Some (n - 55)
      else None)"

fun hex_value :: "nat \<Rightarrow> string \<Rightarrow> nat" where
  "hex_value acc [] = acc"
| "hex_value acc (c # cs) =
     (case hex_digit c of None \<Rightarrow> acc | Some d \<Rightarrow> hex_value (16 * acc + d) cs)"

definition strip_0x :: "string \<Rightarrow> string" where
  "strip_0x s =
     (case s of
        c # x # d # r \<Rightarrow>
          if c = CHR ''0'' \<and> (x = CHR ''x'' \<or> x = CHR ''X'') \<and> hex_digit d \<noteq> None then d # r else s
      | _ \<Rightarrow> s)"

text \<open>\<open>%x\<close> and \<open>%lx\<close>: the value modulo \<open>2 ^ 64\<close>, or the largest one when it does not fit.\<close>

definition scan_hex :: "string \<Rightarrow> 64 word option \<times> string" where
  "scan_hex s =
     (let s = dropWhile is_space s;
          neg = (s \<noteq> [] \<and> hd s = CHR ''-'');
          s = (if s \<noteq> [] \<and> (hd s = CHR ''-'' \<or> hd s = CHR ''+'') then tl s else s);
          s = strip_0x s;
          rest = dropWhile (\<lambda>c. hex_digit c \<noteq> None) s;
          n = hex_value 0 s;
          w = (if n < 2 ^ 64 then word_of_nat n else - 1) in
      if s \<noteq> [] \<and> hex_digit (hd s) \<noteq> None
      then (Some (if neg \<and> n < 2 ^ 64 then - w else w), rest)
      else (None, s))"

definition scan_c_hex :: "string \<Rightarrow> char option \<times> 64 word option \<times> string" where
  "scan_c_hex s =
     (case s of
        [] \<Rightarrow> (None, None, [])
      | c # cs \<Rightarrow> (let (v, rest) = scan_hex cs in (Some c, v, rest)))"

lemma strip_0x_length: "length (strip_0x s) \<le> length s"
  by (auto simp: strip_0x_def split: list.splits)

lemma scan_hex_length: "length (snd (scan_hex s)) \<le> length s"
proof -
  define s1 where "s1 = dropWhile is_space s"
  define s2 where "s2 = (if s1 \<noteq> [] \<and> (hd s1 = CHR ''-'' \<or> hd s1 = CHR ''+'') then tl s1 else s1)"
  have "length s1 \<le> length s" "length s2 \<le> length s1"
    by (simp_all add: s1_def s2_def length_dropWhile_le)
  moreover have "length (snd (scan_hex s)) \<le> length (strip_0x s2)"
    unfolding scan_hex_def Let_def s1_def [symmetric] s2_def [symmetric]
    by (simp add: length_dropWhile_le)
  ultimately show ?thesis
    using strip_0x_length [of s2] by simp
qed

lemma scan_c_hex_length: "length (snd (snd (scan_c_hex s))) \<le> length s"
  using scan_hex_length [of "tl s"]
  by (auto simp: scan_c_hex_def case_prod_unfold Let_def split: list.splits)

text \<open>\<open>fgetc\<close> into a \<open>char\<close>: the byte 255 compares equal to \<open>EOF\<close>.\<close>

definition fgetc :: "string \<Rightarrow> (char \<times> string) option" where
  "fgetc s = (case s of [] \<Rightarrow> None | c # cs \<Rightarrow> if c = CHR 0xFF then None else Some (c, cs))"

text \<open>\<open>fgets\<close> with a buffer of \<open>n + 1\<close> bytes: at most \<open>n\<close> characters, up to a newline.\<close>

fun fgets :: "nat \<Rightarrow> string \<Rightarrow> string \<times> string" where
  "fgets 0 s = ([], s)"
| "fgets (Suc n) [] = ([], [])"
| "fgets (Suc n) (c # cs) =
     (if c = newline then ([c], cs) else (let (l, r) = fgets n cs in (c # l, r)))"

lemma fgets_append: "fgets n s = (l, r) \<Longrightarrow> s = l @ r"
  by (induction n s arbitrary: l rule: fgets.induct) (auto split: if_splits prod.splits)

lemma fgets_nonempty: "s \<noteq> [] \<Longrightarrow> fst (fgets (Suc n) s) \<noteq> []"
  by (cases s) (auto split: prod.splits)

lemma fgets_line:
  "newline \<notin> set l \<Longrightarrow> length l < n \<Longrightarrow> fgets n (l @ newline # r) = (l @ [newline], r)"
proof (induction l arbitrary: n)
  case Nil
  then show ?case by (cases n) auto
next
  case (Cons c l)
  then show ?case by (cases n) auto
qed

end
