(* ===== verification/Opt.thy ===== *)
theory Opt
  imports Start Trace
begin

section \<open>Optimal replacement (Assignment2/opt.c)\<close>

text \<open>
  \<open>opt_init\<close> reads the trace ahead into the array \<open>addrs\<close> and a doubly linked list of items, one
  per reference; item \<open>i\<close> has time \<open>i\<close> and address \<open>addrs[i]\<close>.  The current item is the number
  \<open>opt_cur\<close>.  Of the items before it only the last is not freed, and what is read of it is its
  frame, \<open>opt_pre\<close>, and its address.  \<open>opt_memory\<close> is the array \<open>memory\<close>, which holds for each
  frame the time of its page's next use, \<open>-1\<close> for never.
\<close>

subsection \<open>Operations\<close>

record opt_state =
  opt_addrs :: "64 word list"
  opt_items :: nat
  opt_cur :: "nat option"
  opt_pre :: "nat option"
  opt_memory :: "int list"

text \<open>The loop of \<open>opt_evict\<close> over \<open>(memory[k], coremap[k].pte)\<close>, from \<open>k\<close> on.\<close>

fun opt_scan :: "(int \<times> pteref option) list \<Rightarrow> nat \<Rightarrow> int \<Rightarrow> nat \<Rightarrow> nat" where
  "opt_scan [] k mx evict = evict"
| "opt_scan ((m, p) # xs) k mx evict =
     (if m = - 1 \<and> p \<noteq> None then k
      else if m > mx then opt_scan xs (Suc k) m k
      else opt_scan xs (Suc k) mx evict)"

definition opt_evict :: "opt_state sim \<Rightarrow> (nat \<times> opt_state sim) res" where
  "opt_evict s =
     (let mem = opt_memory (pol s) in
      if length mem < memsize s then Err Out_of_bounds
      else Ok (opt_scan (zip mem (map cpte (coremap s))) 0 (- 1) 0, s))"

text \<open>The loop of \<open>opt_ref\<close>: the times from \<open>j\<close> on, for the address \<open>a\<close> and the frame \<open>f\<close>.\<close>

fun opt_update :: "64 word list \<Rightarrow> nat \<Rightarrow> 64 word \<Rightarrow> nat \<Rightarrow> int list \<Rightarrow> int list res" where
  "opt_update [] j a f mem = Ok mem"
| "opt_update (b # bs) j a f mem =
     (if f \<ge> length mem then Err Out_of_bounds
      else let mem = mem[f := - 1] in
        if a = b then Ok (mem[f := int j]) else opt_update bs (Suc j) a f mem)"

definition opt_next_use :: "nat \<Rightarrow> nat \<Rightarrow> opt_state sim \<Rightarrow> int list res" where
  "opt_next_use f t s =
     (let q = pol s in
      if cpte (coremap s ! f) \<noteq> None then
        (case opt_pre q of
           None \<Rightarrow> Ok (opt_memory q)
         | Some g \<Rightarrow>
             opt_update (drop t (opt_addrs q)) t (opt_addrs q ! (t - 1)) g (opt_memory q))
      else Ok (opt_memory q))"

definition opt_ref :: "pteref \<Rightarrow> opt_state sim \<Rightarrow> opt_state sim res" where
  "opt_ref p s =
     (let q = pol s; f = unat (drop_bit PAGE_SHIFT (get_frame s p)) in
      case opt_cur q of
        None \<Rightarrow> Err Null_deref
      | Some t \<Rightarrow>
          if f \<ge> memsize s then Err Out_of_bounds
          else
            res_bind (opt_next_use f t s) (\<lambda>mem.
              Ok (s\<lparr>pol := q\<lparr>opt_memory := mem, opt_pre := Some f,
                  opt_cur := (if Suc t < opt_items q then Some (Suc t) else None)\<rparr>\<rparr>)))"

text \<open>
  The two passes of \<open>opt_init\<close> over the file: count the lines, then read one item per \<open>fgetc\<close> and
  \<open>fscanf\<close>.  \<open>fscanf\<close> stores 32 bits into the 64-bit field \<open>addr\<close>; \<open>junk\<close> is what the blocks of
  \<open>malloc\<close> hold.
\<close>

function count_newlines :: "string \<Rightarrow> nat" where
  "count_newlines s =
     (case fgetc s of None \<Rightarrow> 0
      | Some (c, r) \<Rightarrow> (if c = newline then Suc (count_newlines r) else count_newlines r))"
  by pat_completeness auto
termination
  by (relation "measure length") (auto simp: fgetc_def split: list.splits if_splits)

declare count_newlines.simps [simp del]

definition store_low :: "64 word \<Rightarrow> 64 word option \<Rightarrow> 64 word" where
  "store_low old v =
     (case v of None \<Rightarrow> old | Some w \<Rightarrow> (old AND NOT (mask 32)) OR (w AND mask 32))"

function read_items ::
  "nat \<Rightarrow> (nat \<Rightarrow> 64 word) \<Rightarrow> string \<Rightarrow> 64 word list \<Rightarrow> 64 word list res" where
  "read_items lines junk s acc =
     (case fgetc s of None \<Rightarrow> Ok acc
      | Some (c, r) \<Rightarrow>
          let v = fst (snd (scan_c_hex r)); r' = snd (snd (scan_c_hex r)) in
          if length acc \<ge> lines then Err Out_of_bounds
          else read_items lines junk r' (acc @ [store_low (junk (length acc)) v]))"
  by pat_completeness auto
termination
proof (relation "measure (\<lambda>(lines, junk, s, acc). length s)", goal_cases)
  case (2 lines junk s acc)
  then have "length s = Suc (length (snd (the (fgetc s))))"
    by (auto simp: fgetc_def split: list.splits if_splits)
  then show ?case
    using scan_c_hex_length [of "snd (the (fgetc s))"] 2 by (auto simp: le_imp_less_Suc)
qed simp

declare read_items.simps [simp del]

definition opt_init ::
  "string \<Rightarrow> (nat \<Rightarrow> 64 word) \<Rightarrow> opt_state sim \<Rightarrow> opt_state sim res" where
  "opt_init file junk s =
     (let lines = Suc (count_newlines file) in
      res_bind (read_items lines junk file []) (\<lambda>as.
        Ok (s\<lparr>pol := \<lparr>opt_addrs = as @ map junk [length as..<lines], opt_items = length as,
          opt_cur = Some 0, opt_pre = None, opt_memory = replicate (memsize s) (- 1)\<rparr>\<rparr>)))"

subsection \<open>The victim\<close>

text \<open>A frame with a page that is never used again, the lowest one, if there is such a frame.\<close>

lemma opt_scan_never:
  assumes "i < length xs" and "fst (xs ! i) = - 1" and "snd (xs ! i) \<noteq> None"
    and "\<forall>j < i. \<not> (fst (xs ! j) = - 1 \<and> snd (xs ! j) \<noteq> None)"
  shows "opt_scan xs k mx e = k + i"
  using assms
proof (induction xs arbitrary: i k mx e)
  case (Cons x xs)
  obtain m p where x: "x = (m, p)" by (cases x)
  show ?case
  proof (cases i)
    case 0
    then show ?thesis using Cons.prems x by simp
  next
    case (Suc i')
    have "\<not> (m = - 1 \<and> p \<noteq> None)"
      using Cons.prems(4) Suc x by (metis fst_conv nth_Cons_0 snd_conv zero_less_Suc)
    moreover have "\<forall>j < i'. \<not> (fst (xs ! j) = - 1 \<and> snd (xs ! j) \<noteq> None)"
      using Cons.prems(4) Suc by (metis Suc_less_eq nth_Cons_Suc)
    ultimately show ?thesis
      using Cons.IH [of i' "Suc k"] Cons.prems(1-3) Suc x by auto
  qed
qed simp

text \<open>Otherwise the frame whose page is used last.\<close>

lemma opt_scan_max:
  assumes "\<forall>x \<in> set xs. \<not> (fst x = - 1 \<and> snd x \<noteq> None)"
  shows "(opt_scan xs k mx e = e \<and> (\<forall>x \<in> set xs. fst x \<le> mx)) \<or>
    (\<exists>i < length xs. opt_scan xs k mx e = k + i \<and> mx < fst (xs ! i) \<and>
      (\<forall>x \<in> set xs. fst x \<le> fst (xs ! i)))"
  using assms
proof (induction xs arbitrary: k mx e)
  case (Cons x xs)
  obtain m p where x: "x = (m, p)" by (cases x)
  have c: "\<not> (m = - 1 \<and> p \<noteq> None)" and rest: "\<forall>x \<in> set xs. \<not> (fst x = - 1 \<and> snd x \<noteq> None)"
    using Cons.prems x by auto
  show ?case
  proof (cases "m > mx")
    case True
    have eq: "opt_scan (x # xs) k mx e = opt_scan xs (Suc k) m k"
      using True c x by auto
    consider "opt_scan xs (Suc k) m k = k" "\<forall>x \<in> set xs. fst x \<le> m"
      | i where "i < length xs" "opt_scan xs (Suc k) m k = Suc k + i" "m < fst (xs ! i)"
        "\<forall>x \<in> set xs. fst x \<le> fst (xs ! i)"
      using Cons.IH [OF rest, of "Suc k" m k] by blast
    then show ?thesis
    proof cases
      case 1
      then show ?thesis using True eq x by (intro disjI2 exI [of _ 0]) auto
    next
      case (2 i)
      then show ?thesis using True eq x by (intro disjI2 exI [of _ "Suc i"]) auto
    qed
  next
    case False
    have eq: "opt_scan (x # xs) k mx e = opt_scan xs (Suc k) mx e"
      using False c x by auto
    consider "opt_scan xs (Suc k) mx e = e" "\<forall>x \<in> set xs. fst x \<le> mx"
      | i where "i < length xs" "opt_scan xs (Suc k) mx e = Suc k + i" "mx < fst (xs ! i)"
        "\<forall>x \<in> set xs. fst x \<le> fst (xs ! i)"
      using Cons.IH [OF rest, of "Suc k" mx e] by blast
    then show ?thesis
    proof cases
      case 1
      then show ?thesis using False eq x by auto
    next
      case (2 i)
      then show ?thesis using False eq x by (intro disjI2 exI [of _ "Suc i"]) auto
    qed
  qed
qed simp

lemma opt_scan_nonneg:
  assumes "xs \<noteq> []" and "\<forall>x \<in> set xs. 0 \<le> fst x"
  obtains i where "i < length xs" and "opt_scan xs 0 (- 1) 0 = i" and "\<forall>x \<in> set xs. fst x \<le> fst (xs ! i)"
proof -
  have "\<forall>x \<in> set xs. \<not> (fst x = - 1 \<and> snd x \<noteq> None)"
    using assms(2) by fastforce
  moreover have "\<not> (\<forall>x \<in> set xs. fst x \<le> - 1)"
    using assms by (cases xs) auto
  ultimately show ?thesis
    using opt_scan_max [of xs 0 "- 1" 0] that by auto
qed

lemma opt_scan_less:
  assumes "e < k + length xs"
  shows "opt_scan xs k mx e < k + length xs"
  using assms
proof (induction xs arbitrary: k mx e)
  case (Cons x xs)
  then show ?case
    using Cons.IH [of k "Suc k"] Cons.IH [of e "Suc k"] by (cases x) auto
qed simp

definition next_uses_ok :: "nat \<Rightarrow> bool \<Rightarrow> opt_state \<Rightarrow> bool" where
  "next_uses_ok n full q \<longleftrightarrow> length (opt_memory q) = n"

lemma opt_update_length: "opt_update bs j a f mem = Ok mem' \<Longrightarrow> length mem' = length mem"
  by (induction bs j a f mem rule: opt_update.induct) (auto simp: Let_def split: if_splits)

lemma opt_update_other:
  "opt_update bs j a f mem = Ok mem' \<Longrightarrow> g \<noteq> f \<Longrightarrow> mem' ! g = mem ! g"
  by (induction bs j a f mem rule: opt_update.induct) (auto simp: Let_def split: if_splits)

text \<open>Only the entry of the previous reference's frame can change.\<close>

lemma opt_next_use_frame:
  assumes "opt_next_use f t s = Ok mem"
  shows "length mem = length (opt_memory (pol s))"
    and "opt_pre (pol s) \<noteq> Some g \<Longrightarrow> mem ! g = opt_memory (pol s) ! g"
  using assms opt_update_length opt_update_other
  by (auto simp: opt_next_use_def Let_def split: if_splits option.splits)

lemma opt_ref_memory:
  assumes "opt_ref p s = Ok s'"
  obtains t mem c where "opt_next_use (frame_no (get_frame s p)) t s = Ok mem"
    and "s' = s\<lparr>pol := (pol s)\<lparr>opt_memory := mem, opt_pre := Some (frame_no (get_frame s p)),
      opt_cur := c\<rparr>\<rparr>"
proof -
  have fr: "unat (drop_bit PAGE_SHIFT (get_frame s p)) = frame_no (get_frame s p)"
    by (simp add: frame_no_def PAGE_SHIFT_def)
  show ?thesis
    using assms that unfolding opt_ref_def Let_def fr
    by (cases "opt_cur (pol s)") (auto split: if_split_asm)
qed

interpretation opt: replacement opt_evict opt_ref next_uses_ok
proof
  fix s s' :: "opt_state sim" and f
  assume s: "mm_inv s" "next_uses_ok (memsize s) True (pol s)" and e: "opt_evict s = Ok (f, s')"
  have "0 < memsize s" using repD(1) [of s "{}"] s(1) by (simp add: mm_inv_def)
  then show "f < memsize s \<and> only_ref_bits s s' \<and> next_uses_ok (memsize s) True (pol s')"
    using e s(2) opt_scan_less [of 0 0 "zip (opt_memory (pol s)) (map cpte (coremap s))" "- 1"]
    by (auto simp: opt_evict_def Let_def next_uses_ok_def memsize_def split: if_splits)
next
  fix s s' :: "opt_state sim" and p g
  assume s: "next_uses_ok (memsize s) (mem_full s) (pol s)" and r: "opt_ref p s = Ok s'"
  obtain t mem c where m: "opt_next_use (frame_no (get_frame s p)) t s = Ok mem"
    "s' = s\<lparr>pol := (pol s)\<lparr>opt_memory := mem, opt_pre := Some (frame_no (get_frame s p)),
      opt_cur := c\<rparr>\<rparr>"
    using opt_ref_memory [OF r] .
  then show "only_ref_bits s s' \<and> next_uses_ok (memsize s) (mem_full s) (pol s')"
    using s opt_next_use_frame(1) [OF m(1)] by (simp add: next_uses_ok_def)
qed (auto simp: next_uses_ok_def)

subsection \<open>Properties\<close>

text \<open>
  C27. \<open>opt_evict\<close> on full memory: if \<open>memory\<close> says of some frame that its page is not used again,
  the lowest such frame is the victim; otherwise the victim is a frame whose next use is farthest.
\<close>

theorem opt_evicts_farthest:
  assumes "mm_inv s" and "mem_full s" and "length (opt_memory (pol s)) = memsize s"
    and "\<forall>m \<in> set (opt_memory (pol s)). - 1 \<le> m"
  shows "\<exists>f. opt_evict s = Ok (f, s) \<and> f < memsize s \<and>
    (opt_memory (pol s) ! f = - 1 \<and> (\<forall>k < f. opt_memory (pol s) ! k \<noteq> - 1) \<or>
     (\<forall>k < memsize s. 0 \<le> opt_memory (pol s) ! k \<and> opt_memory (pol s) ! k \<le> opt_memory (pol s) ! f))"
proof -
  let ?m = "opt_memory (pol s)" and ?n = "memsize s"
  define xs where "xs = zip ?m (map cpte (coremap s))"
  have len: "length xs = ?n"
    using assms(3) by (simp add: xs_def memsize_def)
  have nth: "fst (xs ! k) = ?m ! k \<and> snd (xs ! k) \<noteq> None" if "k < ?n" for k
    using that assms(1-3) repD(5) [of s "{}" k]
    by (auto simp: xs_def memsize_def mm_inv_def mem_full_def)
  have ev: "opt_evict s = Ok (opt_scan xs 0 (- 1) 0, s)"
    using assms(3) by (simp add: opt_evict_def xs_def)
  show ?thesis
  proof (cases "\<exists>k < ?n. ?m ! k = - 1")
    case True
    then obtain i where i: "i < ?n" "?m ! i = - 1" "\<forall>j < i. ?m ! j \<noteq> - 1"
      using exists_least_iff [of "\<lambda>k. k < ?n \<and> ?m ! k = - 1"] by (metis order_less_trans)
    have "\<forall>j < i. \<not> (fst (xs ! j) = - 1 \<and> snd (xs ! j) \<noteq> None)"
    proof (intro allI impI)
      fix j
      assume j: "j < i"
      then have "j < ?n" using i(1) by simp
      from nth [OF this] i(3) j show "\<not> (fst (xs ! j) = - 1 \<and> snd (xs ! j) \<noteq> None)" by simp
    qed
    then have "opt_scan xs 0 (- 1) 0 = i"
      using opt_scan_never [of i xs 0 "- 1" 0] i nth [OF i(1)] len by simp
    then show ?thesis using ev i by auto
  next
    case False
    have pos: "0 \<le> ?m ! k" if "k < ?n" for k
    proof -
      have "?m ! k \<noteq> - 1" "- 1 \<le> ?m ! k"
        using that False assms(3,4) by auto
      then show ?thesis by linarith
    qed
    have "0 < ?n"
      using repD(1) [of s "{}"] assms(1) by (simp add: mm_inv_def)
    then have "xs \<noteq> []" "\<forall>x \<in> set xs. 0 \<le> fst x"
      using len pos nth by (auto simp: all_set_conv_all_nth)
    then obtain i where "i < length xs" "opt_scan xs 0 (- 1) 0 = i" "\<forall>x \<in> set xs. fst x \<le> fst (xs ! i)"
      using opt_scan_nonneg by blast
    then show ?thesis
      using ev len pos nth by (intro exI [of _ i]) (auto simp: all_set_conv_all_nth)
  qed
qed

definition opt_sample :: "int \<Rightarrow> opt_state" where
  "opt_sample m = \<lparr>opt_addrs = [0, 0], opt_items = 2, opt_cur = Some 1, opt_pre = Some 0, opt_memory = [m]\<rparr>"

theorem opt_evicts_farthest_witness:
  "\<exists>f. opt_evict (one_page (opt_sample 7)) = Ok (f, one_page (opt_sample 7)) \<and> f < 1"
  using opt_evicts_farthest [of "one_page (opt_sample 7)"] by (auto simp: one_page opt_sample_def)

text \<open>
  C28. \<open>opt_ref\<close> records the next use of a page one reference late.  A page that was loaded into a
  frame with \<open>memory\<close> entry \<open>-1\<close> still has that entry after its own reference, and is then the
  next victim (when no lower frame has \<open>-1\<close>), however soon the trace uses it again.
\<close>

theorem opt_evicts_newest_page:
  assumes "opt_ref p s = Ok s'" and "mm_inv s" and "mapped s p f"
    and "length (opt_memory (pol s)) = memsize s"
    and "opt_memory (pol s) ! f = - 1" and "opt_pre (pol s) \<noteq> Some f"
    and "\<forall>k < f. opt_memory (pol s') ! k \<noteq> - 1"
  shows "opt_evict s' = Ok (f, s')"
proof -
  have fr: "frame_no (get_frame s p) = f" and own: "f < memsize s" "cpte (coremap s ! f) = Some p"
    using assms(2,3) repD(4) [of s "{}" p f] by (auto simp: mapped_def mm_inv_def)
  obtain t mem c where m: "opt_next_use f t s = Ok mem"
    "s' = s\<lparr>pol := (pol s)\<lparr>opt_memory := mem, opt_pre := Some f, opt_cur := c\<rparr>\<rparr>"
    using opt_ref_memory [OF assms(1)] fr by auto
  have mem: "length mem = memsize s" "mem ! f = - 1" "opt_memory (pol s') = mem"
    using opt_next_use_frame [OF m(1)] assms(4-6) by (auto simp: m(2))
  have "opt_scan (zip mem (map cpte (coremap s))) 0 (- 1) 0 = 0 + f"
    by (rule opt_scan_never) (use mem own assms(7) in \<open>auto simp: memsize_def\<close>)
  then show ?thesis
    using mem by (simp add: opt_evict_def m(2) memsize_def)
qed

definition opt_first :: opt_state where
  "opt_first = \<lparr>opt_addrs = [0, 0], opt_items = 2, opt_cur = Some 0, opt_pre = None, opt_memory = [- 1]\<rparr>"

lemma opt_first_ref:
  "opt_ref (0, 1) (one_page opt_first) =
    Ok ((one_page opt_first)\<lparr>pol := opt_first\<lparr>opt_pre := Some 0, opt_cur := Some 1\<rparr>\<rparr>)"
proof -
  have "unat (drop_bit PAGE_SHIFT (get_frame (one_page opt_first) (0, 1))) = 0"
    using one_page(5) [of opt_first] by (simp add: mapped_def frame_no_def PAGE_SHIFT_def)
  then show ?thesis
    by (simp add: opt_ref_def opt_next_use_def one_page(3,4,6) opt_first_def)
qed

theorem opt_evicts_newest_page_witness:
  "\<exists>s'. opt_ref (0, 1) (one_page opt_first) = Ok s' \<and> opt_evict s' = Ok (0, s')"
  using opt_evicts_newest_page [OF opt_first_ref one_page(1,5)] opt_first_ref
  by (simp add: one_page(3,4) opt_first_def)

end
