(* ===== verification/Sim.thy ===== *)
theory Sim
  imports Clock RandPol Lru Opt
begin

section \<open>The simulator (Assignment2/sim.c)\<close>

text \<open>
  One memory access, the replay of a trace file, the set-up of the data structures and the
  choice of the algorithm.  What the program prints is what the model returns: the number of
  "simulated page ... does not have expected value" messages and the counters.
\<close>

subsection \<open>Accesses and replay\<close>

definition MAXLINE :: nat where "MAXLINE = 256"

text \<open>\<open>access_mem\<close>; the first result is whether the check of the page's content succeeds.\<close>

definition access_mem ::
  "('p sim \<Rightarrow> (nat \<times> 'p sim) res) \<Rightarrow> (pteref \<Rightarrow> 'p sim \<Rightarrow> 'p sim res) \<Rightarrow>
   char \<Rightarrow> 64 word \<Rightarrow> 'p sim \<Rightarrow> (bool \<times> 'p sim) res" where
  "access_mem evict ref type vaddr s =
     res_bind (find_physpage evict ref vaddr type s) (\<lambda>(memptr, s).
       let ok = (rd64 (physmem s) (memptr + 4) = vaddr) in
       Ok (ok, if is_write type
               then s\<lparr>physmem := wr32 memptr (rd32 (physmem s) memptr + 1) (physmem s)\<rparr> else s))"

lemma fgets_rest_shorter:
  assumes "s \<noteq> []"
  shows "length (snd (fgets (MAXLINE - 1) s)) < length s"
proof -
  have "fst (fgets (Suc 254) s) \<noteq> []"
    using fgets_nonempty [OF assms] .
  moreover have "s = fst (fgets (Suc 254) s) @ snd (fgets (Suc 254) s)"
    using fgets_append [of "Suc 254" s] by (metis prod.collapse)
  ultimately have "length (snd (fgets (Suc 254) s)) < length s"
    by (metis length_append length_greater_0_conv less_add_same_cancel2)
  moreover have "MAXLINE - 1 = Suc 254" by (simp add: MAXLINE_def)
  ultimately show ?thesis by (simp only:)
qed

text \<open>
  \<open>replay_trace\<close>: \<open>type\<close> and \<open>vaddr\<close> keep their values when \<open>sscanf\<close> fails, \<open>errs\<close> counts the
  messages.
\<close>

function replay_trace ::
  "('p sim \<Rightarrow> (nat \<times> 'p sim) res) \<Rightarrow> (pteref \<Rightarrow> 'p sim \<Rightarrow> 'p sim res) \<Rightarrow>
   string \<Rightarrow> char \<Rightarrow> 64 word \<Rightarrow> nat \<Rightarrow> 'p sim \<Rightarrow> (nat \<times> 'p sim) res" where
  "replay_trace evict ref input type vaddr errs s =
     (if input = [] then Ok (errs, s)
      else
        let buf = fst (fgets (MAXLINE - 1) input); rest = snd (fgets (MAXLINE - 1) input) in
        if hd buf \<noteq> CHR ''='' then
          let sc = scan_c_hex (takeWhile (\<lambda>c. c \<noteq> CHR 0x00) buf);
              type = (case fst sc of None \<Rightarrow> type | Some c \<Rightarrow> c);
              vaddr = (case fst (snd sc) of None \<Rightarrow> vaddr | Some v \<Rightarrow> v) in
          res_bind (access_mem evict ref type vaddr s) (\<lambda>r.
            replay_trace evict ref rest type vaddr (if fst r then errs else Suc errs) (snd r))
        else replay_trace evict ref rest type vaddr errs s)"
  by pat_completeness auto

termination
  by (relation "measure (\<lambda>(evict, ref, input, type, vaddr, errs, s). length input)")
    (auto intro: fgets_rest_shorter simp del: One_nat_def)

declare replay_trace.simps [simp del]

subsection \<open>Runs\<close>

text \<open>\<open>main\<close> after its arguments are read.\<close>

definition sim_run ::
  "('p sim \<Rightarrow> 'p sim res) \<Rightarrow> ('p sim \<Rightarrow> (nat \<times> 'p sim) res) \<Rightarrow> (pteref \<Rightarrow> 'p sim \<Rightarrow> 'p sim res) \<Rightarrow>
   nat \<Rightarrow> 32 word \<Rightarrow> nat \<Rightarrow> nat \<Rightarrow> mem \<Rightarrow> char \<Rightarrow> string \<Rightarrow> 'p \<Rightarrow> (nat \<times> 'p sim) res" where
  "sim_run init evict ref n swapsize room tables junk type input q =
     res_bind (swap_init True True True room swapsize) (\<lambda>sw.
     res_bind (init (sim_start n tables junk sw q)) (\<lambda>s.
       replay_trace evict ref input type 0 0 s))"

text \<open>The table \<open>algs\<close> and the search in it.\<close>

datatype alg = Rand | Lru | Fifo | Clock | Opt

definition algs :: "(string \<times> alg) list" where
  "algs = [(''rand'', Rand), (''lru'', Lru), (''fifo'', Fifo), (''clock'', Clock), (''opt'', Opt)]"

definition choose_alg :: "string option \<Rightarrow> alg res" where
  "choose_alg name =
     (case name of None \<Rightarrow> Err (Exit 1)
      | Some a \<Rightarrow> (case map_of algs a of None \<Rightarrow> Err (Exit 1) | Some x \<Rightarrow> Ok x))"

text \<open>The five counters that \<open>main\<close> prints: hits, misses, clean and dirty evictions, references.\<close>

definition sim_counts :: "'p sim \<Rightarrow> nat list" where
  "sim_counts s = [hit_count s, miss_count s, evict_clean_count s, evict_dirty_count s, ref_count s]"

definition sim_main ::
  "string option \<Rightarrow> nat \<Rightarrow> 32 word \<Rightarrow> nat \<Rightarrow> nat \<Rightarrow> mem \<Rightarrow> char \<Rightarrow> string \<Rightarrow>
   random_state \<Rightarrow> lru_state \<Rightarrow> opt_state \<Rightarrow> nat \<Rightarrow> (nat \<Rightarrow> 64 word) \<Rightarrow> (nat \<times> nat list) res" where
  "sim_main name n swapsize room tables junk type input rq lq oq fq words =
     res_bind (choose_alg name) (\<lambda>a. case a of
         Rand \<Rightarrow> res_bind (sim_run rand_init rand_evict rand_ref n swapsize room tables junk type input rq)
             (\<lambda>(errs, s). Ok (errs, sim_counts s))
       | Lru \<Rightarrow> res_bind (sim_run lru_init lru_evict lru_ref n swapsize room tables junk type input lq)
             (\<lambda>(errs, s). Ok (errs, sim_counts s))
       | Fifo \<Rightarrow> res_bind (sim_run fifo_init fifo_evict fifo_ref n swapsize room tables junk type input fq)
             (\<lambda>(errs, s). Ok (errs, sim_counts s))
       | Clock \<Rightarrow> res_bind (sim_run clock_init clock_evict clock_ref n swapsize room tables junk type input fq)
             (\<lambda>(errs, s). Ok (errs, sim_counts s))
       | Opt \<Rightarrow> res_bind (sim_run (opt_init input words) opt_evict opt_ref n swapsize room tables junk type
             input oq) (\<lambda>(errs, s). Ok (errs, sim_counts s)))"

subsection \<open>Counters\<close>

text \<open>
  \<open>fills s\<close>: how often a frame has been filled, as the frames in use and the evictions tell it.
\<close>

definition fills :: "'p sim \<Rightarrow> nat" where
  "fills s = length (filter in_use (coremap s)) + evict_clean_count s + evict_dirty_count s"

definition counts_ok :: "'p sim \<Rightarrow> bool" where
  "counts_ok s \<longleftrightarrow> hit_count s + miss_count s = ref_count s \<and> miss_count s = fills s"

lemma filter_update_same:
  "i < length xs \<Longrightarrow> P (xs ! i) = P x \<Longrightarrow> length (filter P (xs[i := x])) = length (filter P xs)"
  by (induction xs arbitrary: i) (auto split: nat.splits)

lemma filter_update_new:
  "i < length xs \<Longrightarrow> \<not> P (xs ! i) \<Longrightarrow> P x \<Longrightarrow>
    length (filter P (xs[i := x])) = Suc (length (filter P xs))"
  by (induction xs arbitrary: i) (auto split: nat.splits)

lemma only_ref_bits_fills: "only_ref_bits s s' \<Longrightarrow> fills s' = fills s"
  by (simp add: only_ref_bits_def fills_def)

lemma set_frame_fills [simp]: "fills (set_frame p w s) = fills s"
  by (simp add: fills_def)

context replacement
begin

lemma allocate_frame_fills:
  assumes "sim_inv pinv s" and "allocate_frame evict p s = Ok (f, s')"
  shows "fills s' = Suc (fills s)"
proof (cases "find_free_frame (coremap s) 0")
  case (Some g)
  then have g: "g < length (coremap s)" "\<not> in_use (coremap s ! g)"
    using find_free_frame_Some by fastforce+
  then show ?thesis
    using assms(2) Some by (auto simp: allocate_frame_def fills_def filter_update_new)
next
  case None
  then have full: "mem_full s"
    by (simp add: mem_full_def find_free_frame_None)
  obtain s1 s2 where ev: "evict s = Ok (f, s1)" "evict_page f s1 = Ok s2"
    "s' = s2\<lparr>coremap := (coremap s2)[f := \<lparr>in_use = True, cpte = Some p\<rparr>]\<rparr>"
    using assms(2) None by (auto simp: allocate_frame_def)
  have e: "f < memsize s" "only_ref_bits s s1"
    using evict_law [OF _ full _ ev(1)] assms(1) full by (auto simp: sim_inv_def)
  have u: "rep s1 {}" "f < memsize s1" "in_use (coremap s1 ! f)"
    using only_ref_bits_rep [OF e(2)] only_ref_bits_coremap [OF e(2)] assms(1) e(1) full
    by (auto simp: sim_inv_def mm_inv_def mem_full_iff)
  have s2: "coremap s2 = coremap s1"
    "evict_clean_count s2 + evict_dirty_count s2 = Suc (evict_clean_count s1 + evict_dirty_count s1)"
    using evict_page_spec [OF u] ev(2) by auto
  have "fills s' = Suc (fills s1)"
    using s2 u(2,3) filter_update_same [of f "coremap s1" in_use] by (simp add: ev(3) fills_def memsize_def)
  then show ?thesis using only_ref_bits_fills [OF e(2)] by simp
qed

lemma find_physpage_counts:
  assumes "sim_inv pinv s" and "find_physpage evict ref v type s = Ok (addr, s')" and "counts_ok s"
  shows "counts_ok s'"
proof -
  let ?p = "pte_ptr v"
  obtain s1 s2 where idx: "fst ?p < PTRS_PER_PGDIR" and s1: "table_for (fst ?p) s = Ok s1"
    and s2: "hit_or_miss evict v (s1\<lparr>ref_count := Suc (ref_count s1)\<rparr>) = Ok s2"
    and s3: "ref ?p (set_frame ?p (touch type (get_frame s2 ?p)) s2) = Ok s'"
    using assms(2) unfolding find_physpage_eq by (auto split: if_splits)
  note i1 = table_for_inv [OF assms(1) idx s1]
  let ?s1 = "s1\<lparr>ref_count := Suc (ref_count s1)\<rparr>"
  let ?s2 = "set_frame ?p (touch type (get_frame s2 ?p)) s2"
  have inv: "sim_inv pinv ?s1" "is_pte ?s1 ?p"
    using i1 rep_cong [of ?s1 s1 "{}"]
    by (auto simp: sim_inv_def mm_inv_def memsize_def mem_full_def is_pte_def)
  obtain f where i2: "sim_inv pinv ?s2" "mapped ?s2 ?p f"
    using hit_or_miss_inv [OF inv s2 refl] by blast
  have orb: "only_ref_bits ?s2 s'"
    using ref_law [OF _ i2(2) _ s3] i2(1) by (auto simp: sim_inv_def)
  have s': "fills s' = fills s2" "hit_count s' = hit_count s2" "miss_count s' = miss_count s2"
    "ref_count s' = ref_count s2"
    using only_ref_bits_fills [OF orb] orb by (simp_all add: only_ref_bits_def keeps_def)
  have s1': "fills ?s1 = fills s" "hit_count ?s1 = hit_count s" "miss_count ?s1 = miss_count s"
    "ref_count ?s1 = Suc (ref_count s)"
    using s1 by (auto simp: table_for_def init_second_level_def fills_def split: if_splits)
  show ?thesis
  proof (cases "valid (get_frame ?s1 ?p)")
    case True
    then have "s2 = ?s1\<lparr>hit_count := Suc (hit_count ?s1)\<rparr>"
      using s2 by (simp add: hit_or_miss_def)
    then show ?thesis
      using assms(3) s' s1' by (simp add: counts_ok_def fills_def)
  next
    case False
    let ?t = "?s1\<lparr>miss_count := Suc (miss_count ?s1)\<rparr>"
    obtain g t where a: "allocate_frame evict ?p ?t = Ok (g, t)"
      and t: "s2 = (set_frame ?p (push_bit PAGE_SHIFT (word_of_nat g)) t)
        \<lparr>physmem := init_frame g v (physmem t)\<rparr>"
      using s2 False by (auto simp: hit_or_miss_def page_miss_eq Let_def)
    have "sim_inv pinv ?t"
      using inv rep_cong [of ?t ?s1 "{}"]
      by (auto simp: sim_inv_def mm_inv_def memsize_def mem_full_def)
    moreover have "is_pte ?t ?p" "\<not> valid (get_frame ?t ?p)"
      using inv False by (simp_all add: is_pte_def get_frame_def)
    ultimately have "fills t = Suc (fills ?t)" "keeps ?t t"
      using allocate_frame_fills a allocate_frame_claims by blast+
    moreover have "fills ?t = fills ?s1" by (simp add: fills_def)
    moreover have "fills s2 = fills t" by (simp add: t fills_def)
    ultimately show ?thesis
      using assms(3) s' s1' by (simp add: counts_ok_def keeps_def t)
  qed
qed

end

subsection \<open>A replay as a sequence of references\<close>

text \<open>The references of a trace, and the accesses they make, with the text of the trace gone.\<close>

function trace_refs :: "string \<Rightarrow> char \<Rightarrow> 64 word \<Rightarrow> (char \<times> 64 word) list" where
  "trace_refs input type vaddr =
     (if input = [] then []
      else
        let buf = fst (fgets (MAXLINE - 1) input); rest = snd (fgets (MAXLINE - 1) input) in
        if hd buf \<noteq> CHR ''='' then
          let sc = scan_c_hex (takeWhile (\<lambda>c. c \<noteq> CHR 0x00) buf);
              type = (case fst sc of None \<Rightarrow> type | Some c \<Rightarrow> c);
              vaddr = (case fst (snd sc) of None \<Rightarrow> vaddr | Some v \<Rightarrow> v) in
          (type, vaddr) # trace_refs rest type vaddr
        else trace_refs rest type vaddr)"
  by pat_completeness auto
termination
  by (relation "measure (\<lambda>(input, type, vaddr). length input)")
    (auto intro: fgets_rest_shorter simp del: One_nat_def)

declare trace_refs.simps [simp del]

fun run_refs ::
  "('p sim \<Rightarrow> (nat \<times> 'p sim) res) \<Rightarrow> (pteref \<Rightarrow> 'p sim \<Rightarrow> 'p sim res) \<Rightarrow>
   (char \<times> 64 word) list \<Rightarrow> nat \<Rightarrow> 'p sim \<Rightarrow> (nat \<times> 'p sim) res" where
  "run_refs evict ref [] errs s = Ok (errs, s)"
| "run_refs evict ref (r # rs) errs s =
     res_bind (access_mem evict ref (fst r) (snd r) s) (\<lambda>a.
       run_refs evict ref rs (if fst a then errs else Suc errs) (snd a))"

lemma replay_trace_run:
  "replay_trace evict ref input type vaddr errs s = run_refs evict ref (trace_refs input type vaddr) errs s"
proof (induction "length input" arbitrary: input type vaddr errs s rule: less_induct)
  case less
  show ?case
  proof (cases "input = []")
    case True
    then show ?thesis by (simp add: replay_trace.simps trace_refs.simps)
  next
    case False
    note IH = less [OF fgets_rest_shorter [OF False]]
    show ?thesis
      unfolding replay_trace.simps [of evict ref input] trace_refs.simps [of input]
      using False by (simp add: Let_def IH del: One_nat_def)
  qed
qed

definition tables_ok :: "'p sim \<Rightarrow> bool" where
  "tables_ok s \<longleftrightarrow> PTRS_PER_PGDIR \<le> tables_left s + card {i. i < PTRS_PER_PGDIR \<and> pgdir s i}"

lemma tables_ok_available:
  assumes "tables_ok s" and "i < PTRS_PER_PGDIR" and "\<not> pgdir s i"
  shows "0 < tables_left s"
proof (rule ccontr)
  assume "\<not> 0 < tables_left s"
  then have "PTRS_PER_PGDIR \<le> card {i. i < PTRS_PER_PGDIR \<and> pgdir s i}"
    using assms(1) by (simp add: tables_ok_def)
  moreover have "card {i. i < PTRS_PER_PGDIR \<and> pgdir s i} < card {..<PTRS_PER_PGDIR}"
    by (rule psubset_card_mono) (use assms(2,3) in auto)
  ultimately show False by simp
qed

lemma tables_ok_table_for:
  assumes "tables_ok s" and "i < PTRS_PER_PGDIR" and "table_for i s = Ok s'"
  shows "tables_ok s'"
proof (cases "pgdir s i")
  case True
  then show ?thesis using assms by (simp add: table_for_def)
next
  case False
  then have t: "pgdir s' = (pgdir s)(i := True)" "tables_left s' = tables_left s - 1"
    using assms(3) by (auto simp: table_for_def init_second_level_def split: if_splits)
  have "{j. j < PTRS_PER_PGDIR \<and> pgdir s' j} = insert i {j. j < PTRS_PER_PGDIR \<and> pgdir s j}"
    using assms(2) by (auto simp: t)
  then show ?thesis
    using assms(1) tables_ok_available [OF assms(1,2) False] False t(2)
    by (simp add: tables_ok_def)
qed

lemma access_mem_OkE:
  assumes "access_mem evict ref type v s = Ok (ok, s')"
  obtains addr t where "find_physpage evict ref v type s = Ok (addr, t)"
    and "ok = (rd64 (physmem t) (addr + 4) = v)"
    and "s' = (if is_write type
      then t\<lparr>physmem := wr32 addr (rd32 (physmem t) addr + 1) (physmem t)\<rparr> else t)"
  using assms by (auto simp: access_mem_def Let_def split del: if_split)

lemma sim_inv_physmem: "sim_inv pinv (s\<lparr>physmem := m\<rparr>) = sim_inv pinv s"
  using rep_cong [of "s\<lparr>physmem := m\<rparr>" s "{}"] rep_cong [of s "s\<lparr>physmem := m\<rparr>" "{}"]
  by (auto simp: sim_inv_def mm_inv_def memsize_def mem_full_def)

context replacement
begin

lemma find_physpage_tables:
  assumes "sim_inv pinv s" and "find_physpage evict ref v type s = Ok (addr, s')" and "tables_ok s"
  shows "tables_ok s'"
proof -
  let ?p = "pte_ptr v"
  obtain s1 s2 where idx: "fst ?p < PTRS_PER_PGDIR" and s1: "table_for (fst ?p) s = Ok s1"
    and s2: "hit_or_miss evict v (s1\<lparr>ref_count := Suc (ref_count s1)\<rparr>) = Ok s2"
    and s3: "ref ?p (set_frame ?p (touch type (get_frame s2 ?p)) s2) = Ok s'"
    using assms(2) unfolding find_physpage_eq by (auto split: if_splits)
  note i1 = table_for_inv [OF assms(1) idx s1]
  let ?s1 = "s1\<lparr>ref_count := Suc (ref_count s1)\<rparr>"
  let ?s2 = "set_frame ?p (touch type (get_frame s2 ?p)) s2"
  have inv: "sim_inv pinv ?s1" "is_pte ?s1 ?p"
    using i1 rep_cong [of ?s1 s1 "{}"]
    by (auto simp: sim_inv_def mm_inv_def memsize_def mem_full_def is_pte_def)
  obtain f where i2: "sim_inv pinv ?s2" "mapped ?s2 ?p f"
    using hit_or_miss_inv [OF inv s2 refl] by blast
  have "only_ref_bits ?s2 s'"
    using ref_law [OF _ i2(2) _ s3] i2(1) by (auto simp: sim_inv_def)
  then have s': "pgdir s' = pgdir s2" "tables_left s' = tables_left s2"
    by (simp_all add: only_ref_bits_def keeps_def)
  have "pgdir s2 = pgdir ?s1 \<and> tables_left s2 = tables_left ?s1"
  proof (cases "valid (get_frame ?s1 ?p)")
    case True
    then show ?thesis using s2 by (auto simp: hit_or_miss_def)
  next
    case False
    let ?t = "?s1\<lparr>miss_count := Suc (miss_count ?s1)\<rparr>"
    obtain g t where a: "allocate_frame evict ?p ?t = Ok (g, t)"
      and t: "s2 = (set_frame ?p (push_bit PAGE_SHIFT (word_of_nat g)) t)
        \<lparr>physmem := init_frame g v (physmem t)\<rparr>"
      using s2 False by (auto simp: hit_or_miss_def page_miss_eq Let_def)
    have "sim_inv pinv ?t"
      using inv rep_cong [of ?t ?s1 "{}"]
      by (auto simp: sim_inv_def mm_inv_def memsize_def mem_full_def)
    moreover have "is_pte ?t ?p" "\<not> valid (get_frame ?t ?p)"
      using inv False by (simp_all add: is_pte_def get_frame_def)
    ultimately have "keeps ?t t"
      using a allocate_frame_claims by blast
    then show ?thesis by (simp add: keeps_def t)
  qed
  then show ?thesis
    using tables_ok_table_for [OF assms(3) idx s1] s' by (simp add: tables_ok_def)
qed

lemma access_mem_inv:
  assumes "sim_inv pinv s" and "counts_ok s" and "tables_ok s"
    and "access_mem evict ref type v s = Ok (ok, s')"
  shows "sim_inv pinv s' \<and> counts_ok s' \<and> tables_ok s' \<and> memsize s' = memsize s \<and>
    ref_count s' = Suc (ref_count s)"
proof -
  obtain addr t where t: "find_physpage evict ref v type s = Ok (addr, t)"
    "s' = (if is_write type
           then t\<lparr>physmem := wr32 addr (rd32 (physmem t) addr + 1) (physmem t)\<rparr> else t)"
    using access_mem_OkE [OF assms(4)] by metis
  note f = find_physpage_safe [OF assms(1) t(1)] find_physpage_counts [OF assms(1) t(1) assms(2)]
    find_physpage_tables [OF assms(1) t(1) assms(3)]
  then show ?thesis
    by (auto simp: t(2) sim_inv_physmem counts_ok_def fills_def tables_ok_def memsize_def)
qed

lemma run_refs_inv:
  assumes "sim_inv pinv s" and "counts_ok s" and "tables_ok s"
    and "run_refs evict ref rs errs s = Ok (errs', s')"
  shows "sim_inv pinv s' \<and> counts_ok s' \<and> memsize s' = memsize s \<and>
    ref_count s' = ref_count s + length rs \<and> errs' \<le> errs + length rs"
  using assms
proof (induction rs arbitrary: errs s)
  case (Cons r rs)
  obtain ok t where t: "access_mem evict ref (fst r) (snd r) s = Ok (ok, t)"
    "run_refs evict ref rs (if ok then errs else Suc errs) t = Ok (errs', s')"
    using Cons.prems(4) by (auto split del: if_split)
  note i = access_mem_inv [OF Cons.prems(1-3) t(1)]
  then have "sim_inv pinv s' \<and> counts_ok s' \<and> memsize s' = memsize t \<and>
      ref_count s' = ref_count t + length rs \<and> errs' \<le> (if ok then errs else Suc errs) + length rs"
    using Cons.IH [OF _ _ _ t(2)] by blast
  then show ?case using i by (cases ok) auto
qed simp

end

context live_replacement
begin

lemma run_refs_total:
  assumes "sim_inv pinv s" and "counts_ok s" and "tables_ok s"
    and "\<forall>r \<in> set rs. snd r < 2 ^ 36"
  shows "\<exists>res. run_refs evict ref rs errs s = Ok res"
  using assms
proof (induction rs arbitrary: errs s)
  case (Cons r rs)
  have idx: "fst (pte_ptr (snd r)) < PTRS_PER_PGDIR"
    by (intro pte_ptr_in_directory bspec [OF Cons.prems(4)]) simp
  have "pgdir s (fst (pte_ptr (snd r))) \<or> 0 < tables_left s"
    using tables_ok_available [OF Cons.prems(3) idx] by argo
  then obtain addr t where "find_physpage evict ref (snd r) (fst r) s = Ok (addr, t)"
    using find_physpage_total [OF Cons.prems(1) idx] by (metis prod.exhaust)
  then obtain ok t' where t: "access_mem evict ref (fst r) (snd r) s = Ok (ok, t')"
    by (auto simp: access_mem_def Let_def)
  have "\<exists>res. run_refs evict ref rs (if ok then errs else Suc errs) t' = Ok res"
    using Cons.IH access_mem_inv [OF Cons.prems(1-3) t] Cons.prems(4) by simp
  then show ?case using t by simp
qed simp

end

subsection \<open>The first state\<close>

lemma start_state:
  assumes "0 < n" and "n \<le> 2 ^ 20" and "swap_ok sw" and "4096 \<le> tables"
    and "s = (sim_start n tables junk sw q)\<lparr>pol := q'\<rparr>"
  shows "mm_inv s" and "counts_ok s" and "tables_ok s" and "memsize s = n" and "ref_count s = 0"
    and "pol s = q'" and "\<not> mem_full s"
proof -
  show "mm_inv s"
    unfolding mm_inv_def
    by (rule rep_cong [OF _ _ _ _ rep_sim_start [OF assms(1-3), of tables junk q]])
      (simp_all add: assms(5))
  show "counts_ok s" "tables_ok s" "memsize s = n" "ref_count s = 0" "pol s = q'" "\<not> mem_full s"
    using assms(1,4) by (auto simp: assms(5) counts_ok_def tables_ok_def fills_def sim_start_def
        init_pagetable_def memsize_def mem_full_def PTRS_PER_PGDIR_def)
qed

end
