(* ===== verification/SimRun.thy ===== *)
theory SimRun
  imports Sim
begin

section \<open>Whole runs of the simulator\<close>

text \<open>
  The theorems on runs, from the empty memory to the printed counters, for each algorithm.  They
  are instances, by the interpretations of \<open>live_replacement\<close> and \<open>replacement\<close>, of lemmas that do
  not depend on the algorithm.
\<close>

subsection \<open>Runs of any algorithm\<close>

lemma live_run:
  assumes "live_replacement evict ref pinv" and "pinv n False q'"
    and "\<And>s. pol s = q \<Longrightarrow> memsize s = n \<Longrightarrow> init s = Ok (s\<lparr>pol := q'\<rparr>)"
    and "0 < n" and "n \<le> 2 ^ 20" and "unat swapsize \<le> 2 ^ 27" and "4096 \<le> tables"
    and "\<forall>r \<in> set (trace_refs input type 0). snd r < 2 ^ 36"
  shows "\<exists>errs s. sim_run init evict ref n swapsize room tables junk type input q = Ok (errs, s) \<and>
    sim_inv pinv s \<and> memsize s = n \<and> ref_count s = length (trace_refs input type 0) \<and>
    hit_count s + miss_count s = ref_count s \<and> miss_count s = fills s \<and> errs \<le> ref_count s"
proof -
  have repl: "replacement evict ref pinv"
    using assms(1) by (simp add: live_replacement_def)
  obtain sw where sw: "swap_init True True True room swapsize = Ok sw" "swap_ok sw"
    using swap_init_ok [OF assms(6)] .
  let ?s0 = "sim_start n tables junk sw q"
  define s where "s = ?s0\<lparr>pol := q'\<rparr>"
  have init: "init ?s0 = Ok s"
    unfolding s_def by (rule assms(3)) (simp_all add: sim_start_def init_pagetable_def memsize_def)
  note st = start_state [OF assms(4,5) sw(2) assms(7) s_def]
  have inv: "sim_inv pinv s"
    using st assms(2) by (simp add: sim_inv_def)
  obtain errs t where run: "run_refs evict ref (trace_refs input type 0) 0 s = Ok (errs, t)"
    using live_replacement.run_refs_total [OF assms(1) inv st(2,3) assms(8), of 0]
    by (metis prod.exhaust)
  have "sim_run init evict ref n swapsize room tables junk type input q = Ok (errs, t)"
    using sw(1) init run by (simp add: sim_run_def replay_trace_run)
  moreover note replacement.run_refs_inv [OF repl inv st(2,3) run]
  ultimately show ?thesis
    using st by (auto simp: counts_ok_def)
qed

lemma safe_run:
  assumes "replacement evict ref pinv" and "pinv n False q'"
    and "init (sim_start n tables junk sw q) = Ok ((sim_start n tables junk sw q)\<lparr>pol := q'\<rparr>)"
    and "0 < n" and "n \<le> 2 ^ 20" and "swap_init True True True room swapsize = Ok sw"
    and "unat swapsize \<le> 2 ^ 27" and "4096 \<le> tables"
    and "sim_run init evict ref n swapsize room tables junk type input q = Ok (errs, s)"
  shows "sim_inv pinv s \<and> memsize s = n \<and> ref_count s = length (trace_refs input type 0) \<and>
    hit_count s + miss_count s = ref_count s \<and> miss_count s = fills s \<and> errs \<le> ref_count s"
proof -
  have sw: "swap_ok sw"
    using swap_init_ok [OF assms(7), of room] assms(6) by auto
  define s0 where "s0 = (sim_start n tables junk sw q)\<lparr>pol := q'\<rparr>"
  note st = start_state [OF assms(4,5) sw assms(8) s0_def]
  have inv: "sim_inv pinv s0"
    using st assms(2) by (simp add: sim_inv_def)
  have "run_refs evict ref (trace_refs input type 0) 0 s0 = Ok (errs, s)"
    using assms(3,6,9) by (simp add: sim_run_def replay_trace_run s0_def)
  from replacement.run_refs_inv [OF assms(1) inv st(2,3) this] show ?thesis
    using st by (auto simp: counts_ok_def)
qed

subsection \<open>Properties\<close>

text \<open>A small trace: a read, a comment, a write and a read of another page.\<close>

definition small_trace :: string where
  "small_trace = ''I 10'' @ newline # ''==7== x'' @ newline # ''S 10'' @ newline # ''L 2020'' @ newline # []"

lemma trace_refs_line:
  assumes "l \<noteq> []" and "newline \<notin> set l" and "CHR 0x00 \<notin> set l" and "length l < 255"
  shows "trace_refs (l @ newline # rest) type vaddr =
    (if hd l \<noteq> CHR ''='' then
       let sc = scan_c_hex (l @ [newline]);
           type = (case fst sc of None \<Rightarrow> type | Some c \<Rightarrow> c);
           vaddr = (case fst (snd sc) of None \<Rightarrow> vaddr | Some v \<Rightarrow> v) in
       (type, vaddr) # trace_refs rest type vaddr
     else trace_refs rest type vaddr)"
proof -
  have "fgets (MAXLINE - 1) (l @ newline # rest) = (l @ [newline], rest)"
    by (rule fgets_line) (use assms in \<open>simp_all add: MAXLINE_def\<close>)
  moreover have "takeWhile (\<lambda>c. c \<noteq> CHR 0x00) (l @ [newline]) = l @ [newline]"
    using assms(3) by (auto simp: takeWhile_eq_all_conv newline_def)
  ultimately show ?thesis
    using assms(1) by (subst trace_refs.simps) (simp add: Let_def del: One_nat_def)
qed

lemma small_trace_refs:
  "trace_refs small_trace CHR ''I'' 0 = [(CHR ''I'', 0x10), (CHR ''S'', 0x10), (CHR ''L'', 0x2020)]"
proof -
  have scan: "scan_c_hex [CHR ''I'', CHR '' '', CHR ''1'', CHR ''0'', CHR 0x0A] =
      (Some CHR ''I'', Some 0x10, [CHR 0x0A])"
    "scan_c_hex [CHR ''S'', CHR '' '', CHR ''1'', CHR ''0'', CHR 0x0A] =
      (Some CHR ''S'', Some 0x10, [CHR 0x0A])"
    "scan_c_hex [CHR ''L'', CHR '' '', CHR ''2'', CHR ''0'', CHR ''2'', CHR ''0'', CHR 0x0A] =
      (Some CHR ''L'', Some 0x2020, [CHR 0x0A])"
    by (simp_all add: scan_c_hex_def scan_hex_def hex_digit_def is_space_def strip_0x_def)
  have l0: "trace_refs (''I 10'' @ newline # r) t v = (CHR ''I'', 0x10) # trace_refs r CHR ''I'' 0x10" for r t v
    by (subst trace_refs_line) (simp_all add: scan newline_def Let_def)
  have l1: "trace_refs (''==7== x'' @ newline # r) t v = trace_refs r t v" for r t v
    by (subst trace_refs_line) (simp_all add: scan newline_def Let_def)
  have l2: "trace_refs (''S 10'' @ newline # r) t v = (CHR ''S'', 0x10) # trace_refs r CHR ''S'' 0x10" for r t v
    by (subst trace_refs_line) (simp_all add: scan newline_def Let_def)
  have l3: "trace_refs (''L 2020'' @ newline # r) t v = (CHR ''L'', 0x2020) # trace_refs r CHR ''L'' 0x2020" for r t v
    by (subst trace_refs_line) (simp_all add: scan newline_def Let_def)
  show ?thesis
    unfolding small_trace_def l0 l1 l2 l3 by (simp add: trace_refs.simps)
qed






text \<open>And for random replacement, whatever numbers \<open>random()\<close> returns.\<close>

lemma rand_run_correct:
  assumes "0 < n" and "n \<le> 2 ^ 20" and "unat swapsize \<le> 2 ^ 27" and "4096 \<le> tables"
    and "\<forall>r \<in> set (trace_refs input type 0). snd r < 2 ^ 36"
  shows "\<exists>errs s. sim_run rand_init rand_evict rand_ref n swapsize room tables junk type input q =
      Ok (errs, s) \<and> mm_inv s \<and> ref_count s = length (trace_refs input type 0) \<and>
    hit_count s + miss_count s = ref_count s \<and>
    miss_count s = length (filter in_use (coremap s)) + evict_clean_count s + evict_dirty_count s"
  using live_run [OF rand.live_replacement_axioms _ _ assms, of q q rand_init room junk]
  by (force simp: any_stream_def rand_init_def sim_inv_def fills_def)



text \<open>
  C19. A page that was evicted comes back empty.  \<open>p->frame = frame << PAGE_SHIFT\<close> clears
  \<open>PG_ONSWAP\<close> before the code tests it, so \<open>swap_pagein\<close> is never called, also for an entry that
  is marked as being on swap: after the miss the version counter of the page is 0 and the stored
  address is that of the current reference.
\<close>

theorem evicted_page_content_lost:
  assumes "mm_inv s" and "pol s < memsize s" and "pgdir s (fst (pte_ptr v))"
    and "\<not> valid (get_frame s (pte_ptr v))"
    and "find_physpage fifo_evict fifo_ref v type s = Ok (addr, s')"
  shows "rd32 (physmem s') addr = 0 \<and> rd64 (physmem s') (addr + 4) = v"
proof -
  have "sim_inv index_ok s"
    using assms(1,2) by (simp add: sim_inv_def index_ok_def)
  from fifo.find_physpage_miss [OF this assms(5,3,4)] show ?thesis
    using init_frame_content by auto
qed

text \<open>A second page of the table of \<open>one_page\<close>, at address \<open>0x1000\<close>.\<close>

lemma one_page_second:
  "pte_ptr 0x1000 = (0, 17)" "\<not> valid (get_frame (one_page q) (0, 17))"
  "is_pte (one_page q) (0, 17)" "fst (pte_ptr 0x1000) < PTRS_PER_PGDIR"
proof -
  show p: "pte_ptr 0x1000 = (0, 17)"
    by (simp add: pte_ptr_def PGDIR_INDEX_def PGTBL_INDEX_def pt_consts drop_bit_eq_div unat_div)
  then show "fst (pte_ptr 0x1000) < PTRS_PER_PGDIR" by (simp add: PTRS_PER_PGDIR_def)
  show i: "is_pte (one_page q) (0, 17)"
  proof -
    have "pgdir (one_page q) 0"
      using one_page(5) [of q] by (simp add: mapped_def is_pte_def)
    moreover have "\<exists>j < PTRS_PER_PGTBL. 17 = PDE_TAG + PTE_SIZE * j"
      by (rule exI [of _ 1]) (simp add: pt_consts)
    ultimately show ?thesis by (simp add: is_pte_def PTRS_PER_PGDIR_def)
  qed
  show "\<not> valid (get_frame (one_page q) (0, 17))"
  proof
    assume "valid (get_frame (one_page q) (0, 17))"
    then obtain f where f: "mapped (one_page q) (0, 17) f"
      using i by (simp add: mapped_def)
    have "rep (one_page q) {}"
      using one_page(1) [of q] by (simp add: mm_inv_def)
    from repD(4) [OF this, of "(0, 17)" f] f have "f < memsize (one_page q)"
      "cpte (coremap (one_page q) ! f) = Some (0, 17)" by (simp_all only: simp_thms)
    then show False
      using one_page(6) [of q] by (simp add: one_page(3))
  qed
qed

theorem evicted_page_content_lost_witness:
  "\<exists>addr s'. find_physpage fifo_evict fifo_ref 0x1000 CHR ''L'' (one_page 0) = Ok (addr, s') \<and>
    rd32 (physmem s') addr = 0 \<and> rd64 (physmem s') (addr + 4) = 0x1000"
proof -
  have inv: "sim_inv index_ok (one_page 0)"
    by (simp add: sim_inv_def one_page index_ok_def)
  have dir: "pgdir (one_page (0 :: nat)) (fst (pte_ptr 0x1000))"
    using one_page_second(3) [of "0 :: nat"] by (simp add: one_page_second(1) is_pte_def)
  obtain addr s' where r: "find_physpage fifo_evict fifo_ref 0x1000 CHR ''L'' (one_page 0) = Ok (addr, s')"
    using fifo.find_physpage_total [OF inv one_page_second(4)] dir by (metis prod.exhaust)
  have "pol (one_page (0 :: nat)) < memsize (one_page (0 :: nat))"
    by (simp add: one_page)
  then show ?thesis
    using evicted_page_content_lost [OF one_page(1) _ dir _ r] r by (auto simp: one_page_second(1,2))
qed

end
