(* ===== verification/PtPrint.thy ===== *)
theory PtPrint
  imports SimRun
begin

section \<open>Printing the page tables (Assignment2/pagetable.c)\<close>

text \<open>
  \<open>print_pagetbl\<close> and \<open>print_pagedirectory\<close>, with the printed lines as values.  The printers mask the
  tag out of a directory entry, so they read the entries where \<open>init_second_level\<close> wrote them, one
  byte before those that \<open>find_physpage\<close> uses; the property says what comes of it.
\<close>

subsection \<open>Lines\<close>

text \<open>
  The lines for a table (a range of invalid entries, a valid entry with its dirty flag and frame, an
  entry on swap with its offset) and for the directory (a range, an entry).
\<close>

datatype pt_line =
    Invalid_range nat nat
  | Valid_entry nat bool nat
  | Swapped_entry nat nat
  | Dir_invalid_range nat nat
  | Dir_entry nat

subsection \<open>print_pagetbl\<close>

text \<open>\<open>first_invalid\<close> and \<open>last_invalid\<close>, or \<open>None\<close> while both are -1.\<close>

definition extend_range :: "nat \<Rightarrow> (nat \<times> nat) option \<Rightarrow> (nat \<times> nat) option" where
  "extend_range i rg = (case rg of None \<Rightarrow> Some (i, i) | Some (f, l) \<Rightarrow> Some (f, i))"

definition flush_range :: "(nat \<Rightarrow> nat \<Rightarrow> pt_line) \<Rightarrow> (nat \<times> nat) option \<Rightarrow> pt_line list" where
  "flush_range line rg = (case rg of None \<Rightarrow> [] | Some (f, l) \<Rightarrow> [line f l])"

text \<open>The entry \<open>pgtbl[i]\<close> through the pointer without the tag.\<close>

definition print_entry_line :: "'p sim \<Rightarrow> nat \<Rightarrow> nat \<Rightarrow> pt_line res" where
  "print_entry_line s t i =
     (let p = (t, PTE_SIZE * i); w = get_frame s p in
      if w AND PG_VALID \<noteq> 0
      then Ok (Valid_entry i (w AND PG_DIRTY \<noteq> 0) (unat (drop_bit PAGE_SHIFT w)))
      else if w AND PG_ONSWAP = 0 then Err Assert_failed
      else Ok (Swapped_entry i (unat (get_swap s p))))"

fun print_pagetbl_from :: "'p sim \<Rightarrow> nat \<Rightarrow> nat list \<Rightarrow> (nat \<times> nat) option \<Rightarrow> pt_line list res" where
  "print_pagetbl_from s t [] rg = Ok (flush_range Invalid_range rg)"
| "print_pagetbl_from s t (i # is) rg =
     (let w = get_frame s (t, PTE_SIZE * i) in
      if w AND PG_VALID = 0 \<and> w AND PG_ONSWAP = 0
      then print_pagetbl_from s t is (extend_range i rg)
      else
        res_bind (print_entry_line s t i) (\<lambda>l.
        res_bind (print_pagetbl_from s t is None) (\<lambda>out.
          Ok (flush_range Invalid_range rg @ l # out))))"

definition print_pagetbl :: "nat \<Rightarrow> 'p sim \<Rightarrow> pt_line list res" where
  "print_pagetbl t s = print_pagetbl_from s t [0..<PTRS_PER_PGTBL] None"

subsection \<open>print_pagedirectory\<close>

text \<open>The loop over the directory; a range of invalid entries at the end is not printed.\<close>

fun print_pagedirectory_from :: "'p sim \<Rightarrow> nat list \<Rightarrow> (nat \<times> nat) option \<Rightarrow> pt_line list res" where
  "print_pagedirectory_from s [] rg = Ok []"
| "print_pagedirectory_from s (i # is) rg =
     (if \<not> pgdir s i then print_pagedirectory_from s is (extend_range i rg)
      else
        res_bind (print_pagetbl i s) (\<lambda>table.
        res_bind (print_pagedirectory_from s is None) (\<lambda>out.
          Ok (flush_range Dir_invalid_range rg @ Dir_entry i # table @ out))))"

definition print_pagedirectory :: "'p sim \<Rightarrow> pt_line list res" where
  "print_pagedirectory s = print_pagedirectory_from s [0..<PTRS_PER_PGDIR] None"

subsection \<open>The bytes the printers look at\<close>

text \<open>
  Byte \<open>16 * i\<close> of a table holds the flags of its entry \<open>i\<close> for the printers; for \<open>find_physpage\<close> it
  is the last byte of the swap offset of entry \<open>i - 1\<close>, which stays 0.
\<close>

definition zero_kept :: "'p sim \<Rightarrow> 'p sim \<Rightarrow> bool" where
  "zero_kept s s' \<longleftrightarrow>
     (\<forall>t. \<forall>i < PTRS_PER_PGTBL. pgtbl s t (PTE_SIZE * i) = 0 \<longrightarrow> pgtbl s' t (PTE_SIZE * i) = 0)"

definition tables_quiet :: "'p sim \<Rightarrow> bool" where
  "tables_quiet s \<longleftrightarrow> (\<forall>t. pgdir s t \<longrightarrow> (\<forall>i < PTRS_PER_PGTBL. pgtbl s t (PTE_SIZE * i) = 0))"

lemma zero_kept_same [simp]: "pgtbl s' = pgtbl s \<Longrightarrow> zero_kept s s'"
  by (simp add: zero_kept_def)

lemma zero_kept_trans: "zero_kept s t \<Longrightarrow> zero_kept t u \<Longrightarrow> zero_kept s u"
  by (simp add: zero_kept_def)

lemma tables_quiet_kept: "tables_quiet s \<Longrightarrow> zero_kept s s' \<Longrightarrow> pgdir s' = pgdir s \<Longrightarrow> tables_quiet s'"
  by (simp add: tables_quiet_def zero_kept_def)

lemma zero_kept_set_frame:
  assumes "snd p = PDE_TAG + PTE_SIZE * j"
  shows "zero_kept s (set_frame p w s)"
proof -
  have "wr32 (snd p) w m (PTE_SIZE * i) = m (PTE_SIZE * i)" for m i
  proof (cases "i \<le> j")
    case False
    then have "Suc j \<le> i" by simp
    then have "16 * Suc j \<le> 16 * i" by (rule mult_le_mono2)
    then show ?thesis by (intro wr32_other) (simp add: assms pt_consts)
  qed (simp add: wr32_other assms pt_consts)
  then show ?thesis by (simp add: zero_kept_def set_frame_def)
qed

lemma top_byte_zero:
  assumes "unat w < 2 ^ 56"
  shows "wr64 a w m (a + 7) = 0"
proof (rule bit_word_eqI)
  fix k assume k: "k < LENGTH(8)"
  have "\<not> bit (unat w) (8 * 7 + k)"
  proof
    assume b: "bit (unat w) (8 * 7 + k)"
    have "unat w div 2 ^ (8 * 7 + k) = 0"
      using assms power_increasing [of 56 "8 * 7 + k" "2 :: nat"] by (intro div_less) simp
    then show False using b by (simp add: bit_iff_odd)
  qed
  then show "bit (wr64 a w m (a + 7)) k \<longleftrightarrow> bit (0 :: byte) k"
    using k bit_wr [of 7 8 k a "unat w" m] by (simp add: wr64_def)
qed

lemma zero_kept_set_swap:
  assumes "snd p = PDE_TAG + PTE_SIZE * j" and "unat w < 2 ^ 56"
  shows "zero_kept s (set_swap p w s)"
proof -
  have "wr64 (snd p + SWAP_OFF) w m (PTE_SIZE * i) = (if i = Suc j then 0 else m (PTE_SIZE * i))" for m i
  proof -
    consider "i = Suc j" | "i \<le> j" | "Suc (Suc j) \<le> i" by linarith
    then show ?thesis
    proof cases
      case 1
      have e: "PTE_SIZE * i = snd p + SWAP_OFF + 7" by (simp add: 1 assms(1) pt_consts)
      show ?thesis unfolding e using top_byte_zero [OF assms(2)] 1 by simp
    next
      case 3
      then have "16 * Suc (Suc j) \<le> 16 * i" by (intro mult_le_mono2)
      then show ?thesis using 3 by (subst wr64_other) (simp_all add: assms pt_consts)
    qed (subst wr64_other, simp_all add: assms pt_consts)
  qed
  then show ?thesis by (simp add: zero_kept_def set_swap_def)
qed

lemma is_pte_offset: "is_pte s p \<Longrightarrow> \<exists>j. snd p = PDE_TAG + PTE_SIZE * j"
  by (auto simp: is_pte_def)

lemma offset_top_byte:
  assumes "offset_ok v" and "v \<noteq> INVALID_SWAP"
  shows "unat (off_of_int v) < 2 ^ 56"
proof -
  obtain i where i: "i < 2 ^ 27" "v = slot_offset i"
    using assms unfolding offset_ok_def by blast
  define k where "k = i * 16"
  have k: "v = int k" "k < 2 ^ 31"
    using i by (simp_all add: slot_offset_def SIMPAGESIZE_def k_def)
  have "unat (word_of_nat k :: 64 word) \<le> k"
    by (simp add: unat_of_nat)
  moreover have "off_of_int v = word_of_nat k"
    by (simp add: off_of_int_def k(1))
  ultimately show ?thesis using k(2) by simp
qed

lemma evict_page_quiet:
  assumes "rep s {}" and "f < memsize s" and "in_use (coremap s ! f)" and "evict_page f s = Ok s'"
  shows "zero_kept s s'"
proof -
  obtain bye where bye: "cpte (coremap s ! f) = Some bye" "is_pte s bye"
    using repD(5) [OF assms(1-3)] by blast
  then obtain j where j: "snd bye = PDE_TAG + PTE_SIZE * j" using is_pte_offset by blast
  note fr = zero_kept_set_frame [OF j]
  show ?thesis
  proof (cases "dirty (get_frame s bye)")
    case False
    let ?t = "s\<lparr>evict_clean_count := Suc (evict_clean_count s)\<rparr>"
    have "s' = set_frame bye (get_frame ?t bye AND NOT PG_VALID) ?t"
      using assms(2,4) bye(1) False by (simp add: evict_page_def)
    then show ?thesis using zero_kept_trans [OF zero_kept_same [of ?t s] fr] by simp
  next
    case True
    obtain o' sw where sw: "swap_pageout f (int_of_off (get_swap s bye)) (physmem s) (swap s) = Ok (o', sw)"
      "offset_ok o'"
      using swap_pageout_offset_ok [OF repD(3) [OF assms(1)] repD(6) [OF assms(1) bye(2)]] by blast
    let ?t = "s\<lparr>evict_dirty_count := Suc (evict_dirty_count s), swap := sw\<rparr>"
    let ?u = "if o' \<noteq> INVALID_SWAP then set_swap bye (off_of_int o')
        (set_frame bye (get_frame ?t bye OR PG_ONSWAP) ?t) else ?t"
    have t: "zero_kept s ?t" by simp
    have "zero_kept s ?u"
      using zero_kept_trans [OF zero_kept_trans [OF t fr] zero_kept_set_swap [OF j offset_top_byte [OF sw(2)]]] t
      by simp
    moreover have "s' = set_frame bye (get_frame ?u bye AND NOT PG_VALID) ?u"
      using assms(2,4) bye(1) True sw(1) by (simp add: evict_page_def Let_def get_swap_def)
    ultimately show ?thesis using zero_kept_trans fr by blast
  qed
qed

subsection \<open>Runs keep these bytes\<close>

text \<open>A replacement algorithm whose writes to the tables go through the pointers of the coremap.\<close>

locale quiet_replacement = live_replacement +
  assumes evict_quiet: "mm_inv s \<Longrightarrow> mem_full s \<Longrightarrow> pinv (memsize s) True (pol s) \<Longrightarrow>
      evict s = Ok (f, s') \<Longrightarrow> zero_kept s s'"
    and ref_quiet: "mm_inv s \<Longrightarrow> mapped s p g \<Longrightarrow> pinv (memsize s) (mem_full s) (pol s) \<Longrightarrow>
      ref p s = Ok s' \<Longrightarrow> zero_kept s s'"
begin

lemma allocate_frame_quiet:
  assumes "sim_inv pinv s" and "allocate_frame evict p s = Ok (f, s')"
  shows "zero_kept s s'"
proof (cases "find_free_frame (coremap s) 0")
  case (Some g)
  then show ?thesis using assms(2) by (auto simp: allocate_frame_def)
next
  case None
  then have full: "mem_full s" by (simp add: mem_full_def find_free_frame_None)
  obtain s1 s2 where ev: "evict s = Ok (f, s1)" "evict_page f s1 = Ok s2"
    "s' = s2\<lparr>coremap := (coremap s2)[f := \<lparr>in_use = True, cpte = Some p\<rparr>]\<rparr>"
    using assms(2) None by (auto simp: allocate_frame_def)
  have inv: "mm_inv s" "pinv (memsize s) True (pol s)" using assms(1) full by (auto simp: sim_inv_def)
  have e: "f < memsize s" "only_ref_bits s s1"
    using evict_law [OF inv(1) full inv(2) ev(1)] by auto
  have r: "rep s1 {}" "f < memsize s1" "in_use (coremap s1 ! f)"
    using only_ref_bits_rep [OF e(2)] only_ref_bits_coremap [OF e(2)] inv(1) e(1) full
    by (auto simp: mm_inv_def mem_full_iff)
  have "zero_kept s2 s'" by (simp add: ev(3))
  then show ?thesis
    using zero_kept_trans [OF evict_quiet [OF inv(1) full inv(2) ev(1)] evict_page_quiet [OF r ev(2)]]
      zero_kept_trans by blast
qed

lemma hit_or_miss_quiet:
  assumes "sim_inv pinv s" and "is_pte s (pte_ptr v)" and "hit_or_miss evict v s = Ok s'"
  shows "zero_kept s s' \<and> pgdir s' = pgdir s"
proof (cases "valid (get_frame s (pte_ptr v))")
  case True
  then show ?thesis using assms(3) by (auto simp: hit_or_miss_def)
next
  case False
  let ?p = "pte_ptr v" and ?s = "s\<lparr>miss_count := Suc (miss_count s)\<rparr>"
  obtain f t where a: "allocate_frame evict ?p ?s = Ok (f, t)"
    and s': "s' = (set_frame ?p (push_bit PAGE_SHIFT (word_of_nat f)) t)\<lparr>physmem := init_frame f v (physmem t)\<rparr>"
    using assms(3) False by (auto simp: hit_or_miss_def page_miss_eq Let_def)
  have inv: "sim_inv pinv ?s" "is_pte ?s ?p" "\<not> valid (get_frame ?s ?p)"
    using assms(1,2) False rep_cong [of ?s s "{}"]
    by (auto simp: sim_inv_def mm_inv_def memsize_def mem_full_def is_pte_def get_frame_def)
  obtain j where j: "snd ?p = PDE_TAG + PTE_SIZE * j" using is_pte_offset [OF assms(2)] by blast
  have "zero_kept s ?s" "zero_kept (set_frame ?p (push_bit PAGE_SHIFT (word_of_nat f)) t) s'"
    by (simp_all add: s')
  then have "zero_kept s s'"
    using allocate_frame_quiet [OF inv(1) a] zero_kept_set_frame [OF j, of t] zero_kept_trans by blast
  moreover have "pgdir s' = pgdir s"
    using allocate_frame_claims [OF inv a] by (simp add: keeps_def s')
  ultimately show ?thesis ..
qed

end

lemma table_for_quiet:
  assumes "tables_quiet s" and "table_for t s = Ok s'"
  shows "tables_quiet s'"
proof (cases "pgdir s t")
  case True
  then show ?thesis using assms by (simp add: table_for_def)
next
  case False
  then have s': "s' = s\<lparr>tables_left := tables_left s - 1,
      pgtbl := (pgtbl s)(t := init_entries (fresh_mem s)), pgdir := (pgdir s)(t := True)\<rparr>"
    using assms(2) by (auto simp: table_for_def init_second_level_def split: if_splits)
  have "init_entries m (PTE_SIZE * i) = 0" if "i < PTRS_PER_PGTBL" for m i
    using init_entries_at [of i 0 m] that by (simp add: pt_consts)
  then show ?thesis using assms(1) by (simp add: tables_quiet_def s')
qed

context quiet_replacement
begin

lemma find_physpage_quiet:
  assumes "sim_inv pinv s" and "find_physpage evict ref v type s = Ok (addr, s')" and "tables_quiet s"
  shows "tables_quiet s'"
proof -
  let ?p = "pte_ptr v"
  obtain s1 s2 where idx: "fst ?p < PTRS_PER_PGDIR" and s1: "table_for (fst ?p) s = Ok s1"
    and s2: "hit_or_miss evict v (s1\<lparr>ref_count := Suc (ref_count s1)\<rparr>) = Ok s2"
    and s3: "ref ?p (set_frame ?p (touch type (get_frame s2 ?p)) s2) = Ok s'"
    using assms(2) unfolding find_physpage_eq by (auto split: if_splits)
  note i1 = table_for_inv [OF assms(1) idx s1]
  let ?s1 = "s1\<lparr>ref_count := Suc (ref_count s1)\<rparr>"
  let ?s2 = "set_frame ?p (touch type (get_frame s2 ?p)) s2"
  have inv: "sim_inv pinv ?s1" "is_pte ?s1 ?p"
    using i1 rep_cong [of ?s1 s1 "{}"]
    by (auto simp: sim_inv_def mm_inv_def memsize_def mem_full_def is_pte_def)
  obtain f where i2: "sim_inv pinv ?s2" "mapped ?s2 ?p f"
    using hit_or_miss_inv [OF inv s2 refl] by blast
  obtain j where j: "snd ?p = PDE_TAG + PTE_SIZE * j" using is_pte_offset [OF inv(2)] by blast
  have q1: "tables_quiet ?s1" using table_for_quiet [OF assms(3) s1] by (simp add: tables_quiet_def)
  note q2 = hit_or_miss_quiet [OF inv s2]
  have q3: "zero_kept s2 s'"
    using zero_kept_trans [OF zero_kept_set_frame [OF j, of s2] ref_quiet [OF _ i2(2) _ s3]] i2(1)
    by (auto simp: sim_inv_def)
  have "only_ref_bits ?s2 s'"
    using ref_law [OF _ i2(2) _ s3] i2(1) by (auto simp: sim_inv_def)
  then have "pgdir s' = pgdir s2" by (simp add: only_ref_bits_def keeps_def)
  then show ?thesis
    using q1 q2 q3 tables_quiet_kept by (metis zero_kept_trans)
qed

lemma run_refs_quiet:
  assumes "sim_inv pinv s" and "counts_ok s" and "tables_ok s" and "tables_quiet s"
    and "run_refs evict ref rs errs s = Ok (errs', s')"
  shows "tables_quiet s' \<and> (rs \<noteq> [] \<longrightarrow> (\<exists>f. mapped s' (pte_ptr (snd (last rs))) f))"
  using assms
proof (induction rs arbitrary: errs s)
  case (Cons r rs)
  obtain ok t where t: "access_mem evict ref (fst r) (snd r) s = Ok (ok, t)"
    "run_refs evict ref rs (if ok then errs else Suc errs) t = Ok (errs', s')"
    using Cons.prems(5) by (auto split del: if_split)
  obtain addr u where u: "find_physpage evict ref (snd r) (fst r) s = Ok (addr, u)"
    "t = (if is_write (fst r) then u\<lparr>physmem := wr32 addr (rd32 (physmem u) addr + 1) (physmem u)\<rparr> else u)"
    using access_mem_OkE [OF t(1)] by metis
  have q: "tables_quiet t"
    using find_physpage_quiet [OF Cons.prems(1) u(1) Cons.prems(4)] by (simp add: u(2) tables_quiet_def)
  have m: "\<exists>f. mapped t (pte_ptr (snd r)) f"
    using find_physpage_safe [OF Cons.prems(1) u(1)] by (auto simp: u(2) mapped_def is_pte_def get_frame_def)
  note i = access_mem_inv [OF Cons.prems(1-3) t(1)]
  have "tables_quiet s' \<and> (rs \<noteq> [] \<longrightarrow> (\<exists>f. mapped s' (pte_ptr (snd (last rs))) f))"
    using Cons.IH [OF _ _ _ q t(2)] i by blast
  then show ?case using m t(2) by (cases rs) auto
qed simp

end

text \<open>FIFO and random replacement do not write to the tables.\<close>

interpretation fifo_quiet: quiet_replacement fifo_evict fifo_ref index_ok
  by unfold_locales (auto simp: fifo_evict_def fifo_ref_def advance_index_def Let_def)

interpretation rand_quiet: quiet_replacement rand_evict rand_ref any_stream
  by unfold_locales (auto simp: rand_evict_def rand_ref_def Let_def split: if_splits)

text \<open>Clock writes the reference bits of entries that the coremap points to.\<close>

lemma clock_evict_quiet:
  "clock_evict s = Ok (f, s') \<Longrightarrow>
    \<forall>c \<in> set (coremap s). \<forall>p. cpte c = Some p \<longrightarrow> (\<exists>j. snd p = PDE_TAG + PTE_SIZE * j) \<Longrightarrow> zero_kept s s'"
proof (induction s arbitrary: f s' rule: clock_evict.induct)
  case (1 s)
  then obtain p where p: "pol s < memsize s" "cpte (coremap s ! pol s) = Some p"
    by (auto simp: clock_evict.simps [of s] Let_def split: if_splits option.splits)
  then have "coremap s ! pol s \<in> set (coremap s)" by (simp add: memsize_def)
  then obtain j where j: "snd p = PDE_TAG + PTE_SIZE * j" using "1.prems"(2) p(2) by blast
  let ?t = "advance_index (clear_ref p s)"
  have t: "zero_kept s ?t"
    using zero_kept_trans [OF zero_kept_set_frame [OF j, of s] zero_kept_same [of ?t]]
    by (simp add: clear_ref_def)
  show ?case
  proof (cases "refd (get_frame s p)")
    case False
    then show ?thesis
      using "1.prems"(1) p by (auto simp: clock_evict.simps [of s] Let_def)
  next
    case True
    obtain g u where u: "clock_evict ?t = Ok (g, u)" "s' = advance_index u"
      using "1.prems"(1) p True by (auto simp: clock_evict.simps [of s] Let_def)
    have "coremap ?t = coremap s" by (simp add: clear_ref_def)
    then have "zero_kept ?t u"
      using "1.IH" [OF refl _ p(2) _ u(1)] "1.prems"(2) p(1) True by simp
    moreover have "zero_kept u s'" by (simp add: u(2))
    ultimately show ?thesis using t zero_kept_trans by blast
  qed
qed

interpretation clock_quiet: quiet_replacement clock_evict clock_ref hand_ok
proof
  fix s s' :: "nat sim" and f
  assume s: "mm_inv s" "mem_full s" and e: "clock_evict s = Ok (f, s')"
  show "zero_kept s s'"
  proof (rule clock_evict_quiet [OF e])
    show "\<forall>c \<in> set (coremap s). \<forall>p. cpte c = Some p \<longrightarrow> (\<exists>j. snd p = PDE_TAG + PTE_SIZE * j)"
      using s repD(5) [of s "{}"] is_pte_offset [of s]
      by (fastforce simp: mm_inv_def mem_full_iff in_set_conv_nth memsize_def)
  qed
next
  fix s s' :: "nat sim" and p g
  assume s: "mm_inv s" "mapped s p g" "hand_ok (memsize s) (mem_full s) (pol s)" and r: "clock_ref p s = Ok s'"
  obtain q where q: "pol s < memsize s" "cpte (coremap s ! pol s) = Some q"
    "s' = set_frame q (get_frame s q OR PG_REF) s"
    using r by (auto simp: clock_ref_def split: if_splits option.splits)
  obtain j where "snd q = PDE_TAG + PTE_SIZE * j"
    using hand_entry [OF s] q(2) is_pte_offset by (metis option.inject)
  then show "zero_kept s s'" unfolding q(3) by (rule zero_kept_set_frame)
qed

subsection \<open>What is printed\<close>

lemma quiet_entry:
  assumes "tables_quiet s" and "pgdir s t" and "i < PTRS_PER_PGTBL"
  shows "\<not> valid (get_frame s (t, PTE_SIZE * i))" and "\<not> onswap (get_frame s (t, PTE_SIZE * i))"
proof -
  have "pgtbl s t (PTE_SIZE * i) = 0" using assms by (simp add: tables_quiet_def)
  then show "\<not> valid (get_frame s (t, PTE_SIZE * i))" "\<not> onswap (get_frame s (t, PTE_SIZE * i))"
    using bit_rd32 [of 0 0 "pgtbl s t" "PTE_SIZE * i"] bit_rd32 [of 0 3 "pgtbl s t" "PTE_SIZE * i"]
    by (simp_all add: valid_def onswap_def get_frame_def)
qed

lemma print_pagetbl_from_invalid:
  "\<forall>i \<in> set is. \<not> valid (get_frame s (t, PTE_SIZE * i)) \<and> \<not> onswap (get_frame s (t, PTE_SIZE * i)) \<Longrightarrow>
    print_pagetbl_from s t is rg = Ok (flush_range Invalid_range (fold extend_range is rg))"
  by (induction "is" arbitrary: rg) (auto simp: Let_def)

lemma fold_extend_range: "fold extend_range [0..<Suc n] None = Some (0, n)"
  by (induction n) (simp_all add: extend_range_def)

lemma print_pagetbl_quiet:
  assumes "tables_quiet s" and "pgdir s t"
  shows "print_pagetbl t s = Ok [Invalid_range 0 4095]"
proof -
  have "fold extend_range [0..<PTRS_PER_PGTBL] None = Some (0, 4095)"
    using fold_extend_range [of 4095] unfolding PTRS_PER_PGTBL_def by (simp del: upt_Suc)
  then show ?thesis
    unfolding print_pagetbl_def
    by (subst print_pagetbl_from_invalid) (use quiet_entry [OF assms] in \<open>auto simp: flush_range_def\<close>)
qed

lemma print_pagedirectory_from_quiet:
  assumes "tables_quiet s"
  shows "\<exists>out. print_pagedirectory_from s is rg = Ok out \<and>
    set out \<subseteq> range (case_prod Dir_invalid_range) \<union> Dir_entry ` {i. pgdir s i} \<union> {Invalid_range 0 4095} \<and>
    {i. Dir_entry i \<in> set out} = {i \<in> set is. pgdir s i}"
proof (induction "is" arbitrary: rg)
  case (Cons i js)
  obtain out where out: "print_pagedirectory_from s js (if pgdir s i then None else extend_range i rg) = Ok out"
    "set out \<subseteq> range (case_prod Dir_invalid_range) \<union> Dir_entry ` {i. pgdir s i} \<union> {Invalid_range 0 4095}"
    "{i. Dir_entry i \<in> set out} = {i \<in> set js. pgdir s i}"
    using Cons by blast
  have "Dir_invalid_range a b \<in> range (case_prod Dir_invalid_range)" for a b
    by (rule image_eqI [of _ _ "(a, b)"]) auto
  moreover have "set (flush_range Dir_invalid_range rg) \<subseteq> range (case_prod Dir_invalid_range)"
    by (auto simp: flush_range_def split: option.splits)
  moreover have "Dir_entry j \<notin> set (flush_range Dir_invalid_range rg)" for j
    by (auto simp: flush_range_def split: option.splits)
  ultimately show ?case
    using out print_pagetbl_quiet [OF assms, of i] by (cases "pgdir s i") auto
qed simp

lemma quiet_run:
  assumes q: "quiet_replacement evict ref pinv" and p: "pinv n False q'"
    and init: "\<And>s. pol s = q \<Longrightarrow> memsize s = n \<Longrightarrow> init s = Ok (s\<lparr>pol := q'\<rparr>)"
    and n: "0 < n" "n \<le> 2 ^ 20" and sz: "unat swapsize \<le> 2 ^ 27" and tb: "4096 \<le> tables"
    and run: "sim_run init evict ref n swapsize room tables junk type input q = Ok (errs, s)"
    and ne: "trace_refs input type 0 \<noteq> []"
  shows "tables_quiet s \<and> (\<exists>f. mapped s (pte_ptr (snd (last (trace_refs input type 0)))) f)"
proof -
  obtain sw where sw: "swap_init True True True room swapsize = Ok sw" "swap_ok sw"
    using swap_init_ok [OF sz] .
  let ?s0 = "sim_start n tables junk sw q"
  define s0 where "s0 = ?s0\<lparr>pol := q'\<rparr>"
  have i0: "init ?s0 = Ok s0"
    unfolding s0_def by (rule init) (simp_all add: sim_start_def init_pagetable_def memsize_def)
  note st = start_state [OF n sw(2) tb s0_def]
  have inv: "sim_inv pinv s0" using st p by (simp add: sim_inv_def)
  have "tables_quiet s0" by (simp add: tables_quiet_def s0_def sim_start_def init_pagetable_def)
  moreover have "run_refs evict ref (trace_refs input type 0) 0 s0 = Ok (errs, s)"
    using run sw(1) i0 by (simp add: sim_run_def replay_trace_run)
  ultimately show ?thesis
    using quiet_replacement.run_refs_quiet [OF q inv st(2,3)] ne by blast
qed

text \<open>
  C40. The printed page tables never show a page.  \<open>print_pagetbl\<close> masks the tag out of the directory
  entry and so reads the entries where \<open>init_second_level\<close> put them, but \<open>find_physpage\<close> keeps the
  tag in the pointer and puts the pages' entries one byte further on.  After any run with clock (the
  same proof serves FIFO and random replacement), though the page referenced last is in memory,
  every table that exists is printed as one invalid range, and the printer's assertion holds.
\<close>

theorem printed_tables_always_invalid:
  assumes "0 < n" and "n \<le> 2 ^ 20" and "unat swapsize \<le> 2 ^ 27" and "4096 \<le> tables"
    and "sim_run clock_init clock_evict clock_ref n swapsize room tables junk type input q = Ok (errs, s)"
    and "trace_refs input type 0 \<noteq> []"
  shows "(\<exists>f. mapped s (pte_ptr (snd (last (trace_refs input type 0)))) f) \<and>
    (\<forall>t. pgdir s t \<longrightarrow> print_pagetbl t s = Ok [Invalid_range 0 4095]) \<and>
    (\<exists>out. print_pagedirectory s = Ok out \<and>
       set out \<subseteq> range (case_prod Dir_invalid_range) \<union> Dir_entry ` {t. pgdir s t} \<union> {Invalid_range 0 4095} \<and>
       {t. Dir_entry t \<in> set out} = {t. t < PTRS_PER_PGDIR \<and> pgdir s t})"
proof -
  have "tables_quiet s \<and> (\<exists>f. mapped s (pte_ptr (snd (last (trace_refs input type 0)))) f)"
    by (rule quiet_run [OF clock_quiet.quiet_replacement_axioms _ _ assms, where q' = 0])
      (simp_all add: hand_ok_def clock_init_def assms(1))
  then show ?thesis
    using print_pagetbl_quiet [of s] print_pagedirectory_from_quiet [of s "[0..<PTRS_PER_PGDIR]" None]
    by (auto simp: print_pagedirectory_def)
qed

theorem printed_tables_always_invalid_witness:
  "\<exists>errs s. sim_run clock_init clock_evict clock_ref 1 4 1000 4096 (\<lambda>_. 0) CHR ''I'' small_trace 0 = Ok (errs, s) \<and>
    (\<exists>f. mapped s (0, 33) f) \<and> print_pagetbl 0 s = Ok [Invalid_range 0 4095]"
proof -
  have p: "pte_ptr 0x2020 = (0, 33)"
    by (simp add: pte_ptr_def PGDIR_INDEX_def PGTBL_INDEX_def pt_consts drop_bit_eq_div unat_div)
  obtain errs s where r: "sim_run clock_init clock_evict clock_ref 1 4 1000 4096 (\<lambda>_. 0) CHR ''I'' small_trace 0 = Ok (errs, s)"
    using live_run [OF clock.live_replacement_axioms, of 1 0 0 clock_init 4 4096 small_trace "CHR ''I''" 1000 "\<lambda>_. 0"]
    by (auto simp: small_trace_refs hand_ok_def clock_init_def)
  have "(\<exists>f. mapped s (pte_ptr (snd (last (trace_refs small_trace CHR ''I'' 0)))) f) \<and>
      (\<forall>t. pgdir s t \<longrightarrow> print_pagetbl t s = Ok [Invalid_range 0 4095])"
    using printed_tables_always_invalid [OF _ _ _ _ r] by (simp add: small_trace_refs)
  then have "\<exists>f. mapped s (0, 33) f" "\<forall>t. pgdir s t \<longrightarrow> print_pagetbl t s = Ok [Invalid_range 0 4095]"
    by (simp_all add: small_trace_refs p)
  moreover from this have "pgdir s 0" by (auto simp: mapped_def is_pte_def)
  ultimately show ?thesis using r by blast
qed

end
