(* ===== verification/OptRun.thy ===== *)
theory OptRun
  imports SimRun
begin

section \<open>Whole runs with optimal replacement\<close>

text \<open>
  With \<open>opt\<close> a run also depends on how \<open>opt_init\<close> reads the trace ahead: \<open>opt_ref\<close> follows a null
  pointer once the references outnumber the items that were read.  So \<open>opt\<close> is no instance of
  \<open>live_replacement\<close>; an \<open>opt_ref\<close> that stops at the end of the items is, and it runs as the code does
  as long as there are items.  The second half is about the text of traces: both readers of a trace
  made of lines of a type and a hexadecimal address see the same references.
\<close>

subsection \<open>References while there are items\<close>

definition opt_ref_total :: "pteref \<Rightarrow> opt_state sim \<Rightarrow> opt_state sim res" where
  "opt_ref_total p s = (case opt_ref p s of Inl _ \<Rightarrow> Ok s | Inr s' \<Rightarrow> Ok s')"

definition uses_ok :: "nat \<Rightarrow> bool \<Rightarrow> opt_state \<Rightarrow> bool" where
  "uses_ok n full q \<longleftrightarrow> length (opt_memory q) = n \<and> (\<forall>g. opt_pre q = Some g \<longrightarrow> g < n)"

definition items_left :: "opt_state \<Rightarrow> nat" where
  "items_left q = (case opt_cur q of None \<Rightarrow> 0 | Some t \<Rightarrow> opt_items q - t)"

lemma opt_update_total: "f < length mem \<Longrightarrow> \<exists>mem'. opt_update bs j a f mem = Ok mem'"
  by (induction bs j a f mem rule: opt_update.induct) (auto simp: Let_def)

lemma opt_next_use_total:
  assumes "uses_ok n full (pol s)"
  shows "\<exists>mem. opt_next_use f t s = Ok mem"
proof (cases "opt_pre (pol s)")
  case None
  then show ?thesis by (simp add: opt_next_use_def Let_def)
next
  case (Some g)
  then have "g < length (opt_memory (pol s))" using assms by (simp add: uses_ok_def)
  then obtain mem where
    "opt_update (drop t (opt_addrs (pol s))) t (opt_addrs (pol s) ! (t - 1)) g (opt_memory (pol s)) = Ok mem"
    using opt_update_total by blast
  then show ?thesis using Some by (simp add: opt_next_use_def Let_def)
qed

lemma opt_ref_Ok:
  assumes "mm_inv s" and "mapped s p g" and "uses_ok (memsize s) full (pol s)" and "0 < items_left (pol s)"
  shows "\<exists>mem. opt_ref p s = Ok (s\<lparr>pol := (pol s)\<lparr>opt_memory := mem, opt_pre := Some g,
      opt_cur := (if items_left (pol s) = 1 then None else map_option Suc (opt_cur (pol s)))\<rparr>\<rparr>)"
proof -
  have g: "g < memsize s" "frame_no (get_frame s p) = g"
    using repD(4) [of s "{}" p g] assms(1,2) by (auto simp: mm_inv_def mapped_def)
  have fr: "unat (drop_bit PAGE_SHIFT (get_frame s p)) = g"
    using g(2) by (simp add: frame_no_def PAGE_SHIFT_def)
  obtain t where t: "opt_cur (pol s) = Some t" "t < opt_items (pol s)"
    using assms(4) by (auto simp: items_left_def split: option.splits)
  obtain mem where m: "opt_next_use g t s = Ok mem" using opt_next_use_total [OF assms(3)] by blast
  have "opt_items (pol s) - t = 1 \<longleftrightarrow> \<not> Suc t < opt_items (pol s)" using t(2) by auto
  then show ?thesis using g(1) t m by (auto simp: opt_ref_def Let_def fr items_left_def)
qed

lemma opt_ref_total_cases:
  "opt_ref_total p s = Ok s' \<Longrightarrow> opt_ref p s = Ok s' \<or> s' = s"
  by (auto simp: opt_ref_total_def split: sum.splits)

lemma opt_ref_pinv:
  assumes "mm_inv s" and "mapped s p g" and "uses_ok n full (pol s)" and "n = memsize s" and "opt_ref p s = Ok s'"
  shows "only_ref_bits s s' \<and> uses_ok n full (pol s')"
proof -
  obtain t mem c where m: "opt_next_use (frame_no (get_frame s p)) t s = Ok mem"
    "s' = s\<lparr>pol := (pol s)\<lparr>opt_memory := mem, opt_pre := Some (frame_no (get_frame s p)), opt_cur := c\<rparr>\<rparr>"
    using opt_ref_memory [OF assms(5)] .
  have "frame_no (get_frame s p) < memsize s"
    using repD(4) [of s "{}" p g] assms(1,2) by (auto simp: mm_inv_def mapped_def)
  then show ?thesis using assms(3,4) opt_next_use_frame(1) [OF m(1)] by (simp add: uses_ok_def m(2))
qed

interpretation opt_live: live_replacement opt_evict opt_ref_total uses_ok
proof
  fix s s' :: "opt_state sim" and f
  assume s: "mm_inv s" "mem_full s" "uses_ok (memsize s) True (pol s)" and e: "opt_evict s = Ok (f, s')"
  have "next_uses_ok (memsize s) True (pol s)" using s(3) by (simp add: uses_ok_def next_uses_ok_def)
  moreover have "s' = s" using e by (auto simp: opt_evict_def Let_def split: if_splits)
  ultimately show "f < memsize s \<and> only_ref_bits s s' \<and> uses_ok (memsize s) True (pol s')"
    using opt.evict_law [OF s(1,2) _ e] s(3) by simp
next
  fix s s' :: "opt_state sim" and p g
  assume s: "mm_inv s" "mapped s p g" "uses_ok (memsize s) (mem_full s) (pol s)" "opt_ref_total p s = Ok s'"
  then show "only_ref_bits s s' \<and> uses_ok (memsize s) (mem_full s) (pol s')"
    using opt_ref_total_cases [OF s(4)] opt_ref_pinv [OF s(1-3)] by auto
next
  fix s :: "opt_state sim"
  assume "uses_ok (memsize s) True (pol s)"
  then show "\<exists>r. opt_evict s = Ok r" by (simp add: opt_evict_def Let_def uses_ok_def)
qed (auto simp: uses_ok_def opt_ref_total_def split: sum.splits)

subsection \<open>The same run\<close>

lemma evict_page_pol: "evict_page f s = Ok s' \<Longrightarrow> pol s' = pol s"
  by (auto simp: evict_page_def Let_def set_frame_def set_swap_def split: option.splits if_splits)

lemma opt_miss_pol: "hit_or_miss opt_evict v s = Ok s' \<Longrightarrow> pol s' = pol s"
  by (auto simp: hit_or_miss_def page_miss_eq allocate_frame_def opt_evict_def Let_def dest!: evict_page_pol
      split: option.splits if_splits)

lemma opt_find_same:
  assumes inv: "sim_inv uses_ok s" and r: "find_physpage opt_evict opt_ref_total v type s = Ok (addr, s')"
    and left: "0 < items_left (pol s)"
  shows "find_physpage opt_evict opt_ref v type s = Ok (addr, s') \<and> items_left (pol s') = items_left (pol s) - 1"
proof -
  let ?p = "pte_ptr v"
  obtain s1 s2 where idx: "fst ?p < PTRS_PER_PGDIR" and s1: "table_for (fst ?p) s = Ok s1"
    and s2: "hit_or_miss opt_evict v (s1\<lparr>ref_count := Suc (ref_count s1)\<rparr>) = Ok s2"
    and s3: "opt_ref_total ?p (set_frame ?p (touch type (get_frame s2 ?p)) s2) = Ok s'"
    and addr: "addr = frame_no (get_frame s' ?p) * SIMPAGESIZE"
    using r unfolding find_physpage_eq by (auto split: if_splits)
  let ?s1 = "s1\<lparr>ref_count := Suc (ref_count s1)\<rparr>" and ?t = "set_frame ?p (touch type (get_frame s2 ?p)) s2"
  note i1 = opt_live.table_for_inv [OF inv idx s1]
  have "sim_inv uses_ok ?s1" "is_pte ?s1 ?p"
    using i1 rep_cong [of ?s1 s1 "{}"] by (auto simp: sim_inv_def mm_inv_def memsize_def mem_full_def is_pte_def)
  then obtain f where t: "sim_inv uses_ok ?t" "mapped ?t ?p f" using opt_live.hit_or_miss_inv [OF _ _ s2 refl] by blast
  have pol: "pol ?t = pol s"
    using opt_miss_pol [OF s2] s1 by (auto simp: set_frame_def table_for_def init_second_level_def split: if_splits)
  obtain mem where m: "opt_ref ?p ?t = Ok (?t\<lparr>pol := (pol ?t)\<lparr>opt_memory := mem, opt_pre := Some f,
      opt_cur := (if items_left (pol ?t) = 1 then None else map_option Suc (opt_cur (pol ?t)))\<rparr>\<rparr>)"
    using opt_ref_Ok [of ?t ?p f "mem_full ?t"] t left pol by (auto simp: sim_inv_def)
  then have eq: "opt_ref ?p ?t = Ok s'" using s3 by (simp add: opt_ref_total_def)
  have "items_left (pol s') = items_left (pol s) - 1"
    using m eq left pol by (auto simp: items_left_def split: option.splits)
  then show ?thesis using idx s1 s2 eq addr unfolding find_physpage_eq by simp
qed

lemma opt_run_same:
  assumes "sim_inv uses_ok s" and "counts_ok s" and "tables_ok s" and "length rs \<le> items_left (pol s)"
    and "run_refs opt_evict opt_ref_total rs errs s = Ok r"
  shows "run_refs opt_evict opt_ref rs errs s = Ok r"
  using assms
proof (induction rs arbitrary: errs s)
  case (Cons x rs)
  obtain ok t where t: "access_mem opt_evict opt_ref_total (fst x) (snd x) s = Ok (ok, t)"
    "run_refs opt_evict opt_ref_total rs (if ok then errs else Suc errs) t = Ok r"
    using Cons.prems(5) by (auto split del: if_split)
  obtain addr u where u: "find_physpage opt_evict opt_ref_total (snd x) (fst x) s = Ok (addr, u)"
    "ok = (rd64 (physmem u) (addr + 4) = snd x)"
    "t = (if is_write (fst x) then u\<lparr>physmem := wr32 addr (rd32 (physmem u) addr + 1) (physmem u)\<rparr> else u)"
    using access_mem_OkE [OF t(1)] by metis
  have same: "find_physpage opt_evict opt_ref (snd x) (fst x) s = Ok (addr, u)" "items_left (pol u) = items_left (pol s) - 1"
    using opt_find_same [OF Cons.prems(1) u(1)] Cons.prems(4) by auto
  then have a: "access_mem opt_evict opt_ref (fst x) (snd x) s = Ok (ok, t)"
    using u(2,3) by (simp add: access_mem_def Let_def)
  have "length rs \<le> items_left (pol t)" using same(2) Cons.prems(4) u(3) by auto
  then have "run_refs opt_evict opt_ref rs (if ok then errs else Suc errs) t = Ok r"
    using Cons.IH [OF _ _ _ _ t(2)] opt_live.access_mem_inv [OF Cons.prems(1-3) t(1)] by blast
  then show ?case using a by simp
qed simp

subsection \<open>Traces made of lines\<close>

text \<open>A line is a type, a blank, the hexadecimal digits of an address and a newline.\<close>

type_synonym line = "char \<times> string"

definition line_text :: "line \<Rightarrow> string" where
  "line_text l = fst l # CHR '' '' # snd l @ [newline]"

definition trace_text :: "line list \<Rightarrow> string" where
  "trace_text ls = concat (map line_text ls)"

definition line_ref :: "line \<Rightarrow> char \<times> 64 word" where
  "line_ref l = (fst l, word_of_nat (hex_value 0 (snd l)))"

definition line_ok :: "line \<Rightarrow> bool" where
  "line_ok l \<longleftrightarrow> fst l \<in> set ''ISLM'' \<and> snd l \<noteq> [] \<and> length (snd l) \<le> 9 \<and> (\<forall>c \<in> set (snd l). hex_digit c \<noteq> None)"

lemma hex_digit_other:
  "hex_digit newline = None" "hex_digit (CHR '' '') = None" "hex_digit (CHR ''x'') = None" "hex_digit (CHR ''X'') = None"
  "hex_digit (CHR ''-'') = None" "hex_digit (CHR ''+'') = None" "hex_digit (CHR 0x09) = None" "hex_digit (CHR 0x0B) = None"
  "hex_digit (CHR 0x0C) = None" "hex_digit (CHR 0x0D) = None" "hex_digit (CHR 0x00) = None" "hex_digit (CHR 0xFF) = None"
  "hex_digit (CHR 0x0A) = None"
  by (simp_all add: hex_digit_def newline_def)

lemma hex_digit_lt: "hex_digit c = Some d \<Longrightarrow> d < 16"
  by (auto simp: hex_digit_def Let_def split: if_splits)

lemma hex_digit_char:
  assumes "hex_digit c \<noteq> None"
  shows "\<not> is_space c" and "c \<noteq> CHR ''-''" and "c \<noteq> CHR ''+''" and "c \<noteq> newline" and "c \<noteq> CHR 0x00" and "c \<noteq> CHR 0xFF"
    and "c \<noteq> CHR ''x''" and "c \<noteq> CHR ''X''"
  using assms hex_digit_other by (auto simp: is_space_def)

lemma hex_value_bound:
  "acc < 16 ^ k \<Longrightarrow> hex_value acc h < 16 ^ (k + length h)"
proof (induction acc h arbitrary: k rule: hex_value.induct)
  case (2 acc c cs)
  show ?case
  proof (cases "hex_digit c")
    case None
    have "(16 :: nat) ^ k \<le> 16 ^ (k + length (c # cs))" by (rule power_increasing) auto
    then show ?thesis using None 2(2) by simp
  next
    case (Some d)
    have "16 * acc + d < 16 ^ Suc k" using hex_digit_lt [OF Some] 2(2) by simp
    then show ?thesis using 2(1) [OF Some, of "Suc k"] Some by simp
  qed
qed simp

lemma hex_value_stop: "hex_value acc (h @ newline # r) = hex_value acc h"
  by (induction acc h rule: hex_value.induct) (auto simp: hex_digit_other split: option.splits)

lemma strip_0x_digits:
  assumes "h \<noteq> []" and "\<forall>c \<in> set h. hex_digit c \<noteq> None"
  shows "strip_0x (h @ newline # r) = h @ newline # r"
proof (cases h)
  case (Cons a t)
  then obtain x w where x: "t @ newline # r = x # w" "x = newline \<or> x \<in> set t" by (cases t) auto
  then have "x = newline \<or> hex_digit x \<noteq> None" using assms(2) Cons by auto
  then have "x \<noteq> CHR ''x''" "x \<noteq> CHR ''X''"
    using hex_digit_char(7,8) [of x] by (auto simp: newline_def)
  then show ?thesis using Cons x(1) by (auto simp: strip_0x_def split: list.splits)
qed (use assms in simp)

lemma scan_hex_digits:
  assumes h: "h \<noteq> []" "\<forall>c \<in> set h. hex_digit c \<noteq> None" "length h \<le> 9"
  shows "scan_hex (h @ newline # r) = (Some (word_of_nat (hex_value 0 h)), newline # r)"
    and "scan_hex (CHR '' '' # h @ newline # r) = (Some (word_of_nat (hex_value 0 h)), newline # r)"
proof -
  let ?s = "h @ newline # r"
  obtain c t where c: "h = c # t" using h(1) by (cases h) auto
  then have d: "hex_digit c \<noteq> None" using h(2) by simp
  note ch = hex_digit_char [OF d]
  have drop: "dropWhile is_space ?s = ?s" "dropWhile is_space (CHR '' '' # ?s) = ?s"
    using ch(1) c by (simp_all add: is_space_def)
  have rest: "dropWhile (\<lambda>c. hex_digit c \<noteq> None) ?s = newline # r"
    using h(2) by (simp add: dropWhile_append3 hex_digit_other)
  have "hex_value 0 h < 16 ^ length h" using hex_value_bound [of 0 0 h] by simp
  moreover have "(16 :: nat) ^ length h \<le> 16 ^ 9" using h(3) by (intro power_increasing) auto
  ultimately have v: "hex_value 0 ?s < 2 ^ 64" by (simp add: hex_value_stop)
  have hd: "hd ?s = c" "?s \<noteq> []" using c by simp_all
  show "scan_hex ?s = (Some (word_of_nat (hex_value 0 h)), newline # r)"
    "scan_hex (CHR '' '' # ?s) = (Some (word_of_nat (hex_value 0 h)), newline # r)"
    unfolding scan_hex_def drop Let_def
    using ch(2,3) d rest v hd strip_0x_digits [OF h(1,2)] by (simp_all add: hex_value_stop)
qed

lemma line_chars:
  assumes "line_ok l"
  shows "fst l \<noteq> newline" "fst l \<noteq> CHR 0x00" "fst l \<noteq> CHR 0xFF" "fst l \<noteq> CHR ''=''"
    and "newline \<notin> set (snd l)" "CHR 0x00 \<notin> set (snd l)" "CHR 0xFF \<notin> set (snd l)"
proof -
  have d: "\<forall>c \<in> set (snd l). hex_digit c \<noteq> None" using assms by (simp add: line_ok_def)
  show "newline \<notin> set (snd l)" "CHR 0x00 \<notin> set (snd l)" "CHR 0xFF \<notin> set (snd l)"
    using d hex_digit_other(1,11,12) by blast+
  show "fst l \<noteq> newline" "fst l \<noteq> CHR 0x00" "fst l \<noteq> CHR 0xFF" "fst l \<noteq> CHR ''=''"
    using assms by (auto simp: line_ok_def newline_def)
qed

subsection \<open>What the replay reads\<close>

lemma trace_text_refs:
  assumes "\<forall>l \<in> set ls. line_ok l"
  shows "trace_refs (trace_text ls) type v = map line_ref ls"
  using assms
proof (induction ls arbitrary: type v)
  case (Cons l ls)
  have ok: "line_ok l" using Cons.prems by simp
  note c = line_chars [OF ok]
  have scan: "scan_c_hex (fst l # CHR '' '' # snd l @ [newline]) = (Some (fst l), Some (word_of_nat (hex_value 0 (snd l))), [newline])"
    using scan_hex_digits(2) [of "snd l" "[]"] ok by (simp add: scan_c_hex_def line_ok_def)
  have "trace_refs ((fst l # CHR '' '' # snd l) @ newline # trace_text ls) type v = line_ref l # map line_ref ls"
  proof (subst trace_refs_line)
    show "length (fst l # CHR '' '' # snd l) < 255" using ok by (simp add: line_ok_def)
    show "newline \<notin> set (fst l # CHR '' '' # snd l)" "CHR 0x00 \<notin> set (fst l # CHR '' '' # snd l)"
      using c by (simp_all add: newline_def)
  qed (use c(4) Cons in \<open>simp_all add: scan line_ref_def Let_def\<close>)
  then show ?case by (simp add: trace_text_def line_text_def)
qed (simp add: trace_text_def trace_refs.simps)

lemma line_ref_bound: "line_ok l \<Longrightarrow> snd (line_ref l) < 2 ^ 36"
proof -
  assume l: "line_ok l"
  have "hex_value 0 (snd l) < 16 ^ length (snd l)" using hex_value_bound [of 0 0 "snd l"] by simp
  moreover have "(16 :: nat) ^ length (snd l) \<le> 16 ^ 9" using l by (intro power_increasing) (auto simp: line_ok_def)
  ultimately have "hex_value 0 (snd l) < 2 ^ 36" by simp
  then show ?thesis by (simp add: line_ref_def word_less_nat_alt unat_of_nat)
qed

subsection \<open>What opt_init reads\<close>

lemma count_newlines_step:
  "count_newlines (c # s) = (if c = CHR 0xFF then 0 else if c = newline then Suc (count_newlines s) else count_newlines s)"
  by (subst count_newlines.simps) (simp add: fgetc_def)

lemma count_newlines_plain:
  "newline \<notin> set h \<Longrightarrow> CHR 0xFF \<notin> set h \<Longrightarrow> count_newlines (h @ s) = count_newlines s"
  by (induction h) (auto simp: count_newlines_step)

lemma count_newlines_text: "\<forall>l \<in> set ls. line_ok l \<Longrightarrow> count_newlines (trace_text ls) = length ls"
proof (induction ls)
  case Nil
  then show ?case by (simp add: trace_text_def count_newlines.simps fgetc_def)
next
  case (Cons l ls)
  then have ok: "line_ok l" by simp
  note c = line_chars [OF ok]
  have "count_newlines ((fst l # CHR '' '' # snd l) @ newline # trace_text ls) = count_newlines (newline # trace_text ls)"
    by (rule count_newlines_plain) (use c in \<open>auto simp: newline_def\<close>)
  then show ?case using Cons by (simp add: trace_text_def line_text_def count_newlines_step newline_def)
qed

text \<open>
  The first call of \<open>fgetc\<close> takes the type of the first line, each later one the newline before a
  line; so the line numbers agree, and the newline at the end of the file gives one more item.
\<close>

lemma read_items_rest:
  assumes "\<forall>l \<in> set ls. line_ok l" and "length acc + length ls < n"
  shows "\<exists>xs. read_items n junk (newline # trace_text ls) acc = Ok xs \<and> length xs = Suc (length acc + length ls)"
  using assms
proof (induction ls arbitrary: acc)
  case Nil
  then show ?case
    by (subst read_items.simps) (simp add: trace_text_def fgetc_def newline_def scan_c_hex_def read_items.simps Let_def)
next
  case (Cons l ls)
  have ok: "line_ok l" using Cons.prems(1) by simp
  have txt_eq: "trace_text (l # ls) = fst l # CHR '' '' # snd l @ newline # trace_text ls"
    by (simp add: trace_text_def line_text_def)
  have "scan_c_hex (trace_text (l # ls)) = (Some (fst l), Some (word_of_nat (hex_value 0 (snd l))), newline # trace_text ls)"
    using scan_hex_digits(2) [of "snd l" "trace_text ls"] ok by (simp add: txt_eq scan_c_hex_def line_ok_def)
  moreover have "fgetc (newline # trace_text (l # ls)) = Some (newline, trace_text (l # ls))"
    by (simp add: fgetc_def newline_def)
  ultimately show ?case
    using Cons.IH [of "acc @ [store_low (junk (length acc)) (Some (word_of_nat (hex_value 0 (snd l))))]"] Cons.prems
    by (subst read_items.simps) (simp add: Let_def)
qed

lemma read_items_text:
  assumes ok: "\<forall>l \<in> set ls. line_ok l"
  shows "\<exists>xs. read_items (Suc (count_newlines (trace_text ls))) junk (trace_text ls) [] = Ok xs \<and> length ls \<le> length xs"
proof (cases ls)
  case Nil
  then show ?thesis by (simp add: trace_text_def read_items.simps fgetc_def)
next
  case (Cons l ls')
  have l: "line_ok l" "\<forall>l \<in> set ls'. line_ok l" using ok Cons by auto
  have txt_eq: "trace_text ls = fst l # CHR '' '' # snd l @ newline # trace_text ls'"
    by (simp add: Cons trace_text_def line_text_def)
  have "scan_c_hex (CHR '' '' # snd l @ newline # trace_text ls') =
      (Some CHR '' '', Some (word_of_nat (hex_value 0 (snd l))), newline # trace_text ls')"
    using scan_hex_digits(1) [of "snd l" "trace_text ls'"] l(1) by (simp add: scan_c_hex_def line_ok_def)
  moreover have "fgetc (trace_text ls) = Some (fst l, CHR '' '' # snd l @ newline # trace_text ls')"
    using line_chars(3) [OF l(1)] by (simp add: txt_eq fgetc_def)
  ultimately have "read_items n junk (trace_text ls) [] =
      read_items n junk (newline # trace_text ls') [store_low (junk 0) (Some (word_of_nat (hex_value 0 (snd l))))]" if "0 < n" for n
    using that by (subst read_items.simps) (simp add: Let_def)
  moreover have "count_newlines (trace_text ls) = Suc (length ls')" using count_newlines_text [OF ok] Cons by simp
  ultimately show ?thesis
    using read_items_rest [OF l(2), of "[store_low (junk 0) (Some (word_of_nat (hex_value 0 (snd l))))]"
        "Suc (Suc (length ls'))" junk] Cons by auto
qed

text \<open>A line of five \<open>=\<close>, which the replay skips, gives three items; the array has room for two.\<close>

lemma opt_init_overflows:
  "opt_init (''====='' @ [newline]) words s = Err Out_of_bounds"
  "trace_refs (''====='' @ [newline]) type 0 = []"
proof -
  have scan: "scan_c_hex (CHR ''='' # CHR ''='' # r) = (Some CHR ''='', None, CHR ''='' # r)" for r
  proof -
    have "strip_0x (CHR ''='' # r) = CHR ''='' # r" by (auto simp: strip_0x_def split: list.splits)
    moreover have "hex_digit (CHR ''='') = None" by (simp add: hex_digit_def)
    ultimately show ?thesis by (simp add: scan_c_hex_def scan_hex_def is_space_def Let_def)
  qed
  have count: "count_newlines (''====='' @ [newline]) = 1"
    by (simp add: count_newlines_step newline_def count_newlines.simps [of "[]"] fgetc_def)
  have step: "read_items 2 words (CHR ''='' # CHR ''='' # CHR ''='' # r) acc =
      (if length acc \<ge> 2 then Err Out_of_bounds
       else read_items 2 words (CHR ''='' # r) (acc @ [words (length acc)]))" for r acc
    by (subst read_items.simps) (simp add: fgetc_def scan store_low_def Let_def)
  have last_step: "length acc \<ge> 2 \<Longrightarrow> read_items 2 words (CHR ''='' # r) acc = Err Out_of_bounds" for r acc
    by (subst read_items.simps) (simp add: fgetc_def Let_def)
  show "opt_init (''====='' @ [newline]) words s = Err Out_of_bounds"
    using count by (simp add: opt_init_def step last_step numeral_2_eq_2 [symmetric])
  show "trace_refs (''====='' @ [newline]) type 0 = []"
    by (subst trace_refs_line) (simp_all add: newline_def trace_refs.simps)
qed

subsection \<open>The run\<close>

lemma opt_init_text:
  assumes "\<forall>l \<in> set ls. line_ok l"
  shows "\<exists>q'. (\<forall>s. memsize s = n \<longrightarrow> opt_init (trace_text ls) words s = Ok (s\<lparr>pol := q'\<rparr>)) \<and>
    uses_ok n False q' \<and> length ls \<le> items_left q'"
proof -
  obtain xs where xs: "read_items (Suc (count_newlines (trace_text ls))) words (trace_text ls) [] = Ok xs" "length ls \<le> length xs"
    using read_items_text [OF assms, of words] by blast
  define q' where "q' = \<lparr>opt_addrs = xs @ map words [length xs..<Suc (count_newlines (trace_text ls))],
    opt_items = length xs, opt_cur = Some 0, opt_pre = None, opt_memory = replicate n (- 1)\<rparr>"
  have "opt_init (trace_text ls) words s = Ok (s\<lparr>pol := q'\<rparr>)" if "memsize s = n" for s
    using xs(1) that by (simp add: opt_init_def Let_def q'_def)
  moreover have "uses_ok n False q'" "length ls \<le> items_left q'"
    using xs(2) by (simp_all add: q'_def uses_ok_def items_left_def)
  ultimately show ?thesis by blast
qed



end
