(* ===== verification/Intercept.thy ===== *)
theory Intercept
  imports Prelude
begin

section \<open>The system call interceptor (Assignment1/interceptor.c)\<close>

text \<open>
  The module's table, the kernel's system call table, the two spin locks and the write
  protection of the system call table are one state; the functions of the module change it.  A
  \<open>struct list_head\<close> of \<open>pid_list\<close> nodes is the list of their pids, newest first, which is where
  \<open>list_add\<close> puts them.  What the module reads of the kernel, the tasks and the caller, is a record
  of parameters.  A thread that takes a spin lock it already holds does not go on: the fault
  \<open>Diverges\<close>.
\<close>

subsection \<open>State\<close>

definition REQUEST_SYSCALL_INTERCEPT :: int where "REQUEST_SYSCALL_INTERCEPT = 1"
definition REQUEST_SYSCALL_RELEASE :: int where "REQUEST_SYSCALL_RELEASE = 2"
definition REQUEST_START_MONITORING :: int where "REQUEST_START_MONITORING = 3"
definition REQUEST_STOP_MONITORING :: int where "REQUEST_STOP_MONITORING = 4"
definition MY_CUSTOM_SYSCALL :: nat where "MY_CUSTOM_SYSCALL = 0"

lemmas requests = REQUEST_SYSCALL_INTERCEPT_def REQUEST_SYSCALL_RELEASE_def
  REQUEST_START_MONITORING_def REQUEST_STOP_MONITORING_def

text \<open>The error numbers of the kernel that the module returns, negated.\<close>

definition E_PERM :: int where "E_PERM = - 1"
definition E_NOMEM :: int where "E_NOMEM = - 12"
definition E_BUSY :: int where "E_BUSY = - 16"
definition E_INVAL :: int where "E_INVAL = - 22"

lemmas errnos = E_PERM_def E_NOMEM_def E_BUSY_def E_INVAL_def

text \<open>What an entry of the system call table points to; \<open>Original i\<close> is the kernel's own function.\<close>

datatype handler = Original nat | Interceptor | My_syscall | My_exit_group

datatype spinlock = Pidlist_lock | Calltable_lock

record mytable =
  f_orig :: handler
  intercepted :: int
  monitored :: int
  listcount :: int
  my_list :: "int list"

record kstate =
  table :: "mytable list"
  sys_call_table :: "handler list"
  sct_pte :: "64 word"
  held :: "spinlock set"
  orig_custom_syscall :: handler
  orig_exit_group :: handler

text \<open>
  The kernel as the module sees it: \<open>NR_syscalls\<close>, \<open>__NR_exit_group\<close>, the owner of each task
  (\<open>None\<close>: no such task), the calling process, and whether \<open>kmalloc\<close> succeeds.
\<close>

record kenv =
  nr_syscalls :: nat
  nr_exit_group :: nat
  task_uid :: "int \<Rightarrow> nat option"
  current_pid :: int
  current_uid :: nat
  kmalloc_ok :: bool

definition entry :: "nat \<Rightarrow> kstate \<Rightarrow> mytable" where
  "entry i s = table s ! i"

definition upd_entry :: "nat \<Rightarrow> (mytable \<Rightarrow> mytable) \<Rightarrow> kstate \<Rightarrow> kstate" where
  "upd_entry i g s = s\<lparr>table := (table s)[i := g (table s ! i)]\<rparr>"

subsection \<open>Write protection and locks\<close>

definition PAGE_RW :: "64 word" where "PAGE_RW = 2"

definition set_addr_rw :: "kstate \<Rightarrow> kstate" where
  "set_addr_rw s =
     (if sct_pte s AND NOT PAGE_RW \<noteq> 0 then s\<lparr>sct_pte := sct_pte s OR PAGE_RW\<rparr> else s)"

definition set_addr_ro :: "kstate \<Rightarrow> kstate" where
  "set_addr_ro s = s\<lparr>sct_pte := sct_pte s AND NOT PAGE_RW\<rparr>"

definition read_sct :: "nat \<Rightarrow> kstate \<Rightarrow> handler res" where
  "read_sct i s = (if i \<ge> length (sys_call_table s) then Err Out_of_bounds else Ok (sys_call_table s ! i))"

definition write_sct :: "nat \<Rightarrow> handler \<Rightarrow> kstate \<Rightarrow> kstate res" where
  "write_sct i h s =
     (if i \<ge> length (sys_call_table s) then Err Out_of_bounds
      else if sct_pte s AND PAGE_RW = 0 then Err Protection_fault
      else Ok (s\<lparr>sys_call_table := (sys_call_table s)[i := h]\<rparr>))"

definition spin_lock :: "spinlock \<Rightarrow> kstate \<Rightarrow> kstate res" where
  "spin_lock l s = (if l \<in> held s then Err Diverges else Ok (s\<lparr>held := insert l (held s)\<rparr>))"

definition spin_unlock :: "spinlock \<Rightarrow> kstate \<Rightarrow> kstate" where
  "spin_unlock l s = s\<lparr>held := held s - {l}\<rparr>"

subsection \<open>List operations\<close>

definition add_pid_sysc :: "kenv \<Rightarrow> int \<Rightarrow> nat \<Rightarrow> kstate \<Rightarrow> int \<times> kstate" where
  "add_pid_sysc e pid sysc s =
     (if \<not> kmalloc_ok e then (E_NOMEM, s)
      else (0, upd_entry sysc (\<lambda>t. t\<lparr>my_list := pid # my_list t, listcount := listcount t + 1\<rparr>) s))"

text \<open>After the removal of one node: the count, and the flag when nobody is left.\<close>

definition drop_one :: "mytable \<Rightarrow> mytable" where
  "drop_one t =
     (let t = t\<lparr>listcount := listcount t - 1\<rparr> in
      if listcount t = 0 \<and> monitored t = 1 then t\<lparr>monitored := 0\<rparr> else t)"

definition del_pid_sysc :: "int \<Rightarrow> nat \<Rightarrow> kstate \<Rightarrow> int \<times> kstate" where
  "del_pid_sysc pid sysc s =
     (if pid \<in> set (my_list (entry sysc s))
      then (0, upd_entry sysc (\<lambda>t. drop_one (t\<lparr>my_list := remove1 pid (my_list t)\<rparr>)) s)
      else (E_INVAL, s))"

text \<open>The inner loop of \<open>del_pid\<close> over the nodes \<open>todo\<close> of one list; \<open>kept\<close> are the nodes passed.\<close>

fun del_pid_list :: "int \<Rightarrow> int list \<Rightarrow> int list \<Rightarrow> mytable \<Rightarrow> bool \<times> mytable" where
  "del_pid_list pid kept [] t = (False, t)"
| "del_pid_list pid kept (p # todo) t =
     (if p = pid
      then (True, snd (del_pid_list pid kept todo (drop_one (t\<lparr>my_list := kept @ todo\<rparr>))))
      else del_pid_list pid (kept @ [p]) todo t)"

text \<open>The outer loop, for \<open>s = 1\<close> up to \<open>NR_syscalls - 1\<close>.\<close>

definition del_pid :: "kenv \<Rightarrow> int \<Rightarrow> kstate \<Rightarrow> int \<times> kstate" where
  "del_pid e pid s =
     (let (found, s) = fold (\<lambda>i (found, s).
            let (b, t) = del_pid_list pid [] (my_list (entry i s)) (entry i s) in
            (found \<or> b, upd_entry i (\<lambda>_. t) s))
          [1..<nr_syscalls e] (False, s) in
      (if found then 0 else - 1, s))"

definition destroy_list :: "nat \<Rightarrow> kstate \<Rightarrow> kstate" where
  "destroy_list sysc s = upd_entry sysc (\<lambda>t. t\<lparr>my_list := [], listcount := 0, monitored := 0\<rparr>) s"

definition check_pid_from_list :: "kenv \<Rightarrow> int \<Rightarrow> int \<Rightarrow> int res" where
  "check_pid_from_list e pid1 pid2 =
     (case (task_uid e pid1, task_uid e pid2) of
        (Some u1, Some u2) \<Rightarrow> Ok (if u1 \<noteq> u2 then E_PERM else 0)
      | _ \<Rightarrow> Err Null_deref)"

definition check_pid_monitored :: "nat \<Rightarrow> int \<Rightarrow> kstate \<Rightarrow> int" where
  "check_pid_monitored sysc pid s = (if pid \<in> set (my_list (entry sysc s)) then 1 else 0)"

subsection \<open>exit_group and the interceptor\<close>

text \<open>\<open>my_exit_group\<close>; the result is the handler it ends with, the original \<open>exit_group\<close>.\<close>

definition my_exit_group :: "kenv \<Rightarrow> kstate \<Rightarrow> (handler \<times> kstate) res" where
  "my_exit_group e s =
     res_bind (spin_lock Pidlist_lock s) (\<lambda>s.
       let s = snd (del_pid e (current_pid e) s);
           s = spin_unlock Pidlist_lock s in
       Ok (orig_exit_group s, s))"

text \<open>
  \<open>invoke h ax s\<close>: the kernel calls handler \<open>h\<close> with system call number \<open>ax\<close> in the register.  The
  result says which handler of the kernel or of the module runs at the end and how often the
  call was logged.  The interceptor calls \<open>table[ax].f\<close>, which need not be the kernel's.
\<close>

partial_function (option) invoke ::
  "kenv \<Rightarrow> handler \<Rightarrow> nat \<Rightarrow> nat \<Rightarrow> kstate \<Rightarrow> (handler \<times> nat \<times> kstate) res option" where
  "invoke e h ax logged s =
     (case h of
        Interceptor \<Rightarrow>
          if ax \<ge> length (table s) then Some (Err Out_of_bounds)
          else
            let logged = (if check_pid_monitored ax (current_pid e) s = 1 \<or>
                    monitored (entry ax s) = 2 then Suc logged else logged);
                s = upd_entry ax (\<lambda>t. t\<lparr>intercepted := 1\<rparr>) s in
            invoke e (f_orig (entry ax s)) ax logged s
      | _ \<Rightarrow> Some (Ok (h, logged, s)))"

declare invoke.simps [code]

definition interceptor :: "kenv \<Rightarrow> nat \<Rightarrow> kstate \<Rightarrow> (handler \<times> nat \<times> kstate) res" where
  "interceptor e ax s =
     (case invoke e Interceptor ax 0 s of None \<Rightarrow> Err Diverges | Some r \<Rightarrow> r)"

subsection \<open>The system call of the module\<close>

text \<open>The argument checks: \<open>Some r\<close> is an early return.\<close>

definition check_args :: "kenv \<Rightarrow> int \<Rightarrow> int \<Rightarrow> int \<Rightarrow> int option res" where
  "check_args e cmd syscall pid =
     (if cmd \<noteq> REQUEST_SYSCALL_INTERCEPT \<and> cmd \<noteq> REQUEST_SYSCALL_RELEASE \<and>
         cmd \<noteq> REQUEST_START_MONITORING \<and> cmd \<noteq> REQUEST_STOP_MONITORING then Ok (Some E_INVAL)
      else if syscall = int MY_CUSTOM_SYSCALL \<or> syscall < 0 \<or> syscall > int (nr_syscalls e)
      then Ok (Some E_INVAL)
      else if (cmd = REQUEST_SYSCALL_INTERCEPT \<or> cmd = REQUEST_SYSCALL_RELEASE) \<and> current_uid e \<noteq> 0
      then Ok (Some E_PERM)
      else if cmd = REQUEST_START_MONITORING \<or> cmd = REQUEST_STOP_MONITORING then
        (if pid < 0 \<or> pid > 0 \<and> task_uid e pid = None then Ok (Some E_INVAL)
         else if current_uid e \<noteq> 0 then
           (if pid \<noteq> 0 then
              res_bind (check_pid_from_list e pid (current_pid e)) (\<lambda>r.
                Ok (if r \<noteq> 0 then Some E_PERM else None))
            else Ok (Some E_PERM))
         else Ok None)
      else Ok None)"

definition do_intercept :: "nat \<Rightarrow> kstate \<Rightarrow> (int \<times> kstate) res" where
  "do_intercept sysc s =
     (if intercepted (entry sysc s) = 1 then Ok (E_BUSY, s)
      else
        res_bind (spin_lock Calltable_lock s) (\<lambda>s.
        res_bind (read_sct sysc s) (\<lambda>h.
          let s = upd_entry sysc (\<lambda>t. t\<lparr>f_orig := h\<rparr>) s;
              s = upd_entry sysc (\<lambda>t. t\<lparr>intercepted := 1\<rparr>) s;
              s = set_addr_rw s in
          res_bind (write_sct sysc Interceptor s) (\<lambda>s.
            let s = set_addr_ro s; s = spin_unlock Calltable_lock s in Ok (0, s)))))"

definition do_release :: "nat \<Rightarrow> kstate \<Rightarrow> (int \<times> kstate) res" where
  "do_release sysc s =
     (if intercepted (entry sysc s) = 0 then Ok (E_INVAL, s)
      else
        res_bind (spin_lock Calltable_lock s) (\<lambda>s.
          let s = set_addr_rw s in
          res_bind (write_sct sysc (f_orig (entry sysc s)) s) (\<lambda>s.
            let s = set_addr_ro s;
                s = upd_entry sysc (\<lambda>t. t\<lparr>intercepted := 0\<rparr>) s;
                s = spin_unlock Calltable_lock s in Ok (0, s))))"

definition do_start :: "kenv \<Rightarrow> nat \<Rightarrow> int \<Rightarrow> kstate \<Rightarrow> (int \<times> kstate) res" where
  "do_start e sysc pid s =
     (if pid \<noteq> 0 then
        res_bind (spin_lock Pidlist_lock s) (\<lambda>s.
        res_bind (spin_lock Calltable_lock s) (\<lambda>s.
          if check_pid_monitored sysc pid s = 1 then
            (let s = spin_unlock Calltable_lock s; s = spin_unlock Pidlist_lock s in Ok (E_BUSY, s))
          else
            let s = spin_unlock Pidlist_lock s;
                s = (if monitored (entry sysc s) = 0
                     then upd_entry sysc (\<lambda>t. t\<lparr>monitored := 1\<rparr>) s else s) in
            res_bind (spin_lock Pidlist_lock s) (\<lambda>s.
              let (result, s) = add_pid_sysc e pid sysc s;
                  s = spin_unlock Pidlist_lock s;
                  s = spin_unlock Calltable_lock s in
              Ok (result, s))))
      else
        res_bind (spin_lock Calltable_lock s) (\<lambda>s.
          if monitored (entry sysc s) = 2 \<or> monitored (entry sysc s) = 1
          then Ok (E_BUSY, spin_unlock Calltable_lock s)
          else Ok (0, spin_unlock Calltable_lock (upd_entry sysc (\<lambda>t. t\<lparr>monitored := 2\<rparr>) s))))"

definition do_stop :: "nat \<Rightarrow> int \<Rightarrow> kstate \<Rightarrow> (int \<times> kstate) res" where
  "do_stop sysc pid s =
     res_bind (spin_lock Calltable_lock s) (\<lambda>s.
       if intercepted (entry sysc s) = 0 then Ok (E_INVAL, spin_unlock Calltable_lock s)
       else
         let s = spin_unlock Calltable_lock s in
         if pid \<noteq> 0 then
           res_bind (spin_lock Pidlist_lock s) (\<lambda>s.
           res_bind (spin_lock Calltable_lock s) (\<lambda>s.
             if check_pid_monitored sysc pid s = 0 then
               (let s = spin_unlock Calltable_lock s; s = spin_unlock Pidlist_lock s in
                Ok (E_INVAL, s))
             else
               let s = spin_unlock Pidlist_lock s;
                   s = (if monitored (entry sysc s) = 2
                        then upd_entry sysc (\<lambda>t. t\<lparr>monitored := 1\<rparr>) s
                        else upd_entry sysc (\<lambda>t. t\<lparr>monitored := 0\<rparr>) s) in
               res_bind (spin_lock Pidlist_lock s) (\<lambda>s.
                 let (result, s) = del_pid_sysc pid sysc s;
                     s = spin_unlock Calltable_lock s;
                     s = spin_unlock Pidlist_lock s in
                 Ok (result, s))))
         else
           res_bind (spin_lock Calltable_lock s) (\<lambda>s.
             if monitored (entry sysc s) = 2
             then Ok (0, spin_unlock Calltable_lock (destroy_list sysc s))
             else Ok (E_INVAL, spin_unlock Calltable_lock s)))"

definition my_syscall :: "kenv \<Rightarrow> int \<Rightarrow> int \<Rightarrow> int \<Rightarrow> kstate \<Rightarrow> (int \<times> kstate) res" where
  "my_syscall e cmd syscall pid s =
     res_bind (check_args e cmd syscall pid) (\<lambda>r. case r of
         Some err \<Rightarrow> Ok (err, s)
       | None \<Rightarrow>
           if cmd = REQUEST_SYSCALL_INTERCEPT then do_intercept (nat syscall) s
           else if cmd = REQUEST_SYSCALL_RELEASE then do_release (nat syscall) s
           else if cmd = REQUEST_START_MONITORING then do_start e (nat syscall) pid s
           else if cmd = REQUEST_STOP_MONITORING then do_stop (nat syscall) pid s
           else Ok (0, s))"

subsection \<open>Loading and unloading the module\<close>

definition init_function :: "kenv \<Rightarrow> kstate \<Rightarrow> (int \<times> kstate) res" where
  "init_function e s =
     res_bind (spin_lock Calltable_lock s) (\<lambda>s.
     res_bind (read_sct MY_CUSTOM_SYSCALL s) (\<lambda>c.
     res_bind (read_sct (nr_exit_group e) s) (\<lambda>x.
       let s = s\<lparr>orig_custom_syscall := c, orig_exit_group := x\<rparr>; s = set_addr_rw s in
       res_bind (write_sct MY_CUSTOM_SYSCALL My_syscall s) (\<lambda>s.
       res_bind (write_sct (nr_exit_group e) My_exit_group s) (\<lambda>s.
         let s = set_addr_ro s in
         res_bind (spin_lock Pidlist_lock s) (\<lambda>s.
           let s = fold (\<lambda>i. upd_entry i (\<lambda>t. t\<lparr>intercepted := 0, monitored := 0, listcount := 0,
                     my_list := []\<rparr>)) [1..<nr_syscalls e + 1] s;
               s = spin_unlock Pidlist_lock s;
               s = spin_unlock Calltable_lock s in
           Ok (0, s)))))))"

text \<open>The loop of \<open>exit_function\<close> calls \<open>my_syscall\<close> while it holds \<open>calltable_lock\<close>.\<close>

fun release_all :: "kenv \<Rightarrow> nat list \<Rightarrow> kstate \<Rightarrow> kstate res" where
  "release_all e [] s = Ok s"
| "release_all e (i # is) s =
     res_bind (if intercepted (entry i s) = 1
               then my_syscall e REQUEST_SYSCALL_RELEASE (int i) (int i) s else Ok (0, s))
       (\<lambda>(r, s). release_all e is s)"

definition exit_function :: "kenv \<Rightarrow> kstate \<Rightarrow> kstate res" where
  "exit_function e s =
     res_bind (spin_lock Calltable_lock s) (\<lambda>s.
     res_bind (release_all e [0..<nr_syscalls e] s) (\<lambda>s.
       let s = set_addr_rw s in
       res_bind (write_sct MY_CUSTOM_SYSCALL (orig_custom_syscall s) s) (\<lambda>s.
       res_bind (write_sct (nr_exit_group e) (orig_exit_group s) s) (\<lambda>s.
         Ok (spin_unlock Calltable_lock (set_addr_ro s))))))"

end
