(* ===== verification/InterceptProps.thy ===== *)
theory InterceptProps
  imports Intercept
begin

section \<open>Correctness of the interceptor\<close>

text \<open>
  The commands in closed form, with the lock steps cancelled; the invariant of the table and the
  original handlers that every command keeps; what each command does; and what goes wrong.
\<close>

subsection \<open>Reading the state after an update\<close>

named_theorems kstate_simps \<open>fields of a state after the steps of the module\<close>

lemma entry_upd [kstate_simps]:
  "entry i (upd_entry j g s) = (if i = j \<and> j < length (table s) then g (entry i s) else entry i s)"
  by (cases "j < length (table s)") (auto simp: entry_def upd_entry_def nth_list_update
      list_update_beyond not_less)

lemma upd_entry_fields [kstate_simps]:
  "length (table (upd_entry j g s)) = length (table s)"
  "sys_call_table (upd_entry j g s) = sys_call_table s" "sct_pte (upd_entry j g s) = sct_pte s"
  "held (upd_entry j g s) = held s" "orig_custom_syscall (upd_entry j g s) = orig_custom_syscall s"
  "orig_exit_group (upd_entry j g s) = orig_exit_group s"
  by (simp_all add: upd_entry_def)

lemma entry_fields [kstate_simps]:
  "entry i (s\<lparr>held := h\<rparr>) = entry i s" "entry i (s\<lparr>sct_pte := w\<rparr>) = entry i s"
  "entry i (s\<lparr>sys_call_table := t\<rparr>) = entry i s"
  "entry i (s\<lparr>orig_custom_syscall := c\<rparr>) = entry i s"
  "entry i (s\<lparr>orig_exit_group := c\<rparr>) = entry i s"
  by (simp_all add: entry_def)

lemma upd_held [kstate_simps]: "upd_entry i g (s\<lparr>held := h\<rparr>) = (upd_entry i g s)\<lparr>held := h\<rparr>"
  by (simp add: upd_entry_def)

lemma held_same [kstate_simps]: "held s = h \<Longrightarrow> s\<lparr>held := h\<rparr> = s"
  by (cases s) simp

lemmas lock_sets [kstate_simps] = insert_Diff_if

lemma check_pid_held [kstate_simps]:
  "check_pid_monitored sysc pid (s\<lparr>held := h\<rparr>) = check_pid_monitored sysc pid s"
  by (simp add: check_pid_monitored_def entry_fields)

lemma check_pid_monitored_iff [kstate_simps]:
  "check_pid_monitored sysc pid s = 1 \<longleftrightarrow> pid \<in> set (my_list (entry sysc s))"
  "check_pid_monitored sysc pid s = 0 \<longleftrightarrow> pid \<notin> set (my_list (entry sysc s))"
  by (simp_all add: check_pid_monitored_def)

subsection \<open>The commands in closed form\<close>

definition start_one :: "kenv \<Rightarrow> int \<Rightarrow> mytable \<Rightarrow> mytable" where
  "start_one e pid t =
     (let t = (if monitored t = 0 then t\<lparr>monitored := 1\<rparr> else t) in
      if kmalloc_ok e then t\<lparr>my_list := pid # my_list t, listcount := listcount t + 1\<rparr> else t)"

definition stop_one :: "int \<Rightarrow> mytable \<Rightarrow> mytable" where
  "stop_one pid t =
     (let t = t\<lparr>monitored := (if monitored t = 2 then 1 else 0)\<rparr> in
      drop_one (t\<lparr>my_list := remove1 pid (my_list t)\<rparr>))"

lemma upd_entry_upd:
  "i < length (table s) \<Longrightarrow> upd_entry i g (upd_entry i f s) = upd_entry i (\<lambda>t. g (f t)) s"
  by (simp add: upd_entry_def)

lemma upd_entry_cong: "g (entry i s) = g' (entry i s) \<Longrightarrow> upd_entry i g s = upd_entry i g' s"
  by (simp add: upd_entry_def entry_def)

lemma start_one_steps:
  assumes "sysc < length (table s)"
  shows "snd (add_pid_sysc e pid sysc
      (if monitored (entry sysc s) = 0 then upd_entry sysc (\<lambda>t. t\<lparr>monitored := 1\<rparr>) s else s)) =
    upd_entry sysc (start_one e pid) s"
  using assms
  by (auto simp: add_pid_sysc_def upd_entry_upd start_one_def Let_def entry_def upd_entry_def)

lemma do_start_eq:
  assumes "held s = {}" and "sysc < length (table s)"
  shows "do_start e sysc pid s =
    (if pid = 0 then
       if monitored (entry sysc s) = 2 \<or> monitored (entry sysc s) = 1 then Ok (E_BUSY, s)
       else Ok (0, upd_entry sysc (\<lambda>t. t\<lparr>monitored := 2\<rparr>) s)
     else if pid \<in> set (my_list (entry sysc s)) then Ok (E_BUSY, s)
     else Ok (if kmalloc_ok e then 0 else E_NOMEM, upd_entry sysc (start_one e pid) s))"
proof (cases "pid = 0")
  case True
  then show ?thesis
    using assms by (auto simp: do_start_def spin_lock_def spin_unlock_def kstate_simps)
next
  case False
  then show ?thesis
    using assms start_one_steps [OF assms(2), of e pid]
    by (auto simp: do_start_def spin_lock_def spin_unlock_def kstate_simps add_pid_sysc_def Let_def)
qed

lemma do_stop_eq:
  assumes "held s = {}" and "sysc < length (table s)"
  shows "do_stop sysc pid s =
    (if intercepted (entry sysc s) = 0 then Ok (E_INVAL, s)
     else if pid = 0 then
       if monitored (entry sysc s) = 2 then Ok (0, destroy_list sysc s) else Ok (E_INVAL, s)
     else if pid \<notin> set (my_list (entry sysc s)) then Ok (E_INVAL, s)
     else Ok (0, upd_entry sysc (stop_one pid) s))"
proof -
  have "upd_entry sysc (stop_one pid) s = upd_entry sysc
      (\<lambda>t. drop_one (t\<lparr>my_list := remove1 pid (my_list t)\<rparr>))
      (if monitored (entry sysc s) = 2 then upd_entry sysc (\<lambda>t. t\<lparr>monitored := 1\<rparr>) s
       else upd_entry sysc (\<lambda>t. t\<lparr>monitored := 0\<rparr>) s)"
    using assms(2) by (auto simp: upd_entry_upd stop_one_def Let_def entry_def upd_entry_def)
  then show ?thesis
    using assms
    by (auto simp: do_stop_def spin_lock_def spin_unlock_def kstate_simps del_pid_sysc_def Let_def
        destroy_list_def)
qed

text \<open>The page of the system call table is present and read-only between two changes.\<close>

definition prot_ok :: "kstate \<Rightarrow> bool" where
  "prot_ok s \<longleftrightarrow> bit (sct_pte s) 0 \<and> \<not> bit (sct_pte s) 1"

lemma PAGE_RW_bit: "PAGE_RW = 2 ^ 1"
  by (simp add: PAGE_RW_def)

lemma set_addr_rw_eq: "bit (sct_pte s) 0 \<Longrightarrow> set_addr_rw s = s\<lparr>sct_pte := sct_pte s OR PAGE_RW\<rparr>"
proof -
  assume "bit (sct_pte s) 0"
  then have "bit (sct_pte s AND NOT PAGE_RW) 0"
    unfolding PAGE_RW_bit bit_and_not_mask by simp
  then have "sct_pte s AND NOT PAGE_RW \<noteq> 0" by (metis bit_0_eq bot_apply bot_bool_def)
  then show ?thesis by (simp add: set_addr_rw_def)
qed

lemma rw_writable: "(w OR PAGE_RW) AND PAGE_RW \<noteq> 0"
  unfolding PAGE_RW_bit and_mask_eq_0_iff_bit bit_or_mask by simp

lemma rw_ro: "\<not> bit w 1 \<Longrightarrow> (w OR PAGE_RW) AND NOT PAGE_RW = w"
proof (rule bit_word_eqI)
  fix n
  assume "\<not> bit w 1"
  then show "bit ((w OR PAGE_RW) AND NOT PAGE_RW) n = bit w n"
    unfolding PAGE_RW_bit bit_and_not_mask bit_or_mask by auto
qed

lemma PAGE_RW_nonzero: "PAGE_RW \<noteq> 0"
  by (simp add: PAGE_RW_def)

lemma upd_sct [kstate_simps]:
  "upd_entry i g (s\<lparr>sys_call_table := t\<rparr>) = (upd_entry i g s)\<lparr>sys_call_table := t\<rparr>"
  "upd_entry i g (s\<lparr>sct_pte := w\<rparr>) = (upd_entry i g s)\<lparr>sct_pte := w\<rparr>"
  by (simp_all add: upd_entry_def)

text \<open>Making the page writable, one write, and protecting it again.\<close>

lemma protected_write:
  assumes "prot_ok s" and "i < length (sys_call_table s)"
  shows "res_bind (write_sct i h (set_addr_rw s)) (\<lambda>s. k (set_addr_ro s)) =
    k (s\<lparr>sys_call_table := (sys_call_table s)[i := h]\<rparr>)"
proof -
  have "set_addr_ro (s\<lparr>sct_pte := sct_pte s OR PAGE_RW, sys_call_table := (sys_call_table s)[i := h]\<rparr>)
      = s\<lparr>sys_call_table := (sys_call_table s)[i := h]\<rparr>"
    using assms(1) by (cases s) (simp add: set_addr_ro_def rw_ro prot_ok_def)
  then show ?thesis
    using assms by (simp add: write_sct_def set_addr_rw_eq prot_ok_def rw_writable PAGE_RW_nonzero)
qed

lemma do_intercept_eq:
  assumes "held s = {}" and "prot_ok s" and "sysc < length (table s)"
    and "sysc < length (sys_call_table s)"
  shows "do_intercept sysc s =
    (if intercepted (entry sysc s) = 1 then Ok (E_BUSY, s)
     else Ok (0, (upd_entry sysc (\<lambda>t. t\<lparr>f_orig := sys_call_table s ! sysc, intercepted := 1\<rparr>) s)
       \<lparr>sys_call_table := (sys_call_table s)[sysc := Interceptor]\<rparr>))"
proof (cases "intercepted (entry sysc s) = 1")
  case False
  let ?t = "upd_entry sysc (\<lambda>t. t\<lparr>f_orig := sys_call_table s ! sysc, intercepted := 1\<rparr>)
      (s\<lparr>held := {Calltable_lock}\<rparr>)"
  have "prot_ok ?t" "sysc < length (sys_call_table ?t)"
    using assms by (simp_all add: prot_ok_def kstate_simps)
  note w = protected_write [OF this, where h = Interceptor and k = "\<lambda>s. Ok (0, spin_unlock Calltable_lock s)"]
  have "do_intercept sysc s = res_bind (write_sct sysc Interceptor (set_addr_rw ?t))
      (\<lambda>s. Ok (0, spin_unlock Calltable_lock (set_addr_ro s)))"
    using False assms
    by (simp add: do_intercept_def spin_lock_def read_sct_def upd_entry_upd kstate_simps)
  then show ?thesis
    unfolding w using False assms(1) by (simp add: spin_unlock_def kstate_simps)
qed (simp add: do_intercept_def)

lemma do_release_eq:
  assumes "held s = {}" and "prot_ok s" and "sysc < length (table s)"
    and "sysc < length (sys_call_table s)"
  shows "do_release sysc s =
    (if intercepted (entry sysc s) = 0 then Ok (E_INVAL, s)
     else Ok (0, (upd_entry sysc (\<lambda>t. t\<lparr>intercepted := 0\<rparr>) s)
       \<lparr>sys_call_table := (sys_call_table s)[sysc := f_orig (entry sysc s)]\<rparr>))"
proof (cases "intercepted (entry sysc s) = 0")
  case False
  let ?t = "s\<lparr>held := {Calltable_lock}\<rparr>"
  have "prot_ok ?t" "sysc < length (sys_call_table ?t)"
    using assms by (simp_all add: prot_ok_def)
  note w = protected_write [OF this, where h = "f_orig (entry sysc s)" and
      k = "\<lambda>s. Ok (0, spin_unlock Calltable_lock (upd_entry sysc (\<lambda>t. t\<lparr>intercepted := 0\<rparr>) s))"]
  have "entry sysc (set_addr_rw ?t) = entry sysc s"
    by (simp add: set_addr_rw_def kstate_simps)
  then have "do_release sysc s = res_bind (write_sct sysc (f_orig (entry sysc s)) (set_addr_rw ?t))
      (\<lambda>s. Ok (0, spin_unlock Calltable_lock (upd_entry sysc (\<lambda>t. t\<lparr>intercepted := 0\<rparr>) (set_addr_ro s))))"
    using False assms by (simp add: do_release_def spin_lock_def)
  then show ?thesis
    unfolding w using False assms(1) by (simp add: spin_unlock_def kstate_simps)
qed (simp add: do_release_def)

subsection \<open>The invariant\<close>

definition entry_ok :: "mytable \<Rightarrow> bool" where
  "entry_ok t \<longleftrightarrow> listcount t = int (length (my_list t)) \<and> distinct (my_list t) \<and>
     monitored t \<in> {0, 1, 2} \<and> intercepted t \<in> {0, 1}"

text \<open>
  No lock is held, the page is read-only, every entry is consistent, and exactly the intercepted
  system calls go to the interceptor, with their handler saved.
\<close>

definition module_ok :: "kenv \<Rightarrow> kstate \<Rightarrow> bool" where
  "module_ok e s \<longleftrightarrow> length (table s) = nr_syscalls e + 1 \<and>
     length (sys_call_table s) = nr_syscalls e \<and> held s = {} \<and> prot_ok s \<and>
     (\<forall>i. 1 \<le> i \<longrightarrow> i \<le> nr_syscalls e \<longrightarrow> entry_ok (entry i s)) \<and>
     (\<forall>i. 1 \<le> i \<longrightarrow> i < nr_syscalls e \<longrightarrow>
        (intercepted (entry i s) = 1 \<longleftrightarrow> sys_call_table s ! i = Interceptor) \<and>
        (intercepted (entry i s) = 1 \<longrightarrow> f_orig (entry i s) \<noteq> Interceptor))"

text \<open>The function that system call \<open>i\<close> runs in the end.\<close>

definition kernel_fn :: "nat \<Rightarrow> kstate \<Rightarrow> handler" where
  "kernel_fn i s = (if intercepted (entry i s) = 1 then f_orig (entry i s) else sys_call_table s ! i)"

lemma module_okD:
  assumes "module_ok e s"
  shows "length (table s) = nr_syscalls e + 1" "length (sys_call_table s) = nr_syscalls e"
    "held s = {}" "prot_ok s"
    "\<And>i. 1 \<le> i \<Longrightarrow> i \<le> nr_syscalls e \<Longrightarrow> entry_ok (entry i s)"
    "\<And>i. 1 \<le> i \<Longrightarrow> i < nr_syscalls e \<Longrightarrow>
      (intercepted (entry i s) = 1) = (sys_call_table s ! i = Interceptor)"
    "\<And>i. 1 \<le> i \<Longrightarrow> i < nr_syscalls e \<Longrightarrow> intercepted (entry i s) = 1 \<Longrightarrow>
      f_orig (entry i s) \<noteq> Interceptor"
  using assms by (simp_all add: module_ok_def)

text \<open>A change of one entry's monitoring.\<close>

lemma module_ok_monitoring:
  assumes "module_ok e s" and "entry_ok (g (entry i s))"
    and "intercepted (g (entry i s)) = intercepted (entry i s)"
    and "f_orig (g (entry i s)) = f_orig (entry i s)"
  shows "module_ok e (upd_entry i g s)" and "kernel_fn j (upd_entry i g s) = kernel_fn j s"
  using assms by (auto simp: module_ok_def kernel_fn_def kstate_simps prot_ok_def)

lemma start_one_ok:
  assumes "entry_ok t" and "pid \<notin> set (my_list t)"
  shows "entry_ok (start_one e pid t)" "intercepted (start_one e pid t) = intercepted t"
    "f_orig (start_one e pid t) = f_orig t"
  using assms by (auto simp: start_one_def entry_ok_def Let_def)

lemma drop_one_fields:
  "intercepted (drop_one t) = intercepted t" "f_orig (drop_one t) = f_orig t"
  "my_list (drop_one t) = my_list t" "listcount (drop_one t) = listcount t - 1"
  by (simp_all add: drop_one_def Let_def)

lemma drop_one_ok:
  assumes "entry_ok t" and "pid \<in> set (my_list t)"
  shows "entry_ok (drop_one (t\<lparr>my_list := remove1 pid (my_list t)\<rparr>))"
proof -
  have "my_list t \<noteq> []" using assms(2) by auto
  then show ?thesis
    using assms by (auto simp: entry_ok_def drop_one_def Let_def length_remove1 of_nat_diff
        Suc_le_eq)
qed

lemma stop_one_ok:
  assumes "entry_ok t" and "pid \<in> set (my_list t)"
  shows "entry_ok (stop_one pid t)" "intercepted (stop_one pid t) = intercepted t"
    "f_orig (stop_one pid t) = f_orig t"
proof -
  have "entry_ok (t\<lparr>monitored := if monitored t = 2 then 1 else 0\<rparr>)"
    using assms(1) by (simp add: entry_ok_def)
  from drop_one_ok [OF this, of pid] assms(2) show "entry_ok (stop_one pid t)"
    by (simp add: stop_one_def Let_def)
qed (simp_all add: stop_one_def drop_one_fields Let_def)

lemma module_ok_intercept:
  assumes "module_ok e s" and "1 \<le> i" and "i < nr_syscalls e" and "intercepted (entry i s) \<noteq> 1"
    and "s' = (upd_entry i (\<lambda>t. t\<lparr>f_orig := sys_call_table s ! i, intercepted := 1\<rparr>) s)
      \<lparr>sys_call_table := (sys_call_table s)[i := Interceptor]\<rparr>"
  shows "module_ok e s'" and "kernel_fn j s' = kernel_fn j s"
  using assms
  by (auto simp: module_ok_def kernel_fn_def kstate_simps prot_ok_def entry_ok_def nth_list_update)

lemma module_ok_release:
  assumes "module_ok e s" and "1 \<le> i" and "i < nr_syscalls e" and "intercepted (entry i s) \<noteq> 0"
    and "s' = (upd_entry i (\<lambda>t. t\<lparr>intercepted := 0\<rparr>) s)
      \<lparr>sys_call_table := (sys_call_table s)[i := f_orig (entry i s)]\<rparr>"
  shows "module_ok e s'" and "kernel_fn j s' = kernel_fn j s"
proof -
  have "intercepted (entry i s) = 1"
    using module_okD(5) [OF assms(1), of i] assms(2-4) by (simp add: entry_ok_def)
  then show "module_ok e s'" "kernel_fn j s' = kernel_fn j s"
    using assms
    by (auto simp: module_ok_def kernel_fn_def kstate_simps prot_ok_def entry_ok_def nth_list_update)
qed

lemma check_args_cases:
  assumes "task_uid e (current_pid e) \<noteq> None"
  shows "(\<exists>err. check_args e cmd syscall pid = Ok (Some err) \<and> err < 0) \<or>
    check_args e cmd syscall pid = Ok None \<and> 1 \<le> syscall \<and> syscall \<le> int (nr_syscalls e)"
  using assms
  by (auto simp: check_args_def check_pid_from_list_def errnos MY_CUSTOM_SYSCALL_def
      split: option.splits)

lemma commands_keep:
  assumes ok: "module_ok e s" and i: "1 \<le> i" "i < nr_syscalls e"
  defines "keeps \<equiv> \<lambda>r s'. module_ok e s' \<and> (\<forall>j. kernel_fn j s' = kernel_fn j s) \<and>
    (r \<noteq> 0 \<and> kmalloc_ok e \<longrightarrow> s' = s)"
  shows "\<exists>r s'. do_intercept i s = Ok (r, s') \<and> keeps r s'"
    and "\<exists>r s'. do_release i s = Ok (r, s') \<and> keeps r s'"
    and "\<exists>r s'. do_start e i pid s = Ok (r, s') \<and> keeps r s'"
    and "\<exists>r s'. do_stop i pid s = Ok (r, s') \<and> keeps r s'"
proof -
  note d = module_okD(1-4) [OF ok]
  have lt: "i < length (table s)" "i < length (sys_call_table s)"
    using i d by auto
  have e: "entry_ok (entry i s)"
    using module_okD(5) [OF ok] i by simp
  show "\<exists>r s'. do_intercept i s = Ok (r, s') \<and> keeps r s'"
    using do_intercept_eq [OF d(3,4) lt] module_ok_intercept [OF ok i _ refl] ok
    by (auto simp: keeps_def)
  show "\<exists>r s'. do_release i s = Ok (r, s') \<and> keeps r s'"
    using do_release_eq [OF d(3,4) lt] module_ok_release [OF ok i _ refl] ok
    by (auto simp: keeps_def)
  have "entry_ok ((entry i s)\<lparr>monitored := 2\<rparr>)"
    using e by (simp add: entry_ok_def)
  then show "\<exists>r s'. do_start e i pid s = Ok (r, s') \<and> keeps r s'"
    using do_start_eq [OF d(3) lt(1)] ok module_ok_monitoring [OF ok, of "start_one e pid" i]
      module_ok_monitoring [OF ok, of "\<lambda>t. t\<lparr>monitored := 2\<rparr>" i] start_one_ok [OF e]
    by (auto simp: keeps_def)
  have "entry_ok ((entry i s)\<lparr>my_list := [], listcount := 0, monitored := 0\<rparr>)"
    using e by (simp add: entry_ok_def)
  then show "\<exists>r s'. do_stop i pid s = Ok (r, s') \<and> keeps r s'"
    using do_stop_eq [OF d(3) lt(1)] ok module_ok_monitoring [OF ok, of "stop_one pid" i]
      module_ok_monitoring [OF ok, of "\<lambda>t. t\<lparr>my_list := [], listcount := 0, monitored := 0\<rparr>" i]
      stop_one_ok [OF e]
    by (auto simp: keeps_def destroy_list_def)
qed

lemma my_syscall_keeps:
  assumes "module_ok e s" and "task_uid e (current_pid e) \<noteq> None" and "syscall \<noteq> int (nr_syscalls e)"
  shows "\<exists>r s'. my_syscall e cmd syscall pid s = Ok (r, s') \<and> module_ok e s' \<and>
    (\<forall>j. kernel_fn j s' = kernel_fn j s) \<and> (r \<noteq> 0 \<and> kmalloc_ok e \<longrightarrow> s' = s)"
  using check_args_cases [OF assms(2), of cmd syscall pid]
proof
  assume "\<exists>err. check_args e cmd syscall pid = Ok (Some err) \<and> err < 0"
  then show ?thesis using assms(1) by (auto simp: my_syscall_def)
next
  assume "check_args e cmd syscall pid = Ok None \<and> 1 \<le> syscall \<and> syscall \<le> int (nr_syscalls e)"
  then have c: "check_args e cmd syscall pid = Ok None" "1 \<le> nat syscall" "nat syscall < nr_syscalls e"
    using assms(3) by auto
  show ?thesis
    using commands_keep [OF assms(1) c(2,3)] assms(1) c(1) by (simp add: my_syscall_def)
qed

subsection \<open>The exit of a monitored process\<close>

lemma del_pid_list_absent: "pid \<notin> set todo \<Longrightarrow> del_pid_list pid kept todo t = (False, t)"
  by (induction todo arbitrary: kept) auto

lemma del_pid_list_eq:
  "distinct todo \<Longrightarrow> del_pid_list pid kept todo t =
    (pid \<in> set todo, if pid \<in> set todo then drop_one (t\<lparr>my_list := kept @ remove1 pid todo\<rparr>) else t)"
  by (induction todo arbitrary: kept) (auto simp: del_pid_list_absent)

definition leave :: "int \<Rightarrow> mytable \<Rightarrow> mytable" where
  "leave pid t = (if pid \<in> set (my_list t) then drop_one (t\<lparr>my_list := remove1 pid (my_list t)\<rparr>) else t)"

lemma leave_ok:
  assumes "entry_ok t"
  shows "entry_ok (leave pid t)" "intercepted (leave pid t) = intercepted t"
    "f_orig (leave pid t) = f_orig t" "set (my_list (leave pid t)) = set (my_list t) - {pid}"
  using assms drop_one_ok [OF assms, of pid]
  by (auto simp: leave_def drop_one_fields entry_ok_def)

lemma del_pid_fold:
  assumes "module_ok e s" and "set is \<subseteq> {1..nr_syscalls e}" and "distinct is"
  shows "\<exists>b s'. fold (\<lambda>i (found, s).
        let (b, t) = del_pid_list pid [] (my_list (entry i s)) (entry i s) in
        (found \<or> b, upd_entry i (\<lambda>_. t) s)) is (found, s) = (b, s') \<and>
    module_ok e s' \<and> (\<forall>j. kernel_fn j s' = kernel_fn j s) \<and> orig_exit_group s' = orig_exit_group s \<and>
    (\<forall>j. entry j s' = (if j \<in> set is then leave pid (entry j s) else entry j s))"
  using assms
proof (induction "is" arbitrary: found s)
  case (Cons i "is")
  have i: "1 \<le> i" "i \<le> nr_syscalls e" and e: "entry_ok (entry i s)" and lt: "i < length (table s)"
    using Cons.prems(2) module_okD(1,5) [OF Cons.prems(1)] by auto
  define t where "t = leave pid (entry i s)"
  have t: "entry_ok t" "intercepted t = intercepted (entry i s)" "f_orig t = f_orig (entry i s)"
    using leave_ok [OF e] by (simp_all add: t_def)
  have step: "del_pid_list pid [] (my_list (entry i s)) (entry i s) = (pid \<in> set (my_list (entry i s)), t)"
    using del_pid_list_eq [of "my_list (entry i s)" pid "[]"] e by (simp add: t_def leave_def entry_ok_def)
  let ?s = "upd_entry i (\<lambda>_. t) s"
  have s: "module_ok e ?s" "\<And>j. kernel_fn j ?s = kernel_fn j s"
    using module_ok_monitoring [OF Cons.prems(1), of "\<lambda>_. t" i] t by auto
  obtain b s' where r: "fold (\<lambda>i (found, s).
        let (b, t) = del_pid_list pid [] (my_list (entry i s)) (entry i s) in
        (found \<or> b, upd_entry i (\<lambda>_. t) s)) is (found \<or> pid \<in> set (my_list (entry i s)), ?s) = (b, s')"
    "module_ok e s'" "\<forall>j. kernel_fn j s' = kernel_fn j ?s" "orig_exit_group s' = orig_exit_group ?s"
    "\<forall>j. entry j s' = (if j \<in> set is then leave pid (entry j ?s) else entry j ?s)"
    using Cons.IH [OF s(1), of "found \<or> pid \<in> set (my_list (entry i s))"] Cons.prems(2,3) by auto
  have "entry j s' = (if j \<in> set (i # is) then leave pid (entry j s) else entry j s)" for j
    using r(5) Cons.prems(3) lt by (auto simp: kstate_simps t_def)
  then show ?case
    using r step s(2) by (simp add: kstate_simps)
qed simp

lemma my_exit_group_spec:
  assumes "module_ok e s"
  shows "\<exists>s'. my_exit_group e s = Ok (orig_exit_group s, s') \<and> module_ok e s' \<and>
    (\<forall>j. kernel_fn j s' = kernel_fn j s) \<and>
    (\<forall>j. entry j s' = (if 1 \<le> j \<and> j < nr_syscalls e then leave (current_pid e) (entry j s) else entry j s))"
proof -
  let ?s = "s\<lparr>held := {Pidlist_lock}\<rparr>"
  let ?g = "\<lambda>i (found, s). let (b, t) = del_pid_list (current_pid e) [] (my_list (entry i s)) (entry i s) in
        (found \<or> b, upd_entry i (\<lambda>_. t) s)"
  have unlocked: "fold ?g is (b, t\<lparr>held := h\<rparr>) =
      (let (b, t) = fold ?g is (b, t) in (b, t\<lparr>held := h\<rparr>))" for "is" b t h
    by (induction "is" arbitrary: b t) (auto simp: kstate_simps Let_def split: prod.splits)
  have sub: "set [1..<nr_syscalls e] \<subseteq> {1..nr_syscalls e}" by auto
  obtain b s' where r: "fold ?g [1..<nr_syscalls e] (False, s) = (b, s')" "module_ok e s'"
    "\<forall>j. kernel_fn j s' = kernel_fn j s" "orig_exit_group s' = orig_exit_group s"
    "\<forall>j. entry j s' = (if j \<in> set [1..<nr_syscalls e] then leave (current_pid e) (entry j s) else entry j s)"
    using del_pid_fold [OF assms sub distinct_upt, of "current_pid e" False] by blast
  have "held s' = {}" "held s = {}"
    using module_okD(3) r(2) assms by auto
  then have "my_exit_group e s = Ok (orig_exit_group s, s')"
    using r(1,4) unlocked [of "[1..<nr_syscalls e]" False "{Pidlist_lock}" s]
    by (simp add: my_exit_group_def spin_lock_def spin_unlock_def del_pid_def kstate_simps)
  then show ?thesis
    using r by auto
qed

subsection \<open>Calls that go through the interceptor\<close>

lemma interceptor_spec:
  assumes "module_ok e s" and "1 \<le> i" and "i < nr_syscalls e" and "intercepted (entry i s) = 1"
  shows "interceptor e i s = Ok (f_orig (entry i s),
    if current_pid e \<in> set (my_list (entry i s)) \<or> monitored (entry i s) = 2 then 1 else 0, s)"
proof -
  have lt: "i < length (table s)"
    using module_okD(1) [OF assms(1)] assms(3) by simp
  have f: "f_orig (entry i s) \<noteq> Interceptor"
    using module_okD(7) [OF assms(1-4)] .
  have "table s ! i = (table s ! i)\<lparr>intercepted := 1\<rparr>"
    using assms(4) by (cases "table s ! i") (simp add: entry_def)
  then have same: "upd_entry i (\<lambda>t. t\<lparr>intercepted := 1\<rparr>) s = s"
    by (simp add: upd_entry_def)
  have stop: "invoke e h i n s = Some (Ok (h, n, s))" if "h \<noteq> Interceptor" for h n
    using that by (subst invoke.simps) (simp split: handler.split)
  show ?thesis
    unfolding interceptor_def
    by (subst invoke.simps) (use lt same stop [OF f] in \<open>simp add: Let_def check_pid_monitored_iff not_le\<close>)
qed

text \<open>When the saved handler is the interceptor itself, the call never returns.\<close>

lemma interceptor_diverges:
  assumes "ax < length (table s)" and "f_orig (entry ax s) = Interceptor"
  shows "interceptor e ax s = Err Diverges"
proof -
  have "\<not> (h = Interceptor \<and> ax < length (table s) \<and> f_orig (entry ax s) = Interceptor)"
    if "invoke e h ax n s = Some r" for e h ax n s r
  proof (rule invoke.raw_induct [where P = "\<lambda>e h ax n s r. \<not> (h = Interceptor \<and> ax < length (table s) \<and>
        f_orig (entry ax s) = Interceptor)", OF _ that], rule notI, goal_cases)
    case (1 invoke e h ax n s r)
    define n' where "n' = (if check_pid_monitored ax (current_pid e) s = 1 \<or>
        monitored (entry ax s) = 2 then Suc n else n)"
    let ?s = "upd_entry ax (\<lambda>t. t\<lparr>intercepted := 1\<rparr>) s"
    have "f_orig (entry ax ?s) = Interceptor" "ax < length (table ?s)"
      using 1(3) by (simp_all add: kstate_simps)
    moreover from this have "invoke e Interceptor ax n' ?s = Some r"
      using 1(2,3) by (simp add: n'_def Let_def)
    ultimately show False using 1(1) by blast
  qed
  then show ?thesis
    using assms by (cases "invoke e Interceptor ax 0 s") (auto simp: interceptor_def)
qed

subsection \<open>A sample kernel\<close>

definition sample_env :: "nat \<Rightarrow> int \<Rightarrow> kenv" where
  "sample_env u pid = \<lparr>nr_syscalls = 4, nr_exit_group = 3, task_uid = (\<lambda>p. if 0 < p \<and> p < 100 then Some 7 else None),
     current_pid = pid, current_uid = u, kmalloc_ok = True\<rparr>"

definition quiet :: mytable where
  "quiet = \<lparr>f_orig = Original 0, intercepted = 0, monitored = 0, listcount = 0, my_list = []\<rparr>"

definition sample_kernel :: kstate where
  "sample_kernel = \<lparr>table = [quiet, quiet,
       quiet\<lparr>f_orig := Original 2, intercepted := 1, monitored := 1, listcount := 2, my_list := [9, 5]\<rparr>,
       quiet, quiet],
     sys_call_table = [My_syscall, Original 1, Interceptor, My_exit_group], sct_pte = 1, held = {},
     orig_custom_syscall = Original 0, orig_exit_group = Original 3\<rparr>"

lemma less_5_cases: "(i :: nat) \<le> 4 \<longleftrightarrow> i = 0 \<or> i = 1 \<or> i = 2 \<or> i = 3 \<or> i = 4" by auto

lemma sample_kernel_ok: "module_ok (sample_env u pid) sample_kernel"
proof -
  have "entry_ok (entry i sample_kernel)" if "1 \<le> i" "i \<le> 4" for i
    using that unfolding less_5_cases by (auto simp: sample_kernel_def entry_def quiet_def entry_ok_def)
  moreover have "(intercepted (entry i sample_kernel) = 1) = (sys_call_table sample_kernel ! i = Interceptor) \<and>
      (intercepted (entry i sample_kernel) = 1 \<longrightarrow> f_orig (entry i sample_kernel) \<noteq> Interceptor)"
    if "1 \<le> i" "i < 4" for i
  proof -
    have "i = 1 \<or> i = 2 \<or> i = 3" using that by auto
    then show ?thesis by (auto simp: sample_kernel_def entry_def quiet_def)
  qed
  ultimately show ?thesis
    by (simp add: module_ok_def sample_env_def prot_ok_def) (simp add: sample_kernel_def)
qed

subsection \<open>The list of one system call as a set of pids\<close>

text \<open>What the commands use of the list operations.\<close>

locale pid_set =
  fixes ok :: "'a \<Rightarrow> bool"
    and pids :: "'a \<Rightarrow> int set"
    and add del :: "int \<Rightarrow> 'a \<Rightarrow> int \<times> 'a"
    and member :: "int \<Rightarrow> 'a \<Rightarrow> int"
  assumes add_law: "ok s \<Longrightarrow> p \<notin> pids s \<Longrightarrow> add p s = (r, s') \<Longrightarrow>
      ok s' \<and> (r = 0 \<and> pids s' = insert p (pids s) \<or> r < 0 \<and> s' = s)"
    and del_law: "ok s \<Longrightarrow> del p s = (r, s') \<Longrightarrow>
      ok s' \<and> (r = 0 \<and> p \<in> pids s \<and> pids s' = pids s - {p} \<or> r < 0 \<and> p \<notin> pids s \<and> s' = s)"
    and member_law: "ok s \<Longrightarrow> member p s = (if p \<in> pids s then 1 else 0)"
begin

lemma add_del:
  assumes "ok s" and "p \<notin> pids s" and "add p s = (0, s')" and "del p s' = (r, s'')"
  shows "r = 0 \<and> pids s'' = pids s"
  using add_law [OF assms(1-3)] del_law [OF _ assms(4)] assms(2) by auto

lemma added_is_member:
  "ok s \<Longrightarrow> p \<notin> pids s \<Longrightarrow> add p s = (0, s') \<Longrightarrow> member q s' = (if q = p then 1 else member q s)"
  using add_law [of s p 0 s'] member_law by auto

end

interpretation monitored_pids:
  pid_set "\<lambda>s. sysc < length (table s) \<and> entry_ok (entry sysc s)" "\<lambda>s. set (my_list (entry sysc s))"
    "\<lambda>p. add_pid_sysc e p sysc" "\<lambda>p. del_pid_sysc p sysc" "\<lambda>p. check_pid_monitored sysc p"
  for e :: kenv and sysc :: nat
proof
  fix s s' :: kstate and p r
  assume ok: "sysc < length (table s) \<and> entry_ok (entry sysc s)" and n: "p \<notin> set (my_list (entry sysc s))"
    and a: "add_pid_sysc e p sysc s = (r, s')"
  show "(sysc < length (table s') \<and> entry_ok (entry sysc s')) \<and>
      (r = 0 \<and> set (my_list (entry sysc s')) = insert p (set (my_list (entry sysc s))) \<or> r < 0 \<and> s' = s)"
    using ok n a by (auto simp: add_pid_sysc_def kstate_simps entry_ok_def errnos split: if_splits)
next
  fix s s' :: kstate and p r
  assume ok: "sysc < length (table s) \<and> entry_ok (entry sysc s)"
    and d: "del_pid_sysc p sysc s = (r, s')"
  show "(sysc < length (table s') \<and> entry_ok (entry sysc s')) \<and>
      (r = 0 \<and> p \<in> set (my_list (entry sysc s)) \<and>
         set (my_list (entry sysc s')) = set (my_list (entry sysc s)) - {p} \<or>
       r < 0 \<and> p \<notin> set (my_list (entry sysc s)) \<and> s' = s)"
    using ok d drop_one_ok [of "entry sysc s" p]
    by (auto simp: del_pid_sysc_def kstate_simps errnos drop_one_fields entry_ok_def split: if_splits)
qed (simp add: check_pid_monitored_def)

subsection \<open>Properties\<close>

text \<open>
  C7. Every call of \<open>my_syscall\<close> on a table that meets the invariant returns, with all locks
  released, the system call table protected again, the invariant kept and no system call's
  original handler lost; a call that returns an error changes nothing, unless the error is that
  memory ran out.  (The number \<open>NR_syscalls\<close> itself is excluded.)
\<close>

theorem my_syscall_invariant:
  assumes "module_ok e s" and "task_uid e (current_pid e) \<noteq> None" and "syscall \<noteq> int (nr_syscalls e)"
  shows "\<exists>r s'. my_syscall e cmd syscall pid s = Ok (r, s') \<and> module_ok e s' \<and>
    (\<forall>j. kernel_fn j s' = kernel_fn j s) \<and> (r \<noteq> 0 \<and> kmalloc_ok e \<longrightarrow> s' = s)"
  by (rule my_syscall_keeps [OF assms])

theorem my_syscall_invariant_witness:
  "\<exists>r s'. my_syscall (sample_env 0 5) 1 1 0 sample_kernel = Ok (r, s') \<and>
    module_ok (sample_env 0 5) s' \<and> kernel_fn 1 s' = Original 1"
proof -
  have "task_uid (sample_env 0 5) (current_pid (sample_env 0 5)) \<noteq> None" "1 \<noteq> int (nr_syscalls (sample_env 0 5))"
    "kernel_fn 1 sample_kernel = Original 1"
    by (simp_all add: sample_env_def kernel_fn_def sample_kernel_def entry_def quiet_def)
  then show ?thesis
    using my_syscall_invariant [OF sample_kernel_ok, of 0 5 1 1 0] by metis
qed

text \<open>
  C30. Intercepting a system call and releasing it: root gets 0 from both, in between the call goes
  to the interceptor, which logs it as the monitoring flags say and passes it on to the original
  handler, and afterwards the system call table is what it was.
\<close>

theorem intercept_release_round_trip:
  assumes "module_ok e s" and "current_uid e = 0" and "1 \<le> i" and "i < nr_syscalls e"
    and "intercepted (entry i s) = 0"
  shows "\<exists>s1 s2. my_syscall e REQUEST_SYSCALL_INTERCEPT (int i) pid s = Ok (0, s1) \<and>
    sys_call_table s1 ! i = Interceptor \<and>
    interceptor e i s1 = Ok (sys_call_table s ! i,
      if current_pid e \<in> set (my_list (entry i s)) \<or> monitored (entry i s) = 2 then 1 else 0, s1) \<and>
    my_syscall e REQUEST_SYSCALL_RELEASE (int i) pid s1 = Ok (0, s2) \<and>
    sys_call_table s2 = sys_call_table s \<and> intercepted (entry i s2) = 0"
proof -
  note d = module_okD(1-4) [OF assms(1)]
  have lt: "i < length (table s)" "i < length (sys_call_table s)" using assms(4) d by auto
  define s1 where "s1 = (upd_entry i (\<lambda>t. t\<lparr>f_orig := sys_call_table s ! i, intercepted := 1\<rparr>) s)
    \<lparr>sys_call_table := (sys_call_table s)[i := Interceptor]\<rparr>"
  have args: "check_args e cmd (int i) pid = Ok None"
    if "cmd = REQUEST_SYSCALL_INTERCEPT \<or> cmd = REQUEST_SYSCALL_RELEASE" for cmd
    using that assms(2-4) by (auto simp: check_args_def requests MY_CUSTOM_SYSCALL_def)
  have 1: "my_syscall e REQUEST_SYSCALL_INTERCEPT (int i) pid s = Ok (0, s1)"
    using args do_intercept_eq [OF d(3,4) lt] assms(5) by (simp add: my_syscall_def s1_def)
  have ok1: "module_ok e s1"
    using module_ok_intercept(1) [OF assms(1,3,4) _ s1_def] assms(5) by simp
  note d1 = module_okD(1-4) [OF ok1]
  have lt1: "i < length (table s1)" "i < length (sys_call_table s1)" using assms(4) d1 by auto
  have e1: "entry i s1 = (entry i s)\<lparr>f_orig := sys_call_table s ! i, intercepted := 1\<rparr>"
    using lt by (simp add: s1_def kstate_simps)
  have 2: "my_syscall e REQUEST_SYSCALL_RELEASE (int i) pid s1 =
      Ok (0, (upd_entry i (\<lambda>t. t\<lparr>intercepted := 0\<rparr>) s1)
        \<lparr>sys_call_table := (sys_call_table s1)[i := sys_call_table s ! i]\<rparr>)"
    using args do_release_eq [OF d1(3,4) lt1] e1 by (simp add: my_syscall_def requests)
  have 3: "sys_call_table s1 ! i = Interceptor" "(sys_call_table s1)[i := sys_call_table s ! i] = sys_call_table s"
    using lt by (simp_all add: s1_def)
  show ?thesis
    using 1 2 3 interceptor_spec [OF ok1 assms(3,4)] e1 lt1(1) by (auto simp: kstate_simps)
qed

theorem intercept_release_round_trip_witness:
  "\<exists>s1 s2. my_syscall (sample_env 0 5) 1 1 0 sample_kernel = Ok (0, s1) \<and>
    my_syscall (sample_env 0 5) 2 1 0 s1 = Ok (0, s2) \<and> sys_call_table s2 = sys_call_table sample_kernel"
proof -
  have "current_uid (sample_env 0 5) = 0" "(1 :: nat) \<le> 1" "1 < nr_syscalls (sample_env 0 5)"
    "intercepted (entry 1 sample_kernel) = 0"
    by (simp_all add: sample_env_def sample_kernel_def entry_def quiet_def)
  from intercept_release_round_trip [OF sample_kernel_ok this, of 0] show ?thesis
    by (auto simp: requests)
qed

text \<open>
  C31. A caller that is not root changes the monitoring of processes of its own owner only: if its
  call changes the state, the command is one of the last two, for a pid that is not 0 and has the
  caller's uid, and neither the system call table nor any intercepted flag is changed.
\<close>

theorem only_own_processes:
  assumes "module_ok e s" and "current_uid e \<noteq> 0" and "syscall \<noteq> int (nr_syscalls e)"
    and "my_syscall e cmd syscall pid s = Ok (r, s')" and "s' \<noteq> s"
  shows "(cmd = REQUEST_START_MONITORING \<or> cmd = REQUEST_STOP_MONITORING) \<and> 0 < pid \<and>
    task_uid e pid = task_uid e (current_pid e) \<and> sys_call_table s' = sys_call_table s \<and>
    (\<forall>j. intercepted (entry j s') = intercepted (entry j s))"
proof -
  obtain a where a: "check_args e cmd syscall pid = Ok a"
    using assms(4) by (auto simp: my_syscall_def)
  then have "a = None"
    using assms(4,5) by (cases a) (auto simp: my_syscall_def)
  then have c: "cmd = REQUEST_START_MONITORING \<or> cmd = REQUEST_STOP_MONITORING" "0 < pid"
    "task_uid e pid = task_uid e (current_pid e)" "1 \<le> nat syscall" "nat syscall < length (table s)"
    using a assms(2,3) module_okD(1) [OF assms(1)]
    by (auto simp: check_args_def check_pid_from_list_def E_PERM_def MY_CUSTOM_SYSCALL_def
        split: if_splits option.splits)
  let ?i = "nat syscall"
  have run: "do_start e ?i pid s = Ok (r, s') \<or> do_stop ?i pid s = Ok (r, s')"
    using assms(4) a \<open>a = None\<close> c(1) by (auto simp: my_syscall_def requests)
  then have "s' = upd_entry ?i (start_one e pid) s \<or> s' = upd_entry ?i (stop_one pid) s"
    using do_start_eq [OF module_okD(3) [OF assms(1)] c(5), of e pid]
      do_stop_eq [OF module_okD(3) [OF assms(1)] c(5), of pid] c(2) assms(5)
    by (auto split: if_splits)
  moreover have "intercepted (start_one e pid t) = intercepted t" "intercepted (stop_one pid t) = intercepted t" for t
    by (simp_all add: start_one_def stop_one_def drop_one_fields Let_def)
  ultimately show ?thesis
    using c by (auto simp: kstate_simps)
qed

theorem only_own_processes_witness:
  "\<exists>r s'. my_syscall (sample_env 7 5) 3 1 8 sample_kernel = Ok (r, s') \<and>
    sys_call_table s' = sys_call_table sample_kernel"
proof -
  have env: "current_uid (sample_env 7 5) \<noteq> 0" "1 \<noteq> int (nr_syscalls (sample_env 7 5))"
    by (simp_all add: sample_env_def)
  have "\<exists>s'. my_syscall (sample_env 7 5) 3 1 8 sample_kernel = Ok (0, s') \<and> s' \<noteq> sample_kernel"
    by (simp add: my_syscall_def check_args_def check_pid_from_list_def sample_env_def requests
        MY_CUSTOM_SYSCALL_def E_PERM_def do_start_eq sample_kernel_def quiet_def entry_def
        upd_entry_def start_one_def Let_def)
  then show ?thesis
    using only_own_processes [OF sample_kernel_ok env] by blast
qed

text \<open>
  C32. When a process exits, \<open>my_exit_group\<close> takes its pid off the list of every system call from 1
  to \<open>NR_syscalls - 1\<close>, keeps the invariant, and goes on to the original \<open>exit_group\<close>.  The list of
  entry \<open>NR_syscalls\<close>, which \<open>my_syscall\<close> accepts, is not looked at.
\<close>

theorem exit_group_forgets_pid:
  assumes "module_ok e s"
  shows "\<exists>s'. my_exit_group e s = Ok (orig_exit_group s, s') \<and> module_ok e s' \<and>
    (\<forall>j. 1 \<le> j \<and> j < nr_syscalls e \<longrightarrow>
       set (my_list (entry j s')) = set (my_list (entry j s)) - {current_pid e}) \<and>
    entry (nr_syscalls e) s' = entry (nr_syscalls e) s"
proof -
  obtain s' where s': "my_exit_group e s = Ok (orig_exit_group s, s')" "module_ok e s'"
    "\<forall>j. entry j s' = (if 1 \<le> j \<and> j < nr_syscalls e then leave (current_pid e) (entry j s) else entry j s)"
    using my_exit_group_spec [OF assms] by blast
  then show ?thesis
    using leave_ok(4) [OF module_okD(5) [OF assms]] by (intro exI [of _ s']) auto
qed

theorem exit_group_forgets_pid_witness:
  "\<exists>s'. my_exit_group (sample_env 7 5) sample_kernel = Ok (Original 3, s') \<and>
    set (my_list (entry 2 s')) = {9}"
proof -
  have s: "orig_exit_group sample_kernel = Original 3" "set (my_list (entry 2 sample_kernel)) - {5} = {9}"
    "(1 :: nat) \<le> 2 \<and> 2 < nr_syscalls (sample_env 7 5)" "current_pid (sample_env 7 5) = 5"
    by (auto simp: sample_kernel_def sample_env_def entry_def)
  show ?thesis
    using exit_group_forgets_pid [OF sample_kernel_ok, of 7 5] unfolding s(1,4) using s(2,3) by metis
qed

text \<open>
  C33. Stopping the monitoring of one pid turns the flag of the system call off for the others: with
  two pids monitored (\<open>monitored = 1\<close>) it becomes 0 although a pid stays on the list, and monitoring of
  all pids (\<open>monitored = 2\<close>) becomes 1.  In the first case a request to monitor all pids, which was
  refused with \<open>EBUSY\<close> before, is now accepted.
\<close>

theorem stop_one_pid_clears_flag:
  assumes "module_ok e s" and "1 \<le> i" and "i < nr_syscalls e" and "intercepted (entry i s) = 1"
    and "p \<in> set (my_list (entry i s))" and "q \<in> set (my_list (entry i s))" and "p \<noteq> q" and "p \<noteq> 0"
  shows "\<exists>s'. do_stop i p s = Ok (0, s') \<and> q \<in> set (my_list (entry i s')) \<and>
    monitored (entry i s') = (if monitored (entry i s) = 2 then 1 else 0) \<and>
    (monitored (entry i s) = 1 \<longrightarrow> (\<exists>s''. do_start e i 0 s = Ok (E_BUSY, s) \<and> do_start e i 0 s' = Ok (0, s'')))"
proof -
  have lt: "i < length (table s)" using module_okD(1) [OF assms(1)] assms(3) by simp
  define s' where "s' = upd_entry i (stop_one p) s"
  have stop: "do_stop i p s = Ok (0, s')"
    using do_stop_eq [OF module_okD(3) [OF assms(1)] lt] assms by (simp add: s'_def)
  have e: "entry_ok (entry i s)" using module_okD(5) [OF assms(1)] assms(2,3) by simp
  have "q \<in> set (remove1 p (my_list (entry i s)))"
    using assms(6,7) by (simp add: in_set_remove1)
  moreover have "listcount (entry i s) - 1 \<noteq> 0"
  proof -
    have "card {p, q} \<le> card (set (my_list (entry i s)))"
      by (rule card_mono) (use assms(5,6) in auto)
    then have "2 \<le> length (my_list (entry i s))"
      using assms(7) card_length [of "my_list (entry i s)"] by simp
    then show ?thesis using e by (simp add: entry_ok_def)
  qed
  ultimately have f: "q \<in> set (my_list (entry i s'))"
    "monitored (entry i s') = (if monitored (entry i s) = 2 then 1 else 0)"
    using lt by (auto simp: s'_def kstate_simps stop_one_def drop_one_def Let_def)
  have "held s' = {}" "i < length (table s')"
    using lt module_okD(3) [OF assms(1)] by (simp_all add: s'_def kstate_simps)
  then show ?thesis
    using stop f do_start_eq [of s' i e 0] do_start_eq [OF module_okD(3) [OF assms(1)] lt, of e 0] by auto
qed

theorem stop_one_pid_clears_flag_witness:
  "\<exists>s'. do_stop 2 5 sample_kernel = Ok (0, s') \<and> 9 \<in> set (my_list (entry 2 s')) \<and>
    monitored (entry 2 s') = 0"
proof -
  have "(1 :: nat) \<le> 2" "2 < nr_syscalls (sample_env 0 5)" "intercepted (entry 2 sample_kernel) = 1"
    "5 \<in> set (my_list (entry 2 sample_kernel))" "9 \<in> set (my_list (entry 2 sample_kernel))"
    "(5 :: int) \<noteq> 9" "(5 :: int) \<noteq> 0" "monitored (entry 2 sample_kernel) = 1"
    by (simp_all add: sample_kernel_def sample_env_def entry_def quiet_def)
  from stop_one_pid_clears_flag [OF sample_kernel_ok this(1-7)] this(8) show ?thesis by auto
qed

text \<open>
  The argument check lets \<open>NR_syscalls\<close> itself pass, one past the end of the system call table:
  to intercept it reads, and to release it would write, outside \<open>sys_call_table\<close>.
\<close>

lemma syscall_bound_off_by_one:
  assumes "module_ok e s" and "current_uid e = 0" and "0 < nr_syscalls e"
    and "intercepted (entry (nr_syscalls e) s) = 0"
  shows "my_syscall e REQUEST_SYSCALL_INTERCEPT (int (nr_syscalls e)) pid s = Err Out_of_bounds"
  using assms
  by (simp add: my_syscall_def check_args_def requests MY_CUSTOM_SYSCALL_def do_intercept_def
      spin_lock_def module_ok_def read_sct_def)

lemma syscall_bound_sample:
  "my_syscall (sample_env 0 5) REQUEST_SYSCALL_INTERCEPT 4 0 sample_kernel = Err Out_of_bounds"
  using syscall_bound_off_by_one [OF sample_kernel_ok, of 0 5 0]
  by (simp add: sample_env_def sample_kernel_def entry_def quiet_def)

text \<open>\<open>release_all\<close> under \<open>calltable_lock\<close> stops at the first intercepted system call.\<close>

lemma release_all_stuck:
  assumes "Calltable_lock \<in> held s" and "current_uid e = 0"
    and "\<forall>i \<in> set is. 1 \<le> i \<and> i < nr_syscalls e \<or> intercepted (entry i s) \<noteq> 1"
    and "\<exists>i \<in> set is. intercepted (entry i s) = 1"
  shows "release_all e is s = Err Diverges"
  using assms
proof (induction "is")
  case (Cons i "is")
  show ?case
  proof (cases "intercepted (entry i s) = 1")
    case True
    then have "check_args e REQUEST_SYSCALL_RELEASE (int i) (int i) = Ok None"
      using Cons.prems by (auto simp: check_args_def requests MY_CUSTOM_SYSCALL_def)
    then show ?thesis
      using True Cons.prems(1) by (simp add: my_syscall_def requests do_release_def spin_lock_def)
  next
    case False
    then show ?thesis using Cons by auto
  qed
qed simp

lemma release_all_quiet:
  "\<forall>i \<in> set is. intercepted (entry i s) \<noteq> 1 \<Longrightarrow> release_all e is s = Ok s"
  by (induction "is") auto

lemma exit_function_quiet:
  assumes "module_ok e s" and "\<forall>i < nr_syscalls e. intercepted (entry i s) \<noteq> 1"
    and "nr_exit_group e < nr_syscalls e"
  shows "\<exists>s'. exit_function e s = Ok s' \<and> held s' = {} \<and>
    sys_call_table s' = (sys_call_table s)[MY_CUSTOM_SYSCALL := orig_custom_syscall s,
      nr_exit_group e := orig_exit_group s]"
proof -
  note d = module_okD(1-4) [OF assms(1)]
  let ?l = "s\<lparr>held := {Calltable_lock}\<rparr>"
  have "release_all e [0..<nr_syscalls e] ?l = Ok ?l"
    using assms(2) by (intro release_all_quiet) (simp add: kstate_simps)
  moreover have "sys_call_table s \<noteq> []" using d(2) assms(3) by auto
  ultimately show ?thesis
    using d assms(3) set_addr_rw_eq [of ?l]
    by (simp add: exit_function_def spin_lock_def prot_ok_def write_sct_def rw_writable
        MY_CUSTOM_SYSCALL_def spin_unlock_def set_addr_ro_def PAGE_RW_nonzero Let_def)
qed

text \<open>
  C34. Unloading the module while a system call is intercepted hangs: \<open>exit_function\<close> holds
  \<open>calltable_lock\<close> when it calls \<open>my_syscall\<close>, whose release takes the same lock again.  With nothing
  intercepted it returns, with its two system calls restored.
\<close>

theorem unload_deadlocks:
  assumes "module_ok e s" and "current_uid e = 0" and "intercepted (entry 0 s) = 0"
    and "1 \<le> nr_exit_group e" and "nr_exit_group e < nr_syscalls e"
  shows "if \<exists>i. 1 \<le> i \<and> i < nr_syscalls e \<and> intercepted (entry i s) = 1
    then exit_function e s = Err Diverges
    else \<exists>s'. exit_function e s = Ok s' \<and> held s' = {} \<and>
      sys_call_table s' = (sys_call_table s)[MY_CUSTOM_SYSCALL := orig_custom_syscall s,
        nr_exit_group e := orig_exit_group s]"
proof -
  note d = module_okD(1-4) [OF assms(1)]
  let ?l = "s\<lparr>held := {Calltable_lock}\<rparr>"
  have ent: "entry i ?l = entry i s" for i by (simp add: kstate_simps)
  show ?thesis
  proof (cases "\<exists>i. 1 \<le> i \<and> i < nr_syscalls e \<and> intercepted (entry i s) = 1")
    case True
    have "release_all e [0..<nr_syscalls e] ?l = Err Diverges"
    proof (rule release_all_stuck)
      show "\<forall>i \<in> set [0..<nr_syscalls e]. 1 \<le> i \<and> i < nr_syscalls e \<or> intercepted (entry i ?l) \<noteq> 1"
        using assms(3) ent by (metis atLeastLessThan_iff less_one not_less set_upt zero_neq_one)
      show "\<exists>i \<in> set [0..<nr_syscalls e]. intercepted (entry i ?l) = 1"
        using True by (auto simp: ent)
    qed (use assms(2) in simp_all)
    then show ?thesis
      using True d(3) by (simp add: exit_function_def spin_lock_def)
  next
    case False
    then have "\<forall>i < nr_syscalls e. intercepted (entry i s) \<noteq> 1"
      using assms(3) by (metis less_one not_less zero_neq_one)
    then show ?thesis using False exit_function_quiet [OF assms(1) _ assms(5)] by auto
  qed
qed

theorem unload_deadlocks_witness:
  "exit_function (sample_env 0 5) sample_kernel = Err Diverges"
proof -
  have "current_uid (sample_env 0 5) = 0" "intercepted (entry 0 sample_kernel) = 0"
    "1 \<le> nr_exit_group (sample_env 0 5)" "nr_exit_group (sample_env 0 5) < nr_syscalls (sample_env 0 5)"
    by (simp_all add: sample_env_def sample_kernel_def entry_def quiet_def)
  note u = unload_deadlocks [OF sample_kernel_ok this]
  have "1 \<le> (2 :: nat) \<and> 2 < nr_syscalls (sample_env 0 5) \<and> intercepted (entry 2 sample_kernel) = 1"
    by (simp add: sample_env_def sample_kernel_def entry_def quiet_def)
  then show ?thesis using u by (auto split: if_splits)
qed

end
