(* ===== verification/InterceptConc.thy ===== *)
theory InterceptConc
  imports InterceptProps
begin

section \<open>The commands of the module under interleaving\<close>

text \<open>
  The bodies of the commands as lists of atomic statements: taking and releasing a lock, a
  change or a test of the shared state, a return.  Threads run such lists, one statement of one
  thread at a time; a thread that wants a lock that is held waits.
\<close>

subsection \<open>Threads\<close>

datatype instr =
    Acquire spinlock
  | Release spinlock
  | Act "kstate \<Rightarrow> kstate"
  | Act_if "kstate \<Rightarrow> bool" "kstate \<Rightarrow> kstate" nat   \<comment> \<open>the change, then to this statement if the test held before it\<close>
  | Test "kstate \<Rightarrow> bool" nat   \<comment> \<open>go to this statement if true, else to the next\<close>
  | Return int

type_synonym thread = "instr list \<times> nat"
type_synonym config = "(nat \<Rightarrow> thread) \<times> kstate"

definition set_sct :: "nat \<Rightarrow> handler \<Rightarrow> kstate \<Rightarrow> kstate" where
  "set_sct i h s = s\<lparr>sys_call_table := (sys_call_table s)[i := h]\<rparr>"

definition intercept_code :: "nat \<Rightarrow> instr list" where
  "intercept_code i =
     [Test (\<lambda>s. intercepted (entry i s) \<noteq> 1) 2,
      Return E_BUSY,
      Acquire Calltable_lock,
      Act (\<lambda>s. upd_entry i (\<lambda>t. t\<lparr>f_orig := sys_call_table s ! i\<rparr>) s),
      Act (upd_entry i (\<lambda>t. t\<lparr>intercepted := 1\<rparr>)),
      Act set_addr_rw,
      Act (set_sct i Interceptor),
      Act set_addr_ro,
      Release Calltable_lock,
      Return 0]"

definition start_code :: "kenv \<Rightarrow> nat \<Rightarrow> int \<Rightarrow> instr list" where
  "start_code e i pid =
     [Acquire Pidlist_lock,
      Acquire Calltable_lock,
      Test (\<lambda>s. check_pid_monitored i pid s \<noteq> 1) 6,
      Release Calltable_lock,
      Release Pidlist_lock,
      Return E_BUSY,
      Release Pidlist_lock,
      Act (\<lambda>s. if monitored (entry i s) = 0 then upd_entry i (\<lambda>t. t\<lparr>monitored := 1\<rparr>) s else s),
      Acquire Pidlist_lock,
      Act (\<lambda>s. snd (add_pid_sysc e pid i s)),
      Release Pidlist_lock,
      Release Calltable_lock,
      Return (if kmalloc_ok e then 0 else E_NOMEM)]"

definition release_code :: "nat \<Rightarrow> instr list" where
  "release_code i =
     [Test (\<lambda>s. intercepted (entry i s) \<noteq> 0) 2,
      Return E_INVAL,
      Acquire Calltable_lock,
      Act set_addr_rw,
      Act (\<lambda>s. set_sct i (f_orig (entry i s)) s),
      Act set_addr_ro,
      Act (upd_entry i (\<lambda>t. t\<lparr>intercepted := 0\<rparr>)),
      Release Calltable_lock,
      Return 0]"

definition start_all_code :: "nat \<Rightarrow> instr list" where
  "start_all_code i =
     [Acquire Calltable_lock,
      Test (\<lambda>s. monitored (entry i s) \<noteq> 2 \<and> monitored (entry i s) \<noteq> 1) 4,
      Release Calltable_lock,
      Return E_BUSY,
      Act (upd_entry i (\<lambda>t. t\<lparr>monitored := 2\<rparr>)),
      Release Calltable_lock,
      Return 0]"

text \<open>The result of \<open>del_pid_sysc\<close> is kept in the place the thread goes to.\<close>

definition stop_code :: "nat \<Rightarrow> int \<Rightarrow> instr list" where
  "stop_code i pid =
     [Acquire Calltable_lock,
      Test (\<lambda>s. intercepted (entry i s) \<noteq> 0) 4,
      Release Calltable_lock,
      Return E_INVAL,
      Release Calltable_lock,
      Acquire Pidlist_lock,
      Acquire Calltable_lock,
      Test (\<lambda>s. check_pid_monitored i pid s \<noteq> 0) 11,
      Release Calltable_lock,
      Release Pidlist_lock,
      Return E_INVAL,
      Release Pidlist_lock,
      Act (\<lambda>s. if monitored (entry i s) = 2 then upd_entry i (\<lambda>t. t\<lparr>monitored := 1\<rparr>) s
                else upd_entry i (\<lambda>t. t\<lparr>monitored := 0\<rparr>) s),
      Acquire Pidlist_lock,
      Act_if (\<lambda>s. fst (del_pid_sysc pid i s) = 0) (\<lambda>s. snd (del_pid_sysc pid i s)) 18,
      Release Calltable_lock,
      Release Pidlist_lock,
      Return E_INVAL,
      Release Calltable_lock,
      Release Pidlist_lock,
      Return 0]"

definition stop_all_code :: "nat \<Rightarrow> instr list" where
  "stop_all_code i =
     [Acquire Calltable_lock,
      Test (\<lambda>s. intercepted (entry i s) \<noteq> 0) 4,
      Release Calltable_lock,
      Return E_INVAL,
      Release Calltable_lock,
      Acquire Calltable_lock,
      Test (\<lambda>s. monitored (entry i s) = 2) 9,
      Release Calltable_lock,
      Return E_INVAL,
      Act (destroy_list i),
      Release Calltable_lock,
      Return 0]"

text \<open>\<open>my_exit_group\<close>: \<open>del_pid\<close> goes through the system calls below \<open>NR_syscalls\<close>, list by list.\<close>

definition exit_code :: "kenv \<Rightarrow> int \<Rightarrow> instr list" where
  "exit_code e pid =
     Acquire Pidlist_lock #
     map (\<lambda>j. Act (\<lambda>s. upd_entry j (\<lambda>t. snd (del_pid_list pid [] (my_list t) t)) s)) [1..<nr_syscalls e] @
     [Release Pidlist_lock, Return 0]"

text \<open>One statement of thread \<open>t\<close>; \<open>None\<close> when it has to wait or has returned.\<close>

definition exec :: "nat \<Rightarrow> config \<Rightarrow> config option" where
  "exec t c =
     (let (code, pc) = fst c t; s = snd c;
          next = (\<lambda>pc s. Some ((fst c)(t := (code, pc)), s)) in
      if pc \<ge> length code then None
      else case code ! pc of
        Acquire l \<Rightarrow> if l \<in> held s then None else next (Suc pc) (s\<lparr>held := insert l (held s)\<rparr>)
      | Release l \<Rightarrow> next (Suc pc) (spin_unlock l s)
      | Act g \<Rightarrow> next (Suc pc) (g s)
      | Act_if b g k \<Rightarrow> next (if b s then k else Suc pc) (g s)
      | Test b k \<Rightarrow> next (if b s then k else Suc pc) s
      | Return r \<Rightarrow> None)"

inductive reaches :: "config \<Rightarrow> config \<Rightarrow> bool" where
  here: "reaches c c"
| step: "exec t c = Some c' \<Longrightarrow> reaches c' c'' \<Longrightarrow> reaches c c''"

fun run_schedule :: "nat list \<Rightarrow> config \<Rightarrow> config option" where
  "run_schedule [] c = Some c"
| "run_schedule (t # ts) c = (case exec t c of None \<Rightarrow> None | Some c' \<Rightarrow> run_schedule ts c')"

lemma reaches_schedule: "run_schedule ts c = Some c' \<Longrightarrow> reaches c c'"
  by (induction ts arbitrary: c) (auto intro: reaches.intros split: option.splits)

text \<open>The value a thread has returned, if it is at a \<open>return\<close>.\<close>

definition returned :: "thread \<Rightarrow> int option" where
  "returned th = (if snd th < length (fst th) then
     (case fst th ! snd th of Return r \<Rightarrow> Some r | _ \<Rightarrow> None) else None)"

definition stuck :: "config \<Rightarrow> nat set \<Rightarrow> bool" where
  "stuck c ts \<longleftrightarrow> (\<forall>t \<in> ts. exec t c = None \<and> returned (fst c t) = None)"

subsection \<open>One thread alone\<close>

definition solo :: "instr list \<Rightarrow> kstate \<Rightarrow> config" where
  "solo code s = (\<lambda>_. (code, 0), s)"

lemmas exec_simps = exec_def Let_def spin_unlock_def

subsection \<open>Two threads\<close>

definition two_threads :: "instr list \<Rightarrow> instr list \<Rightarrow> kstate \<Rightarrow> config" where
  "two_threads a b s = (\<lambda>t. if t = 0 then (a, 0) else (b, 0), s)"

lemma start_start_schedule:
  assumes "held s = {}" and "i < length (table s)" and "p \<notin> set (my_list (entry i s))"
  shows "\<exists>c. run_schedule [0, 0, 0, 0, 0, 1] (two_threads (start_code e i p) (start_code e i q) s) = Some c \<and>
    stuck c {0, 1}"
  using assms
  by (simp add: two_threads_def exec_simps start_code_def kstate_simps stuck_def returned_def)

lemma intercept_race_schedule:
  assumes "held s = {}" and "prot_ok s" and "i < length (table s)" and "i < length (sys_call_table s)"
    and "intercepted (entry i s) \<noteq> 1"
  shows "\<exists>c. run_schedule [0, 1, 0, 0, 0, 0, 0, 0, 0, 1, 1, 1, 1, 1, 1, 1]
      (two_threads (intercept_code i) (intercept_code i) s) = Some c \<and>
    returned (fst c 0) = Some 0 \<and> returned (fst c 1) = Some 0 \<and>
    i < length (table (snd c)) \<and> f_orig (entry i (snd c)) = Interceptor"
  using assms
  by (simp add: two_threads_def exec_simps intercept_code_def kstate_simps returned_def
      set_sct_def set_addr_rw_def set_addr_ro_def)

subsection \<open>Properties\<close>

text \<open>
  C36. Two start commands can deadlock: each gives up and takes again \<open>pidlist_lock\<close> while it holds
  \<open>calltable_lock\<close>, which reverses the order in which the other takes the two.  From a state in which
  no lock is held, with the pid of the first thread not monitored, six statements lead to a state
  in which both threads wait for ever.
\<close>

theorem start_monitoring_deadlock:
  assumes "held s = {}" and "i < length (table s)" and "p \<notin> set (my_list (entry i s))"
  shows "\<exists>c. reaches (two_threads (start_code e i p) (start_code e i q) s) c \<and> stuck c {0, 1}"
  using start_start_schedule [OF assms, of e q] reaches_schedule by blast

theorem start_monitoring_deadlock_witness:
  "\<exists>c. reaches (two_threads (start_code (sample_env 0 5) 1 8) (start_code (sample_env 0 5) 1 9) sample_kernel) c \<and>
    stuck c {0, 1}"
  by (rule start_monitoring_deadlock) (simp_all add: sample_kernel_def entry_def quiet_def)

text \<open>
  C37. The test that a system call is not intercepted yet is made before the lock is taken: two
  threads that intercept the same call can both succeed.  The second saves the interceptor as the
  original handler, and the intercepted call then never returns.
\<close>

theorem double_intercept_race:
  assumes "held s = {}" and "prot_ok s" and "i < length (table s)" and "i < length (sys_call_table s)"
    and "intercepted (entry i s) \<noteq> 1"
  shows "\<exists>c. reaches (two_threads (intercept_code i) (intercept_code i) s) c \<and>
    returned (fst c 0) = Some 0 \<and> returned (fst c 1) = Some 0 \<and>
    interceptor e i (snd c) = Err Diverges"
  using intercept_race_schedule [OF assms] reaches_schedule interceptor_diverges by metis

theorem double_intercept_race_witness:
  "\<exists>c. reaches (two_threads (intercept_code 1) (intercept_code 1) sample_kernel) c \<and>
    interceptor (sample_env 0 5) 1 (snd c) = Err Diverges"
proof -
  have "held sample_kernel = {}" "prot_ok sample_kernel" "1 < length (table sample_kernel)"
    "1 < length (sys_call_table sample_kernel)" "intercepted (entry 1 sample_kernel) \<noteq> 1"
    by (simp_all add: sample_kernel_def entry_def quiet_def prot_ok_def)
  from double_intercept_race [OF this] show ?thesis by blast
qed

end
