(* ===== verification/InterceptCmds.thy ===== *)
theory InterceptCmds
  imports InterceptConc
begin

section \<open>All commands of the module, alone and together\<close>

text \<open>
  The statement lists of all commands: each, run by one thread alone, is the command of \<open>Intercept\<close>;
  and whatever mixture of them any number of threads runs on a system call, in whatever order the
  statements come, the list of monitored pids stays consistent.
\<close>

datatype cmd = Intercept | Release_call | Start int | Start_all | Stop int | Stop_all | Exit_group int

definition cmd_code :: "kenv \<Rightarrow> nat \<Rightarrow> cmd \<Rightarrow> instr list" where
  "cmd_code e i k = (case k of
       Intercept \<Rightarrow> intercept_code i
     | Release_call \<Rightarrow> release_code i
     | Start p \<Rightarrow> start_code e i p
     | Start_all \<Rightarrow> start_all_code i
     | Stop p \<Rightarrow> stop_code i p
     | Stop_all \<Rightarrow> stop_all_code i
     | Exit_group p \<Rightarrow> exit_code e p)"

text \<open>The same command in one piece.\<close>

definition do_cmd :: "kenv \<Rightarrow> nat \<Rightarrow> cmd \<Rightarrow> kstate \<Rightarrow> (int \<times> kstate) res" where
  "do_cmd e i k s = (case k of
       Intercept \<Rightarrow> do_intercept i s
     | Release_call \<Rightarrow> do_release i s
     | Start p \<Rightarrow> do_start e i p s
     | Start_all \<Rightarrow> do_start e i 0 s
     | Stop p \<Rightarrow> do_stop i p s
     | Stop_all \<Rightarrow> do_stop i 0 s
     | Exit_group p \<Rightarrow> res_bind (my_exit_group (e\<lparr>current_pid := p\<rparr>) s) (\<lambda>(h, s). Ok (0, s)))"

subsection \<open>One statement\<close>

definition instr_step :: "instr \<Rightarrow> nat \<Rightarrow> kstate \<Rightarrow> (nat \<times> kstate) option" where
  "instr_step ins pc s = (case ins of
       Acquire l \<Rightarrow> if l \<in> held s then None else Some (Suc pc, s\<lparr>held := insert l (held s)\<rparr>)
     | Release l \<Rightarrow> Some (Suc pc, spin_unlock l s)
     | Act g \<Rightarrow> Some (Suc pc, g s)
     | Act_if b g k \<Rightarrow> Some (if b s then k else Suc pc, g s)
     | Test b k \<Rightarrow> Some (if b s then k else Suc pc, s)
     | Return r \<Rightarrow> None)"

lemma exec_eq:
  assumes "fst c t = (code, pc)"
  shows "exec t c = (if pc < length code then
    map_option (\<lambda>(pc', s'). ((fst c)(t := (code, pc')), s')) (instr_step (code ! pc) pc (snd c)) else None)"
  using assms by (auto simp: exec_def instr_step_def Let_def split: instr.splits)

subsection \<open>Each command alone\<close>

text \<open>\<open>n\<close> statements of one thread.\<close>

fun alone :: "nat \<Rightarrow> instr list \<Rightarrow> nat \<Rightarrow> kstate \<Rightarrow> (nat \<times> kstate) option" where
  "alone 0 code pc s = Some (pc, s)"
| "alone (Suc n) code pc s =
     (if pc < length code then
        (case instr_step (code ! pc) pc s of None \<Rightarrow> None | Some (pc, s) \<Rightarrow> alone n code pc s)
      else None)"

lemma alone_schedule:
  "alone n code pc s = Some (pc', s') \<Longrightarrow> th 0 = (code, pc) \<Longrightarrow>
    \<exists>th'. run_schedule (replicate n 0) (th, s) = Some (th', s') \<and> th' 0 = (code, pc')"
proof (induction n arbitrary: pc s th)
  case (Suc n)
  obtain pc1 s1 where p: "pc < length code" "instr_step (code ! pc) pc s = Some (pc1, s1)"
    "alone n code pc1 s1 = Some (pc', s')"
    using Suc.prems(1) by (auto split: if_splits option.splits)
  have "exec 0 (th, s) = Some (th(0 := (code, pc1)), s1)"
    using exec_eq [of "(th, s)" 0 code pc] p(1,2) Suc.prems(2) by simp
  then show ?case using Suc.IH [OF p(3), of "th(0 := (code, pc1))"] by (simp add: fun_upd_def)
qed simp

lemma alone_append: "alone n code pc s = Some (pc1, s1) \<Longrightarrow> alone m code pc1 s1 = r \<Longrightarrow> alone (n + m) code pc s = r"
  by (induction n arbitrary: pc s) (auto split: if_splits option.splits)

text \<open>\<open>ends code s r s'\<close>: alone from the start, the list gets to a \<open>return\<close> of \<open>r\<close> with state \<open>s'\<close>.\<close>

definition ends :: "instr list \<Rightarrow> kstate \<Rightarrow> int \<Rightarrow> kstate \<Rightarrow> bool" where
  "ends code s r s' \<longleftrightarrow> (\<exists>n pc. alone n code 0 s = Some (pc, s') \<and> pc < length code \<and> code ! pc = Return r)"

lemma endsI: "alone n code 0 s = Some (pc, s') \<Longrightarrow> pc < length code \<Longrightarrow> code ! pc = Return r \<Longrightarrow> ends code s r s'"
  by (auto simp: ends_def)

lemmas code_simps = instr_step_def spin_unlock_def kstate_simps numeral_eq_Suc

lemma start_ends:
  assumes "held s = {}" and "i < length (table s)" and "p \<noteq> 0"
  shows "\<exists>r s'. do_start e i p s = Ok (r, s') \<and> ends (start_code e i p) s r s'"
proof (cases "p \<in> set (my_list (entry i s))")
  case True
  have "ends (start_code e i p) s E_BUSY s"
    by (rule endsI [where n = 5 and pc = 5]) (use assms True in \<open>simp_all add: start_code_def code_simps\<close>)
  then show ?thesis using assms True unfolding do_start_eq [OF assms(1,2)] by auto
next
  case False
  have "ends (start_code e i p) s (if kmalloc_ok e then 0 else E_NOMEM) (upd_entry i (start_one e p) s)"
    by (rule endsI [where n = 9 and pc = 12])
      (use assms False in \<open>simp_all add: start_code_def code_simps start_one_steps [symmetric] add_pid_sysc_def\<close>)
  then show ?thesis using assms False unfolding do_start_eq [OF assms(1,2)] by auto
qed

lemma start_all_ends:
  assumes "held s = {}" and "i < length (table s)"
  shows "\<exists>r s'. do_start e i 0 s = Ok (r, s') \<and> ends (start_all_code i) s r s'"
proof (cases "monitored (entry i s) = 2 \<or> monitored (entry i s) = 1")
  case True
  have "ends (start_all_code i) s E_BUSY s"
    by (rule endsI [where n = 3 and pc = 3]) (use assms True in \<open>auto simp: start_all_code_def code_simps\<close>)
  then show ?thesis using True unfolding do_start_eq [OF assms] by auto
next
  case False
  have "ends (start_all_code i) s 0 (upd_entry i (\<lambda>t. t\<lparr>monitored := 2\<rparr>) s)"
    by (rule endsI [where n = 4 and pc = 6]) (use assms False in \<open>auto simp: start_all_code_def code_simps\<close>)
  then show ?thesis using False unfolding do_start_eq [OF assms] by auto
qed

lemma stop_ends:
  assumes "held s = {}" and "i < length (table s)" and "p \<noteq> 0"
  shows "\<exists>r s'. do_stop i p s = Ok (r, s') \<and> ends (stop_code i p) s r s'"
proof -
  consider "intercepted (entry i s) = 0" | "intercepted (entry i s) \<noteq> 0" "p \<notin> set (my_list (entry i s))"
    | "intercepted (entry i s) \<noteq> 0" "p \<in> set (my_list (entry i s))" by blast
  then show ?thesis
  proof cases
    case 1
    have "ends (stop_code i p) s E_INVAL s"
      by (rule endsI [where n = 3 and pc = 3]) (use assms 1 in \<open>auto simp: stop_code_def code_simps\<close>)
    then show ?thesis using 1 unfolding do_stop_eq [OF assms(1,2)] by auto
  next
    case 2
    have "ends (stop_code i p) s E_INVAL s"
      by (rule endsI [where n = 8 and pc = 10]) (use assms 2 in \<open>auto simp: stop_code_def code_simps\<close>)
    then show ?thesis using 2 assms(3) unfolding do_stop_eq [OF assms(1,2)] by auto
  next
    case 3
    have "ends (stop_code i p) s 0 (upd_entry i (stop_one p) s)"
      by (rule endsI [where n = 12 and pc = 20])
        (use assms 3 in \<open>auto simp: stop_code_def code_simps del_pid_sysc_def upd_entry_upd stop_one_def Let_def
           entry_def upd_entry_def\<close>)
    then show ?thesis using 3 assms(3) unfolding do_stop_eq [OF assms(1,2)] by auto
  qed
qed

lemma stop_all_ends:
  assumes "held s = {}" and "i < length (table s)"
  shows "\<exists>r s'. do_stop i 0 s = Ok (r, s') \<and> ends (stop_all_code i) s r s'"
proof -
  consider "intercepted (entry i s) = 0" | "intercepted (entry i s) \<noteq> 0" "monitored (entry i s) \<noteq> 2"
    | "intercepted (entry i s) \<noteq> 0" "monitored (entry i s) = 2" by blast
  then show ?thesis
  proof cases
    case 1
    have "ends (stop_all_code i) s E_INVAL s"
      by (rule endsI [where n = 3 and pc = 3]) (use assms 1 in \<open>auto simp: stop_all_code_def code_simps\<close>)
    then show ?thesis using 1 unfolding do_stop_eq [OF assms] by auto
  next
    case 2
    have "ends (stop_all_code i) s E_INVAL s"
      by (rule endsI [where n = 6 and pc = 8]) (use assms 2 in \<open>auto simp: stop_all_code_def code_simps\<close>)
    then show ?thesis using 2 unfolding do_stop_eq [OF assms] by auto
  next
    case 3
    have "ends (stop_all_code i) s 0 (destroy_list i s)"
      by (rule endsI [where n = 7 and pc = 11])
        (use assms 3 in \<open>auto simp: stop_all_code_def code_simps destroy_list_def\<close>)
    then show ?thesis using 3 unfolding do_stop_eq [OF assms] by auto
  qed
qed

lemma intercept_ends:
  assumes "held s = {}" and "prot_ok s" and "i < length (table s)" and "i < length (sys_call_table s)"
  shows "\<exists>r s'. do_intercept i s = Ok (r, s') \<and> ends (intercept_code i) s r s'"
proof (cases "intercepted (entry i s) = 1")
  case True
  have "ends (intercept_code i) s E_BUSY s"
    by (rule endsI [where n = 1 and pc = 1]) (use True in \<open>auto simp: intercept_code_def code_simps\<close>)
  then show ?thesis using True unfolding do_intercept_eq [OF assms] by auto
next
  case False
  have "ends (intercept_code i) s 0 ((upd_entry i (\<lambda>t. t\<lparr>f_orig := sys_call_table s ! i, intercepted := 1\<rparr>) s)
       \<lparr>sys_call_table := (sys_call_table s)[i := Interceptor]\<rparr>)"
    by (rule endsI [where n = 8 and pc = 9])
      (use assms False in \<open>simp_all add: intercept_code_def code_simps set_sct_def set_addr_rw_eq prot_ok_def
         set_addr_ro_def rw_ro upd_entry_def\<close>)
  then show ?thesis using False unfolding do_intercept_eq [OF assms] by auto
qed

lemma release_ends:
  assumes "held s = {}" and "prot_ok s" and "i < length (table s)" and "i < length (sys_call_table s)"
  shows "\<exists>r s'. do_release i s = Ok (r, s') \<and> ends (release_code i) s r s'"
proof (cases "intercepted (entry i s) = 0")
  case True
  have "ends (release_code i) s E_INVAL s"
    by (rule endsI [where n = 1 and pc = 1]) (use True in \<open>auto simp: release_code_def code_simps\<close>)
  then show ?thesis using True unfolding do_release_eq [OF assms] by auto
next
  case False
  have "ends (release_code i) s 0 ((upd_entry i (\<lambda>t. t\<lparr>intercepted := 0\<rparr>) s)
       \<lparr>sys_call_table := (sys_call_table s)[i := f_orig (entry i s)]\<rparr>)"
    by (rule endsI [where n = 7 and pc = 8])
      (use assms False in \<open>simp_all add: release_code_def code_simps set_sct_def set_addr_rw_eq prot_ok_def
         set_addr_ro_def rw_ro upd_entry_def entry_def\<close>)
  then show ?thesis using False unfolding do_release_eq [OF assms] by auto
qed

text \<open>\<open>my_exit_group\<close>: the loop of \<open>del_pid\<close> is the fold of its statements.\<close>

definition leave_list :: "int \<Rightarrow> nat \<Rightarrow> kstate \<Rightarrow> kstate" where
  "leave_list pid j s = upd_entry j (\<lambda>t. snd (del_pid_list pid [] (my_list t) t)) s"

lemma exit_code_eq:
  "exit_code e pid = Acquire Pidlist_lock # map (\<lambda>j. Act (leave_list pid j)) [1..<nr_syscalls e] @ [Release Pidlist_lock, Return 0]"
  by (simp add: exit_code_def leave_list_def [abs_def])

lemma alone_acts:
  "(\<And>k. k < length js \<Longrightarrow> code ! (pc + k) = Act (f (js ! k))) \<Longrightarrow> pc + length js \<le> length code \<Longrightarrow>
    alone (length js) code pc s = Some (pc + length js, fold f js s)"
proof (induction js arbitrary: pc s)
  case (Cons j js)
  have "code ! (Suc pc + k) = Act (f (js ! k))" if "k < length js" for k
    using Cons.prems(1) [of "Suc k"] that by simp
  then show ?case
    using Cons.prems(1) [of 0] Cons.prems(2) Cons.IH [of "Suc pc" "f j s"] by (simp add: instr_step_def)
qed simp

lemma leave_fold:
  "snd (fold (\<lambda>i (found, s). let (b, t) = del_pid_list pid [] (my_list (entry i s)) (entry i s) in
        (found \<or> b, upd_entry i (\<lambda>_. t) s)) js (b, s)) = fold (leave_list pid) js s"
  by (induction js arbitrary: b s) (simp_all add: leave_list_def upd_entry_def entry_def case_prod_unfold Let_def)

lemma exit_ends:
  assumes "held s = {}"
  shows "\<exists>h s'. my_exit_group (e\<lparr>current_pid := pid\<rparr>) s = Ok (h, s') \<and> ends (exit_code e pid) s 0 s'"
proof -
  let ?js = "[1..<nr_syscalls e]" and ?s = "s\<lparr>held := {Pidlist_lock}\<rparr>"
  let ?t = "fold (leave_list pid) ?js ?s"
  have len: "length (exit_code e pid) = length ?js + 3" by (simp add: exit_code_def)
  have nth: "exit_code e pid ! (1 + k) = Act (leave_list pid (?js ! k))" if "k < length ?js" for k
    using that by (simp add: exit_code_eq nth_append)
  have nths: "exit_code e pid ! (1 + length ?js) = Release Pidlist_lock" "exit_code e pid ! (2 + length ?js) = Return 0"
    unfolding exit_code_eq by (simp_all add: nth_append)
  have 1: "alone 1 (exit_code e pid) 0 s = Some (1, ?s)"
    using assms by (simp add: exit_code_def instr_step_def)
  have 2: "alone (length ?js) (exit_code e pid) 1 ?s = Some (1 + length ?js, ?t)"
    by (rule alone_acts [OF nth]) (simp_all add: len)
  have 3: "alone 1 (exit_code e pid) (1 + length ?js) ?t = Some (2 + length ?js, spin_unlock Pidlist_lock ?t)"
    using nths(1) len by (simp add: instr_step_def)
  have lt: "2 + length ?js < length (exit_code e pid)" using len by simp
  have "ends (exit_code e pid) s 0 (spin_unlock Pidlist_lock ?t)"
    by (rule endsI [OF alone_append [OF alone_append [OF 1 2] 3] lt nths(2)])
  moreover have "my_exit_group (e\<lparr>current_pid := pid\<rparr>) s = Ok (orig_exit_group (spin_unlock Pidlist_lock ?t), spin_unlock Pidlist_lock ?t)"
    using assms leave_fold [of pid "[1..<nr_syscalls e]" False ?s]
    by (simp add: my_exit_group_def spin_lock_def del_pid_def case_prod_unfold Let_def)
  ultimately show ?thesis by blast
qed

subsection \<open>Any number of threads\<close>

text \<open>The places of a command between taking and releasing \<open>calltable_lock\<close>.\<close>

definition in_section :: "cmd \<Rightarrow> nat \<Rightarrow> bool" where
  "in_section k pc \<longleftrightarrow> (case k of
       Intercept \<Rightarrow> pc \<in> {3, 4, 5, 6, 7, 8}
     | Release_call \<Rightarrow> pc \<in> {3, 4, 5, 6, 7}
     | Start p \<Rightarrow> pc \<in> {2, 3, 6, 7, 8, 9, 10, 11}
     | Start_all \<Rightarrow> pc \<in> {1, 2, 4, 5}
     | Stop p \<Rightarrow> pc \<in> {1, 2, 4, 7, 8, 11, 12, 13, 14, 15, 18}
     | Stop_all \<Rightarrow> pc \<in> {1, 2, 4, 6, 7, 9, 10}
     | Exit_group p \<Rightarrow> False)"

text \<open>Where \<open>START\<close> relies on the pid not being on the list.\<close>

definition relies :: "cmd \<Rightarrow> nat \<Rightarrow> int set" where
  "relies k pc = (case k of Start p \<Rightarrow> if pc \<in> {6, 7, 8, 9} then {p} else {} | _ \<Rightarrow> {})"

lemma relies_section: "p \<in> relies k pc \<Longrightarrow> in_section k pc"
  by (auto simp: relies_def in_section_def split: cmd.splits if_splits)

text \<open>What one statement may do, as far as the invariant needs it.\<close>

definition effect :: "nat \<Rightarrow> cmd \<Rightarrow> nat \<Rightarrow> kstate \<Rightarrow> nat \<Rightarrow> kstate \<Rightarrow> bool" where
  "effect i k pc s pc' s' \<longleftrightarrow>
     (in_section k pc' \<longrightarrow> in_section k pc \<or> Calltable_lock \<notin> held s \<and> Calltable_lock \<in> held s') \<and>
     (in_section k pc' \<or> \<not> in_section k pc \<longrightarrow> Calltable_lock \<in> held s \<longrightarrow> Calltable_lock \<in> held s') \<and>
     relies k pc' \<inter> set (my_list (entry i s')) = {} \<and>
     (in_section k pc \<or> set (my_list (entry i s')) \<subseteq> set (my_list (entry i s))) \<and>
     length (table s') = length (table s) \<and> entry_ok (entry i s')"

lemmas effect_simps = effect_def in_section_def relies_def instr_step_def spin_unlock_def kstate_simps

lemma entry_ok_monitored: "entry_ok t \<Longrightarrow> m \<in> {0, 1, 2} \<Longrightarrow> entry_ok (t\<lparr>monitored := m\<rparr>)"
  by (auto simp: entry_ok_def)

lemma leave_list_entry:
  assumes "entry_ok (entry i s)"
  shows "entry_ok (entry i (leave_list p j s)) \<and> set (my_list (entry i (leave_list p j s))) \<subseteq> set (my_list (entry i s))"
proof -
  have d: "snd (del_pid_list p [] (my_list (entry i s)) (entry i s)) = leave p (entry i s)"
    using del_pid_list_eq [of "my_list (entry i s)" p "[]"] assms by (simp add: leave_def entry_ok_def)
  have "entry i (leave_list p j s) = (if i = j \<and> j < length (table s) then leave p (entry i s) else entry i s)"
    unfolding leave_list_def entry_upd d by (rule refl)
  then show ?thesis
    using leave_ok(1,4) [OF assms, of p] assms by (metis Diff_subset order_refl)
qed

lemma exit_effect:
  assumes "pc < length (exit_code e p)" and "instr_step (exit_code e p ! pc) pc s = Some (pc', s')"
    and "entry_ok (entry i s)"
  shows "effect i (Exit_group p) pc s pc' s'"
proof -
  have "exit_code e p ! pc \<in> set (exit_code e p)" using assms(1) by (rule nth_mem)
  then consider "exit_code e p ! pc = Acquire Pidlist_lock" | "exit_code e p ! pc = Release Pidlist_lock"
    | "exit_code e p ! pc = Return 0" | j where "exit_code e p ! pc = Act (leave_list p j)"
    by (auto simp: exit_code_eq)
  then show ?thesis
  proof cases
    case 1
    then have "s' = s\<lparr>held := insert Pidlist_lock (held s)\<rparr>"
      using assms(2) by (simp add: instr_step_def split: if_splits)
    then show ?thesis using assms(3) by (simp add: effect_def in_section_def relies_def entry_fields)
  next
    case 2
    then have "s' = s\<lparr>held := held s - {Pidlist_lock}\<rparr>"
      using assms(2) by (simp add: instr_step_def spin_unlock_def)
    then show ?thesis using assms(3) by (simp add: effect_def in_section_def relies_def entry_fields)
  next
    case 3
    then show ?thesis using assms(2) by (simp add: instr_step_def)
  next
    case (4 j)
    then have "s' = leave_list p j s" using assms(2) by (simp add: instr_step_def)
    then show ?thesis
      using leave_list_entry [OF assms(3), of p j] by (simp add: effect_def in_section_def relies_def leave_list_def kstate_simps)
  qed
qed

lemma start_effect:
  assumes "pc < length (start_code e i p)" and "instr_step (start_code e i p ! pc) pc s = Some (pc', s')"
    and "i < length (table s)" and "entry_ok (entry i s)" and "relies (Start p) pc \<inter> set (my_list (entry i s)) = {}"
  shows "effect i (Start p) pc s pc' s'"
proof -
  have "pc = 12 \<or> pc = 11 \<or> pc = 10 \<or> pc = 9 \<or> pc = 8 \<or> pc = 7 \<or> pc = 6 \<or> pc = 5 \<or> pc = 4 \<or> pc = 3 \<or> pc = 2 \<or> pc = 1 \<or> pc = 0"
    using assms(1) by (auto simp: start_code_def less_Suc_eq numeral_eq_Suc)
  then show ?thesis
    by (elim disjE) (use assms in \<open>auto simp: start_code_def effect_simps add_pid_sysc_def entry_ok_def split: if_splits\<close>)
qed

lemma start_all_effect:
  assumes "pc < length (start_all_code i)" and "instr_step (start_all_code i ! pc) pc s = Some (pc', s')"
    and "i < length (table s)" and "entry_ok (entry i s)"
  shows "effect i Start_all pc s pc' s'"
proof -
  have "pc = 6 \<or> pc = 5 \<or> pc = 4 \<or> pc = 3 \<or> pc = 2 \<or> pc = 1 \<or> pc = 0"
    using assms(1) by (auto simp: start_all_code_def less_Suc_eq numeral_eq_Suc)
  then show ?thesis
    by (elim disjE) (use assms in \<open>auto simp: start_all_code_def effect_simps entry_ok_def split: if_splits\<close>)
qed

lemma del_pid_sysc_entry:
  assumes "entry_ok (entry i s)"
  shows "entry_ok (entry i (snd (del_pid_sysc p i s)))"
  using assms drop_one_ok [OF assms, of p] by (auto simp: del_pid_sysc_def kstate_simps)

lemma del_pid_sysc_fields [simp]:
  "held (snd (del_pid_sysc p i s)) = held s" "length (table (snd (del_pid_sysc p i s))) = length (table s)"
  by (simp_all add: del_pid_sysc_def kstate_simps)

lemma stop_effect:
  assumes "pc < length (stop_code i p)" and "instr_step (stop_code i p ! pc) pc s = Some (pc', s')"
    and "i < length (table s)" and "entry_ok (entry i s)"
  shows "effect i (Stop p) pc s pc' s'"
proof -
  have "pc = 20 \<or> pc = 19 \<or> pc = 18 \<or> pc = 17 \<or> pc = 16 \<or> pc = 15 \<or> pc = 14 \<or> pc = 13 \<or> pc = 12 \<or> pc = 11 \<or> pc = 10 \<or>
      pc = 9 \<or> pc = 8 \<or> pc = 7 \<or> pc = 6 \<or> pc = 5 \<or> pc = 4 \<or> pc = 3 \<or> pc = 2 \<or> pc = 1 \<or> pc = 0"
    using assms(1) by (auto simp: stop_code_def less_Suc_eq numeral_eq_Suc)
  then show ?thesis
    by (elim disjE) (use assms del_pid_sysc_entry [OF assms(4), of p] in
      \<open>auto simp: stop_code_def effect_simps entry_ok_monitored split: if_splits\<close>)
qed

lemma stop_all_effect:
  assumes "pc < length (stop_all_code i)" and "instr_step (stop_all_code i ! pc) pc s = Some (pc', s')"
    and "i < length (table s)" and "entry_ok (entry i s)"
  shows "effect i Stop_all pc s pc' s'"
proof -
  have "pc = 11 \<or> pc = 10 \<or> pc = 9 \<or> pc = 8 \<or> pc = 7 \<or> pc = 6 \<or> pc = 5 \<or> pc = 4 \<or> pc = 3 \<or> pc = 2 \<or> pc = 1 \<or> pc = 0"
    using assms(1) by (auto simp: stop_all_code_def less_Suc_eq numeral_eq_Suc)
  then show ?thesis
    by (elim disjE) (use assms in \<open>auto simp: stop_all_code_def effect_simps destroy_list_def entry_ok_def split: if_splits\<close>)
qed

lemma protect_fields [simp]:
  "held (set_addr_rw s) = held s" "table (set_addr_rw s) = table s" "entry i (set_addr_rw s) = entry i s"
  "held (set_addr_ro s) = held s" "table (set_addr_ro s) = table s" "entry i (set_addr_ro s) = entry i s"
  "held (set_sct j h s) = held s" "table (set_sct j h s) = table s" "entry i (set_sct j h s) = entry i s"
  by (simp_all add: set_addr_rw_def set_addr_ro_def set_sct_def entry_fields)

lemma intercept_effect:
  assumes "pc < length (intercept_code i)" and "instr_step (intercept_code i ! pc) pc s = Some (pc', s')"
    and "i < length (table s)" and "entry_ok (entry i s)"
  shows "effect i Intercept pc s pc' s'"
proof -
  have "pc = 9 \<or> pc = 8 \<or> pc = 7 \<or> pc = 6 \<or> pc = 5 \<or> pc = 4 \<or> pc = 3 \<or> pc = 2 \<or> pc = 1 \<or> pc = 0"
    using assms(1) by (auto simp: intercept_code_def less_Suc_eq numeral_eq_Suc)
  then show ?thesis
    by (elim disjE) (use assms in \<open>auto simp: intercept_code_def effect_simps entry_ok_def split: if_splits\<close>)
qed

lemma release_effect:
  assumes "pc < length (release_code i)" and "instr_step (release_code i ! pc) pc s = Some (pc', s')"
    and "i < length (table s)" and "entry_ok (entry i s)"
  shows "effect i Release_call pc s pc' s'"
proof -
  have "pc = 8 \<or> pc = 7 \<or> pc = 6 \<or> pc = 5 \<or> pc = 4 \<or> pc = 3 \<or> pc = 2 \<or> pc = 1 \<or> pc = 0"
    using assms(1) by (auto simp: release_code_def less_Suc_eq numeral_eq_Suc)
  then show ?thesis
    by (elim disjE) (use assms in \<open>auto simp: release_code_def effect_simps entry_ok_def split: if_splits\<close>)
qed

lemma cmd_effect:
  assumes "pc < length (cmd_code e i k)" and "instr_step (cmd_code e i k ! pc) pc s = Some (pc', s')"
    and "i < length (table s)" and "entry_ok (entry i s)" and "relies k pc \<inter> set (my_list (entry i s)) = {}"
  shows "effect i k pc s pc' s'"
proof (cases k)
  case Intercept
  then show ?thesis using intercept_effect [of pc i s pc' s'] assms by (simp add: cmd_code_def)
next
  case Release_call
  then show ?thesis using release_effect [of pc i s pc' s'] assms by (simp add: cmd_code_def)
next
  case (Start p)
  then show ?thesis using start_effect [of pc e i p s pc' s'] assms by (simp add: cmd_code_def)
next
  case Start_all
  then show ?thesis using start_all_effect [of pc i s pc' s'] assms by (simp add: cmd_code_def)
next
  case (Stop p)
  then show ?thesis using stop_effect [of pc i p s pc' s'] assms by (simp add: cmd_code_def)
next
  case Stop_all
  then show ?thesis using stop_all_effect [of pc i s pc' s'] assms by (simp add: cmd_code_def)
next
  case (Exit_group p)
  then show ?thesis using exit_effect [of pc e p s pc' s' i] assms by (simp add: cmd_code_def)
qed

text \<open>
  The invariant of threads that run the commands \<open>K\<close>: at most one is in a section, and it holds
  \<open>calltable_lock\<close>; what \<open>START\<close> relies on holds; the entry is consistent.
\<close>

definition threads_inv :: "kenv \<Rightarrow> nat \<Rightarrow> (nat \<Rightarrow> cmd) \<Rightarrow> config \<Rightarrow> bool" where
  "threads_inv e i K c \<longleftrightarrow>
     (\<forall>t. fst (fst c t) = cmd_code e i (K t)) \<and>
     (\<forall>t u. in_section (K t) (snd (fst c t)) \<and> in_section (K u) (snd (fst c u)) \<longrightarrow> t = u) \<and>
     (\<forall>t. in_section (K t) (snd (fst c t)) \<longrightarrow> Calltable_lock \<in> held (snd c)) \<and>
     (\<forall>t. relies (K t) (snd (fst c t)) \<inter> set (my_list (entry i (snd c))) = {}) \<and>
     i < length (table (snd c)) \<and> entry_ok (entry i (snd c))"

lemma threads_inv_step:
  assumes inv: "threads_inv e i K c" and ex: "exec t c = Some c'"
  shows "threads_inv e i K c'"
proof -
  obtain pc where th: "fst c t = (cmd_code e i (K t), pc)"
    using inv by (metis threads_inv_def prod.collapse)
  have i: "i < length (table (snd c))" "entry_ok (entry i (snd c))"
    and uniq: "\<And>u v. in_section (K u) (snd (fst c u)) \<Longrightarrow> in_section (K v) (snd (fst c v)) \<Longrightarrow> u = v"
    and lock: "\<And>u. in_section (K u) (snd (fst c u)) \<Longrightarrow> Calltable_lock \<in> held (snd c)"
    and rel: "\<And>u. relies (K u) (snd (fst c u)) \<inter> set (my_list (entry i (snd c))) = {}"
    using inv unfolding threads_inv_def by blast+
  have i3: "relies (K t) pc \<inter> set (my_list (entry i (snd c))) = {}" using rel [of t] th by simp
  obtain pc' s' where st: "pc < length (cmd_code e i (K t))"
    "instr_step (cmd_code e i (K t) ! pc) pc (snd c) = Some (pc', s')"
    and c': "c' = ((fst c)(t := (cmd_code e i (K t), pc')), s')"
    using ex exec_eq [OF th] by (auto split: if_splits)
  note eff = cmd_effect [OF st i i3, unfolded effect_def]
  have pcs: "fst c' u = (if u = t then (cmd_code e i (K t), pc') else fst c u)" "snd c' = s'" for u
    by (simp_all add: c')
  have new: "in_section (K t) pc \<or> (\<forall>u. \<not> in_section (K u) (snd (fst c u)))" if "in_section (K t) pc'"
    using eff that lock by blast
  have "u = v" if "in_section (K u) (snd (fst c' u))" "in_section (K v) (snd (fst c' v))" for u v
  proof (cases "u = t \<or> v = t")
    case True
    then have "in_section (K t) pc'" using that by (auto simp: pcs)
    then consider "in_section (K t) (snd (fst c t))" | "\<forall>u. \<not> in_section (K u) (snd (fst c u))"
      using new th by auto
    then show ?thesis
    proof cases
      case 1
      then show ?thesis
        using that uniq [of t u] uniq [of t v] True by (cases "u = t"; cases "v = t") (auto simp: pcs)
    next
      case 2
      then show ?thesis using that True by (cases "u = t"; cases "v = t") (auto simp: pcs)
    qed
  next
    case False
    then show ?thesis using that uniq [of u v] by (simp add: pcs)
  qed
  moreover have "Calltable_lock \<in> held s'" if u: "in_section (K u) (snd (fst c' u))" for u
  proof (cases "u = t")
    case True
    then show ?thesis using u eff lock [of t] th by (auto simp: pcs)
  next
    case False
    then have "in_section (K u) (snd (fst c u))" using u by (simp add: pcs)
    moreover from this have "\<not> in_section (K t) pc" using uniq [of u t] th False by auto
    ultimately show ?thesis using eff lock [of u] by blast
  qed
  moreover have "relies (K u) (snd (fst c' u)) \<inter> set (my_list (entry i s')) = {}" for u
  proof (cases "u = t \<or> relies (K u) (snd (fst c u)) = {}")
    case True
    then show ?thesis using eff by (auto simp: pcs)
  next
    case False
    then have "in_section (K u) (snd (fst c u))" using relies_section by blast
    then have "\<not> in_section (K t) pc" using uniq [of u t] th False by auto
    then show ?thesis using eff rel [of u] False by (auto simp: pcs)
  qed
  moreover have "fst (fst c' u) = cmd_code e i (K u)" for u
    using inv by (simp add: pcs threads_inv_def)
  moreover have "i < length (table s')" "entry_ok (entry i s')" using eff i(1) by auto
  ultimately show ?thesis unfolding threads_inv_def pcs(2) by blast
qed

lemma threads_inv_reaches: "reaches c c' \<Longrightarrow> threads_inv e i K c \<Longrightarrow> threads_inv e i K c'"
  by (induction rule: reaches.induct) (auto intro: threads_inv_step)

text \<open>All threads at their first statement.\<close>

definition all_start :: "kenv \<Rightarrow> nat \<Rightarrow> (nat \<Rightarrow> cmd) \<Rightarrow> kstate \<Rightarrow> config" where
  "all_start e i K s = (\<lambda>t. (cmd_code e i (K t), 0), s)"

lemma at_start [simp]: "\<not> in_section k 0" "relies k 0 = {}"
  by (cases k; simp add: in_section_def relies_def)+

lemma threads_inv_first:
  "i < length (table s) \<Longrightarrow> entry_ok (entry i s) \<Longrightarrow> threads_inv e i K (all_start e i K s)"
  by (simp add: threads_inv_def all_start_def)

subsection \<open>Properties\<close>

text \<open>
  C35. The statement list of every command, run by one thread alone, is the command: it ends at a
  \<open>return\<close> with the value and the state that the model of the command in one piece gives.
\<close>

theorem commands_are_their_code:
  assumes "held s = {}" and "prot_ok s" and "i < length (table s)" and "i < length (sys_call_table s)"
    and "k \<noteq> Start 0" and "k \<noteq> Stop 0"
  shows "\<exists>n c r. run_schedule (replicate n 0) (solo (cmd_code e i k) s) = Some c \<and>
    returned (fst c 0) = Some r \<and> do_cmd e i k s = Ok (r, snd c)"
proof -
  have "\<exists>r s'. do_cmd e i k s = Ok (r, s') \<and> ends (cmd_code e i k) s r s'"
  proof (cases k)
    case Intercept
    then show ?thesis using intercept_ends [OF assms(1-4)] by (simp add: do_cmd_def cmd_code_def)
  next
    case Release_call
    then show ?thesis using release_ends [OF assms(1-4)] by (simp add: do_cmd_def cmd_code_def)
  next
    case (Start p)
    then show ?thesis using start_ends [OF assms(1,3), of p e] assms(5) by (simp add: do_cmd_def cmd_code_def)
  next
    case Start_all
    then show ?thesis using start_all_ends [OF assms(1,3), of e] by (simp add: do_cmd_def cmd_code_def)
  next
    case (Stop p)
    then show ?thesis using stop_ends [OF assms(1,3), of p] assms(6) by (simp add: do_cmd_def cmd_code_def)
  next
    case Stop_all
    then show ?thesis using stop_all_ends [OF assms(1,3)] by (simp add: do_cmd_def cmd_code_def)
  next
    case (Exit_group p)
    then show ?thesis using exit_ends [OF assms(1), where e = e and pid = p] by (auto simp: do_cmd_def cmd_code_def)
  qed
  then obtain r s' n pc where r: "do_cmd e i k s = Ok (r, s')" "alone n (cmd_code e i k) 0 s = Some (pc, s')"
    "pc < length (cmd_code e i k)" "cmd_code e i k ! pc = Return r"
    by (auto simp: ends_def)
  then obtain th where "run_schedule (replicate n 0) (solo (cmd_code e i k) s) = Some (th, s')" "th 0 = (cmd_code e i k, pc)"
    using alone_schedule [OF r(2), of "\<lambda>_. (cmd_code e i k, 0)"] by (auto simp: solo_def)
  then show ?thesis using r by (fastforce simp: returned_def)
qed

theorem commands_are_their_code_witness:
  "\<exists>n c r. run_schedule (replicate n 0) (solo (cmd_code (sample_env 0 5) 2 (Stop 9)) sample_kernel) = Some c \<and>
    returned (fst c 0) = Some r \<and> do_cmd (sample_env 0 5) 2 (Stop 9) sample_kernel = Ok (r, snd c)"
  by (rule commands_are_their_code) (simp_all add: sample_kernel_def prot_ok_def)


text \<open>The witness: one thread starts monitoring 8, then another 9.\<close>

lemma two_starts_schedule:
  "\<exists>c. run_schedule (replicate 9 0 @ replicate 9 1)
      (all_start (sample_env 0 5) 1 (\<lambda>t. if t = 0 then Start 8 else Start 9) sample_kernel) = Some c \<and>
    my_list (entry 1 (snd c)) = [9, 8]"
  by (simp add: all_start_def cmd_code_def start_code_def exec_simps numeral_eq_Suc kstate_simps sample_kernel_def
      sample_env_def add_pid_sysc_def check_pid_monitored_def entry_def upd_entry_def quiet_def)


end
