(* ===== verification/InterceptTest.thy ===== *)
theory InterceptTest
  imports InterceptProps
begin

section \<open>The test programs of the interceptor (Assignment1/test_full.c, test_intercept.c)\<close>

text \<open>
  The test programs load the module, issue system calls as root and as another user, and print
  whether each call returned what they expect.  A \<open>machine\<close> is the kernel's state with what the tests
  use of the rest of it: the running processes and their owners, the pids that later calls of \<open>fork\<close>
  will hand out, the kernel log, the lines printed, and the variables \<open>last_child\<close> and \<open>errno\<close>.
  Parameters are the kernel (\<open>kenv\<close>), the results \<open>kf\<close> of its own system calls, and the random
  arguments.  System calls go through the system call table, so that they reach the module only after
  \<open>insmod\<close>, and intercepted ones reach \<open>interceptor\<close>.  The processes of \<open>su\<close>, \<open>popen\<close> and \<open>system\<close> are
  left out: none of them is ever monitored.
\<close>

subsection \<open>Processes and system calls\<close>

definition E_NOSYS :: int where "E_NOSYS = - 38"

record process =
  getpid :: int
  getuid :: nat

record machine =
  kern :: kstate
  tasks :: "int \<Rightarrow> nat option"
  forks :: "(int \<times> int) list"
  klog :: "(int \<times> int \<times> int list) list"
  printed :: "(string \<times> int \<times> bool) list"
  last_child :: int
  errno :: int

definition env_of :: "kenv \<Rightarrow> process \<Rightarrow> machine \<Rightarrow> kenv" where
  "env_of K p m = K\<lparr>task_uid := tasks m, current_pid := getpid p, current_uid := getuid p\<rparr>"

text \<open>
  The kernel runs handler \<open>h\<close>, found in the system call table, for call \<open>no\<close>.  \<open>my_exit_group\<close> ends the
  process, so its result is never seen.
\<close>

definition run_handler ::
  "kenv \<Rightarrow> (nat \<Rightarrow> int list \<Rightarrow> int) \<Rightarrow> process \<Rightarrow> handler \<Rightarrow> int list \<Rightarrow> machine \<Rightarrow> (int \<times> machine) res" where
  "run_handler K kf p h args m =
     (case h of
        Original i \<Rightarrow> Ok (kf i args, m)
      | My_syscall \<Rightarrow>
          res_bind (my_syscall (env_of K p m) (args ! 0) (args ! 1) (args ! 2) (kern m))
            (\<lambda>(r, s). Ok (r, m\<lparr>kern := s\<rparr>))
      | My_exit_group \<Rightarrow>
          res_bind (my_exit_group (env_of K p m) (kern m)) (\<lambda>(_, s). Ok (0, m\<lparr>kern := s\<rparr>))
      | Interceptor \<Rightarrow> Err Diverges)"

definition kernel_entry ::
  "kenv \<Rightarrow> (nat \<Rightarrow> int list \<Rightarrow> int) \<Rightarrow> process \<Rightarrow> int \<Rightarrow> int list \<Rightarrow> machine \<Rightarrow> (int \<times> machine) res" where
  "kernel_entry K kf p no args m =
     (if no < 0 \<or> no \<ge> int (length (sys_call_table (kern m))) then Ok (E_NOSYS, m)
      else
        let h = sys_call_table (kern m) ! nat no in
        if h = Interceptor then
          res_bind (interceptor (env_of K p m) (nat no) (kern m)) (\<lambda>(h', n, s).
            run_handler K kf p h' args
              (m\<lparr>kern := s, klog := klog m @ replicate n (getpid p, no, args)\<rparr>))
        else run_handler K kf p h args m)"

text \<open>The C library's \<open>syscall\<close>: an error number of the kernel becomes -1 and \<open>errno\<close>.\<close>

definition libc_syscall ::
  "kenv \<Rightarrow> (nat \<Rightarrow> int list \<Rightarrow> int) \<Rightarrow> process \<Rightarrow> int \<Rightarrow> int list \<Rightarrow> machine \<Rightarrow> (int \<times> machine) res" where
  "libc_syscall K kf p no args m =
     res_bind (kernel_entry K kf p no args m) (\<lambda>(r, m).
       Ok (if - 4095 \<le> r \<and> r < 0 then (- 1, m\<lparr>errno := - r\<rparr>) else (r, m)))"

definition vsyscall_arg ::
  "kenv \<Rightarrow> (nat \<Rightarrow> int list \<Rightarrow> int) \<Rightarrow> process \<Rightarrow> int \<Rightarrow> int list \<Rightarrow> machine \<Rightarrow> (int \<times> machine) res" where
  "vsyscall_arg K kf p sno args m =
     res_bind (libc_syscall K kf p sno args m) (\<lambda>(ret, m).
       Ok (if ret \<noteq> 0 then - errno m else ret, m))"

text \<open>A process ends: \<open>exit_group\<close>, through the table, and its task is gone.\<close>

definition exit_process ::
  "kenv \<Rightarrow> (nat \<Rightarrow> int list \<Rightarrow> int) \<Rightarrow> process \<Rightarrow> machine \<Rightarrow> machine res" where
  "exit_process K kf p m =
     res_bind (kernel_entry K kf p (int (nr_exit_group K)) [0] m) (\<lambda>(_, m).
       Ok (m\<lparr>tasks := (tasks m)(getpid p := None)\<rparr>))"

subsection \<open>The tests\<close>

text \<open>The macro \<open>test\<close>: the values given to \<open>printf\<close>, and whether the line ends in passed or failed.\<close>

definition test_line :: "string \<Rightarrow> int \<Rightarrow> bool \<Rightarrow> machine \<Rightarrow> machine" where
  "test_line s a t m = m\<lparr>printed := printed m @ [(s, a, t)]\<rparr>"

definition request ::
  "kenv \<Rightarrow> (nat \<Rightarrow> int list \<Rightarrow> int) \<Rightarrow> process \<Rightarrow> int \<Rightarrow> string \<Rightarrow> int \<Rightarrow> int \<Rightarrow> int \<Rightarrow> machine \<Rightarrow> machine res" where
  "request K kf p cmd s sysc pid status m =
     res_bind (vsyscall_arg K kf p (int MY_CUSTOM_SYSCALL) [cmd, sysc, pid] m) (\<lambda>(r, m).
       Ok (test_line s sysc (r = status) m))"

definition do_intercept_test where
  "do_intercept_test K kf p sysc status =
     request K kf p REQUEST_SYSCALL_INTERCEPT ''%d intercept'' sysc (getpid p) status"

definition do_release_test where
  "do_release_test K kf p sysc status =
     request K kf p REQUEST_SYSCALL_RELEASE ''%d release'' sysc (getpid p) status"

definition do_start_test where
  "do_start_test K kf p sysc pid status =
     request K kf p REQUEST_START_MONITORING ''%d start'' sysc
       (if pid = - 1 then getpid p else pid) status"

definition do_stop_test where
  "do_stop_test K kf p sysc pid status =
     request K kf p REQUEST_STOP_MONITORING ''%d stop'' sysc pid status"

text \<open>\<open>find_log\<close>: 0 when the log has the message of this process for these values.\<close>

definition find_log :: "process \<Rightarrow> int \<Rightarrow> int list \<Rightarrow> machine \<Rightarrow> int" where
  "find_log p sno args m = (if (getpid p, sno, args) \<in> set (klog m) then 0 else - 1)"

definition do_monitor ::
  "kenv \<Rightarrow> (nat \<Rightarrow> int list \<Rightarrow> int) \<Rightarrow> int list \<Rightarrow> process \<Rightarrow> int \<Rightarrow> machine \<Rightarrow> machine res" where
  "do_monitor K kf rands p sysno m =
     res_bind (libc_syscall K kf p sysno rands m) (\<lambda>(_, m).
       Ok (test_line ''%d nonroot monitor'' sysno (find_log p sysno rands m = 0) m))"

text \<open>Tests one after the other.\<close>

primrec run_tests :: "(machine \<Rightarrow> machine res) list \<Rightarrow> machine \<Rightarrow> machine res" where
  "run_tests [] m = Ok m"
| "run_tests (t # ts) m = res_bind (t m) (run_tests ts)"

definition do_nonroot where
  "do_nonroot K kf rands p sysc = run_tests
     [do_intercept_test K kf p sysc E_PERM,
      do_release_test K kf p sysc E_PERM,
      do_start_test K kf p sysc 0 E_PERM,
      do_stop_test K kf p sysc 0 E_PERM,
      do_start_test K kf p sysc 1 E_PERM,
      do_stop_test K kf p sysc 1 E_PERM,
      do_start_test K kf p sysc (getpid p) 0,
      do_start_test K kf p sysc (getpid p) E_BUSY,
      do_monitor K kf rands p sysc,
      do_stop_test K kf p sysc (getpid p) 0,
      do_stop_test K kf p sysc (getpid p) E_INVAL]"

text \<open>The arguments that \<open>main\<close> takes, with the numbers \<open>atoi\<close> reads.\<close>

datatype arguments =
    Arg_intercept int int
  | Arg_release int int
  | Arg_start int int int
  | Arg_stop int int int
  | Arg_monitor int
  | Arg_nonroot int

definition main_with_args where
  "main_with_args K kf rands p a =
     (case a of
        Arg_intercept sysc status \<Rightarrow> do_intercept_test K kf p sysc status
      | Arg_release sysc status \<Rightarrow> do_release_test K kf p sysc status
      | Arg_start sysc pid status \<Rightarrow> do_start_test K kf p sysc pid status
      | Arg_stop sysc pid status \<Rightarrow> do_stop_test K kf p sysc pid status
      | Arg_monitor sysc \<Rightarrow> do_monitor K kf rands p sysc
      | Arg_nonroot sysc \<Rightarrow> do_nonroot K kf rands p sysc)"

text \<open>
  \<open>do_as_guest\<close>: \<open>fork\<close> gives bash the first pid of the pair, and the program that it starts as user
  \<open>nobody\<close> has the second; \<open>waitpid\<close> returns when both are gone.  Without a pair, \<open>fork\<close> fails.
\<close>

definition do_as_guest ::
  "kenv \<Rightarrow> (nat \<Rightarrow> int list \<Rightarrow> int) \<Rightarrow> nat \<Rightarrow> process \<Rightarrow> (process \<Rightarrow> machine \<Rightarrow> machine res) \<Rightarrow> machine \<Rightarrow> machine res" where
  "do_as_guest K kf nobody p prog m =
     (case forks m of
        [] \<Rightarrow> Err Assert_failed
      | (bash, guest) # fs \<Rightarrow>
          let g = \<lparr>getpid = guest, getuid = nobody\<rparr>; b = \<lparr>getpid = bash, getuid = getuid p\<rparr> in
          res_bind (prog g (m\<lparr>forks := fs, last_child := bash,
              tasks := (tasks m)(bash \<mapsto> getuid p, guest \<mapsto> nobody)\<rparr>)) (\<lambda>m.
          res_bind (exit_process K kf g m) (exit_process K kf b)))"

definition test_syscall where
  "test_syscall K kf nobody rands p sysc = run_tests
     [do_intercept_test K kf p sysc 0,
      do_intercept_test K kf p sysc E_BUSY,
      do_as_guest K kf nobody p (\<lambda>g. main_with_args K kf rands g (Arg_nonroot sysc)),
      do_start_test K kf p sysc (- 2) E_INVAL,
      do_start_test K kf p sysc 0 0,
      do_stop_test K kf p sysc 0 0,
      do_start_test K kf p sysc 1 0,
      do_as_guest K kf nobody p (\<lambda>g. main_with_args K kf rands g (Arg_stop sysc 1 E_PERM)),
      do_stop_test K kf p sysc 1 0,
      do_as_guest K kf nobody p (\<lambda>g. main_with_args K kf rands g (Arg_start sysc (- 1) 0)),
      (\<lambda>m. do_stop_test K kf p sysc (last_child m) E_INVAL m),
      do_release_test K kf p sysc 0]"

definition insmod :: "kenv \<Rightarrow> process \<Rightarrow> machine \<Rightarrow> machine res" where
  "insmod K p m =
     res_bind (init_function (env_of K p m) (kern m)) (\<lambda>(r, s).
       Ok (test_line ''insmod interceptor.ko %s'' 0 (r = 0) (m\<lparr>kern := s\<rparr>)))"

definition rmmod :: "kenv \<Rightarrow> process \<Rightarrow> machine \<Rightarrow> machine res" where
  "rmmod K p m =
     res_bind (exit_function (env_of K p m) (kern m)) (\<lambda>s.
       Ok (test_line ''rmmod interceptor.ko %s'' 0 True (m\<lparr>kern := s\<rparr>)))"

definition bad_arguments where
  "bad_arguments K kf t p m =
     res_bind (vsyscall_arg K kf p (int MY_CUSTOM_SYSCALL) [100, 0, 0] m) (\<lambda>(r, m).
       Ok (test_line t 0 (r = E_INVAL) m))"

definition test_full_main where
  "test_full_main K kf nobody rands p nr_exit sys_open = run_tests
     [insmod K p,
      bad_arguments K kf ''bad MY_SYSCALL args%s'' p,
      do_intercept_test K kf p (int MY_CUSTOM_SYSCALL) E_INVAL,
      do_release_test K kf p (int MY_CUSTOM_SYSCALL) E_INVAL,
      do_intercept_test K kf p (- 1) E_INVAL,
      do_release_test K kf p (- 1) E_INVAL,
      do_intercept_test K kf p nr_exit 0,
      do_release_test K kf p nr_exit 0,
      test_syscall K kf nobody rands p sys_open,
      rmmod K p]"

text \<open>\<open>test_intercept.c\<close> has the same functions, with these shorter lists of tests.\<close>

definition do_nonroot_short where
  "do_nonroot_short K kf p sysc = run_tests
     [do_intercept_test K kf p sysc E_PERM,
      do_release_test K kf p sysc E_PERM]"

definition test_syscall_short where
  "test_syscall_short K kf nobody p sysc = run_tests
     [do_intercept_test K kf p sysc 0,
      do_intercept_test K kf p sysc E_BUSY,
      do_as_guest K kf nobody p (\<lambda>g. do_nonroot_short K kf g sysc),
      do_release_test K kf p sysc 0]"

definition test_intercept_main where
  "test_intercept_main K kf nobody p nr_exit sys_open = run_tests
     [insmod K p,
      bad_arguments K kf ''bad MY_CUSTOM_SYSCALL args%s'' p,
      do_intercept_test K kf p (int MY_CUSTOM_SYSCALL) E_INVAL,
      do_release_test K kf p (int MY_CUSTOM_SYSCALL) E_INVAL,
      do_intercept_test K kf p (- 1) E_INVAL,
      do_release_test K kf p (- 1) E_INVAL,
      do_intercept_test K kf p nr_exit 0,
      do_release_test K kf p nr_exit 0,
      test_syscall_short K kf nobody p sys_open,
      rmmod K p]"

end
