(* ===== verification/InterceptTestRun.thy ===== *)
theory InterceptTestRun
  imports InterceptTest
begin

section \<open>The module passes its tests\<close>

text \<open>
  The run of both test programs on the module, for any system call under test.  During the tests only
  one entry of the module's table differs from what \<open>insmod\<close> left: the states are \<open>using_call L c f i mn l\<close>,
  the loaded state \<open>L\<close> with handler, flags and pids of system call \<open>c\<close>.  Each request is an equation
  between such states, and a test program is evaluated by them.
\<close>

subsection \<open>The module, loaded, with one system call in use\<close>

definition loaded :: "kenv \<Rightarrow> kstate \<Rightarrow> bool" where
  "loaded K L \<longleftrightarrow> module_ok K L \<and> kmalloc_ok K \<and> 1 \<le> nr_exit_group K \<and>
     nr_exit_group K < nr_syscalls K \<and> sys_call_table L ! 0 = My_syscall \<and>
     sys_call_table L ! nr_exit_group K = My_exit_group \<and>
     (\<forall>i \<le> nr_syscalls K. intercepted (entry i L) = 0) \<and>
     (\<forall>i \<le> nr_syscalls K. 1 \<le> i \<longrightarrow> my_list (entry i L) = [] \<and> monitored (entry i L) = 0)"

definition in_use :: "kenv \<Rightarrow> nat \<Rightarrow> bool" where
  "in_use K c \<longleftrightarrow> 1 \<le> c \<and> c < nr_syscalls K \<and> c \<noteq> nr_exit_group K"

text \<open>The entry of system call \<open>c\<close> has the given handler, flags and pids; the rest is as loaded.\<close>

definition mt :: "handler \<Rightarrow> int \<Rightarrow> int \<Rightarrow> int list \<Rightarrow> mytable" where
  "mt f i mn l = \<lparr>f_orig = f, intercepted = i, monitored = mn, listcount = int (length l), my_list = l\<rparr>"

definition using_call :: "kstate \<Rightarrow> nat \<Rightarrow> handler \<Rightarrow> int \<Rightarrow> int \<Rightarrow> int list \<Rightarrow> kstate" where
  "using_call L c f i mn l = (upd_entry c (\<lambda>_. mt f i mn l) L)
     \<lparr>sys_call_table := (sys_call_table L)[c := if i = 1 then Interceptor else sys_call_table L ! c]\<rparr>"

lemma loadedD:
  assumes "loaded K L"
  shows "module_ok K L" "kmalloc_ok K" "1 \<le> nr_exit_group K" "nr_exit_group K < nr_syscalls K"
    "sys_call_table L ! 0 = My_syscall" "sys_call_table L ! nr_exit_group K = My_exit_group"
    "\<And>i. i \<le> nr_syscalls K \<Longrightarrow> intercepted (entry i L) = 0"
    "\<And>i. 1 \<le> i \<Longrightarrow> i \<le> nr_syscalls K \<Longrightarrow> my_list (entry i L) = [] \<and> monitored (entry i L) = 0"
    "length (table L) = nr_syscalls K + 1" "length (sys_call_table L) = nr_syscalls K"
    "held L = {}" "prot_ok L"
  using assms module_okD(1-4) [of K L] by (auto simp: loaded_def)

lemma mt_fields [simp]:
  "f_orig (mt f i mn l) = f" "intercepted (mt f i mn l) = i" "monitored (mt f i mn l) = mn"
  "listcount (mt f i mn l) = int (length l)" "my_list (mt f i mn l) = l"
  by (simp_all add: mt_def)

lemma using_call_fields:
  assumes "loaded K L" and "in_use K c"
  shows "entry c (using_call L c f i mn l) = mt f i mn l"
    "j \<noteq> c \<Longrightarrow> entry j (using_call L c f i mn l) = entry j L"
    "length (table (using_call L c f i mn l)) = nr_syscalls K + 1"
    "length (sys_call_table (using_call L c f i mn l)) = nr_syscalls K"
    "held (using_call L c f i mn l) = {}" "prot_ok (using_call L c f i mn l)"
    "sys_call_table (using_call L c f i mn l) ! 0 = My_syscall"
    "sys_call_table (using_call L c f i mn l) ! nr_exit_group K = My_exit_group"
    "sys_call_table (using_call L c f i mn l) ! c =
      (if i = 1 then Interceptor else sys_call_table L ! c)"
    "0 < nr_syscalls K" "c < nr_syscalls K" "c < nr_syscalls K + 1" "0 < c"
  using assms loadedD [OF assms(1)]
  by (auto simp: using_call_def in_use_def kstate_simps prot_ok_def)

lemma using_call_upd:
  assumes "loaded K L" and "in_use K c" and "g (mt f i mn l) = mt f' i mn' l'"
  shows "upd_entry c g (using_call L c f i mn l) = using_call L c f' i mn' l'"
  using assms loadedD [OF assms(1)]
  by (simp add: using_call_def in_use_def upd_entry_def)

lemma using_call_ok:
  assumes "loaded K L" and "in_use K c" and "f \<noteq> Interceptor" and "distinct l"
    and "i \<in> {0, 1}" and "mn \<in> {0, 1, 2}"
  shows "module_ok K (using_call L c f i mn l)"
proof -
  note d = loadedD [OF assms(1)] module_okD(5-7) [OF loadedD(1) [OF assms(1)]]
  note u = using_call_fields [OF assms(1,2)]
  have "sys_call_table L ! j \<noteq> Interceptor" if "1 \<le> j" "j < nr_syscalls K" for j
    using d(7) [of j] d(14) [OF that] that by simp
  moreover have "sys_call_table (using_call L c f i mn l) ! j = sys_call_table L ! j" if "j \<noteq> c" for j
    using that by (simp add: using_call_def)
  moreover have "intercepted (entry j L) = 0" if "j \<le> nr_syscalls K" for j
    using d(7) that .
  ultimately show ?thesis
    unfolding module_ok_def using u assms(3-6) d(13)
    by (smt (verit) entry_ok_def less_imp_le_nat mt_fields insert_iff singletonD)
qed

lemma using_call_own:
  assumes "loaded K L" and "in_use K c"
  shows "L = using_call L c (f_orig (entry c L)) 0 0 []"
proof -
  have "1 \<le> c" "c \<le> nr_syscalls K" using assms(2) by (auto simp: in_use_def)
  then have "entry_ok (entry c L)" "my_list (entry c L) = []" "monitored (entry c L) = 0" "intercepted (entry c L) = 0"
    using loadedD(7,8) [OF assms(1)] module_okD(5) [OF loadedD(1) [OF assms(1)]] by auto
  then have "entry c L = mt (f_orig (entry c L)) 0 0 []"
    by (cases "entry c L") (simp add: mt_def entry_ok_def)
  then show ?thesis
    by (simp add: using_call_def upd_entry_def entry_def [symmetric]) (simp add: entry_def)
qed

subsection \<open>What the module answers\<close>

definition at :: "kstate \<Rightarrow> nat \<Rightarrow> handler \<Rightarrow> int \<Rightarrow> int \<Rightarrow> int list \<Rightarrow> machine \<Rightarrow> machine" where
  "at L c f i mn l m = m\<lparr>kern := using_call L c f i mn l\<rparr>"

lemma at_upd [simp]:
  "(at L c f i mn l m)\<lparr>forks := fs\<rparr> = at L c f i mn l (m\<lparr>forks := fs\<rparr>)"
  "(at L c f i mn l m)\<lparr>last_child := b\<rparr> = at L c f i mn l (m\<lparr>last_child := b\<rparr>)"
  "(at L c f i mn l m)\<lparr>tasks := t\<rparr> = at L c f i mn l (m\<lparr>tasks := t\<rparr>)"
  "forks (at L c f i mn l m) = forks m" "last_child (at L c f i mn l m) = last_child m"
  "tasks (at L c f i mn l m) = tasks m" "kern (at L c f i mn l m) = using_call L c f i mn l"
  by (cases m; simp add: at_def)+

text \<open>A printed answer; an error number stays in \<open>errno\<close>.\<close>

definition answered :: "string \<Rightarrow> int \<Rightarrow> int \<Rightarrow> int \<Rightarrow> machine \<Rightarrow> machine" where
  "answered t a r status m = m\<lparr>errno := (if r = 0 then errno m else - r),
     printed := printed m @ [(t, a, r = status)]\<rparr>"

lemma request_my_syscall:
  assumes "loaded K L" and "in_use K c" and "r \<in> {0, E_PERM, E_BUSY, E_INVAL}"
    and "my_syscall (env_of K p m) cmd sysc pid (using_call L c f i mn l) =
      Ok (r, using_call L c f' i' mn' l')"
  shows "request K kf p cmd t sysc pid status (at L c f i mn l m) =
    Ok (at L c f' i' mn' l' (answered t sysc r status m))"
proof -
  let ?s = "using_call L c f i mn l" and ?m = "at L c f i mn l m"
  have r: "- 4095 \<le> r" "r \<le> 0"
    using assms(3) by (auto simp: errnos)
  have env: "env_of K p ?m = env_of K p m"
    by (simp add: env_of_def at_def)
  have "0 < int (length (sys_call_table ?s))" "sys_call_table ?s ! 0 = My_syscall"
    using using_call_fields(4,7,10) [OF assms(1,2)] by simp_all
  then have "kernel_entry K kf p 0 [cmd, sysc, pid] ?m = Ok (r, at L c f' i' mn' l' m)"
    using assms(4) env by (simp add: kernel_entry_def run_handler_def at_def)
  then show ?thesis
    using r by (simp add: request_def vsyscall_arg_def libc_syscall_def MY_CUSTOM_SYSCALL_def
        at_def answered_def test_line_def)
qed

lemma using_call_table:
  assumes "loaded K L" and "in_use K c"
  shows "(upd_entry c (\<lambda>t. t\<lparr>f_orig := h, intercepted := 1\<rparr>) (using_call L c f 0 mn l))
      \<lparr>sys_call_table := (sys_call_table (using_call L c f 0 mn l))[c := Interceptor]\<rparr> =
    using_call L c h 1 mn l"
    and "(upd_entry c (\<lambda>t. t\<lparr>intercepted := 0\<rparr>) (using_call L c h 1 mn l))
      \<lparr>sys_call_table := (sys_call_table (using_call L c h 1 mn l))[c := sys_call_table L ! c]\<rparr> =
    using_call L c h 0 mn l"
  using assms loadedD(9,10) [OF assms(1)]
  by (simp_all add: using_call_def upd_entry_def mt_def in_use_def)

lemmas answer_simps = my_syscall_def check_args_def MY_CUSTOM_SYSCALL_def requests env_of_def in_use_def

lemma intercept_answer:
  assumes "loaded K L" and "in_use K c" and "getuid p = 0"
  shows "do_intercept_test K kf p (int c) status (at L c f 0 mn l m) =
      Ok (at L c (sys_call_table L ! c) 1 mn l (answered ''%d intercept'' (int c) 0 status m))"
    and "do_intercept_test K kf p (int c) status (at L c f 1 mn l m) =
      Ok (at L c f 1 mn l (answered ''%d intercept'' (int c) E_BUSY status m))"
proof -
  have "do_intercept c (using_call L c f 0 mn l) = Ok (0, using_call L c (sys_call_table L ! c) 1 mn l)"
    using do_intercept_eq [of "using_call L c f 0 mn l" c] using_call_table [OF assms(1,2)]
    by (simp add: using_call_fields [OF assms(1,2)] less_SucI)
  then show "do_intercept_test K kf p (int c) status (at L c f 0 mn l m) =
      Ok (at L c (sys_call_table L ! c) 1 mn l (answered ''%d intercept'' (int c) 0 status m))"
    unfolding do_intercept_test_def using assms
    by (intro request_my_syscall) (auto simp: answer_simps)
  have "do_intercept c (using_call L c f 1 mn l) = Ok (E_BUSY, using_call L c f 1 mn l)"
    using do_intercept_eq [of "using_call L c f 1 mn l" c]
    by (simp add: using_call_fields [OF assms(1,2)] less_SucI)
  then show "do_intercept_test K kf p (int c) status (at L c f 1 mn l m) =
      Ok (at L c f 1 mn l (answered ''%d intercept'' (int c) E_BUSY status m))"
    unfolding do_intercept_test_def using assms
    by (intro request_my_syscall) (auto simp: answer_simps)
qed

lemma release_answer:
  assumes "loaded K L" and "in_use K c" and "getuid p = 0"
  shows "do_release_test K kf p (int c) status (at L c (sys_call_table L ! c) 1 mn l m) =
      Ok (at L c (sys_call_table L ! c) 0 mn l (answered ''%d release'' (int c) 0 status m))"
proof -
  let ?h = "sys_call_table L ! c"
  have "do_release c (using_call L c ?h 1 mn l) = Ok (0, using_call L c ?h 0 mn l)"
    using do_release_eq [of "using_call L c ?h 1 mn l" c] using_call_table [OF assms(1,2)]
    by (simp add: using_call_fields [OF assms(1,2)] less_SucI)
  then show ?thesis
    unfolding do_release_test_def using assms
    by (intro request_my_syscall) (auto simp: answer_simps)
qed

text \<open>Requests that the checks of the arguments refuse.\<close>

lemma refused:
  assumes "loaded K L" and "in_use K c"
    and "check_args (env_of K p m) cmd sysc pid = Ok (Some r)" and "r \<in> {0, E_PERM, E_BUSY, E_INVAL}"
  shows "request K kf p cmd t sysc pid status (at L c f i mn l m) =
    Ok (at L c f i mn l (answered t sysc r status m))"
  using assms by (intro request_my_syscall) (auto simp: my_syscall_def)

text \<open>Requests to monitor: who may ask, and what the module does.\<close>

definition may_monitor :: "process \<Rightarrow> int \<Rightarrow> machine \<Rightarrow> bool" where
  "may_monitor p pid m \<longleftrightarrow> (if getuid p = 0 then pid = 0 \<or> 0 < pid \<and> tasks m pid \<noteq> None
     else 0 < pid \<and> tasks m pid \<noteq> None \<and> tasks m pid = tasks m (getpid p))"

lemma may_monitor_check:
  assumes "in_use K c" and "may_monitor p pid m"
  shows "check_args (env_of K p m) REQUEST_START_MONITORING (int c) pid = Ok None"
    and "check_args (env_of K p m) REQUEST_STOP_MONITORING (int c) pid = Ok None"
  using assms by (cases "tasks m (getpid p)";
    auto simp: answer_simps may_monitor_def check_pid_from_list_def split: if_splits)+

lemma start_answer:
  assumes "loaded K L" and "in_use K c" and "may_monitor p pid m" and "pid \<noteq> - 1"
  shows "pid = 0 \<Longrightarrow> do_start_test K kf p (int c) pid status (at L c f i 0 l m) =
      Ok (at L c f i 2 l (answered ''%d start'' (int c) 0 status m))"
    and "pid \<noteq> 0 \<Longrightarrow> pid \<notin> set l \<Longrightarrow> do_start_test K kf p (int c) pid status (at L c f i 0 l m) =
      Ok (at L c f i 1 (pid # l) (answered ''%d start'' (int c) 0 status m))"
    and "pid \<noteq> 0 \<Longrightarrow> pid \<in> set l \<Longrightarrow> do_start_test K kf p (int c) pid status (at L c f i mn l m) =
      Ok (at L c f i mn l (answered ''%d start'' (int c) E_BUSY status m))"
proof -
  note eq = do_start_eq [of "using_call L c f i n l" c "env_of K p m" pid for n]
  note u = using_call_fields [OF assms(1,2)] less_SucI
  have my: "my_syscall (env_of K p m) REQUEST_START_MONITORING (int c) pid s =
      do_start (env_of K p m) c pid s" for s
    using may_monitor_check(1) [OF assms(2,3)] by (simp add: my_syscall_def requests)
  have e: "kmalloc_ok (env_of K p m)"
    using loadedD(2) [OF assms(1)] by (simp add: env_of_def)
  have upd: "upd_entry c (\<lambda>t. t\<lparr>monitored := 2\<rparr>) (using_call L c f i 0 l) = using_call L c f i 2 l"
    "upd_entry c (start_one (env_of K p m) pid) (using_call L c f i 0 l) = using_call L c f i 1 (pid # l)"
    using e by (auto intro!: using_call_upd [OF assms(1,2)] simp: mt_def start_one_def)
  show "do_start_test K kf p (int c) pid status (at L c f i 0 l m) =
      Ok (at L c f i 2 l (answered ''%d start'' (int c) 0 status m))" if p: "pid = 0"
    unfolding do_start_test_def using assms(4) eq [of 0] upd p
    by (simp, intro request_my_syscall [OF assms(1,2)]) (simp_all add: my [unfolded p] u)
  show "pid \<noteq> 0 \<Longrightarrow> pid \<notin> set l \<Longrightarrow> do_start_test K kf p (int c) pid status (at L c f i 0 l m) =
      Ok (at L c f i 1 (pid # l) (answered ''%d start'' (int c) 0 status m))"
    unfolding do_start_test_def using assms(4) eq [of 0] upd e
    by (simp, intro request_my_syscall [OF assms(1,2)]) (simp_all add: my u)
  show "pid \<noteq> 0 \<Longrightarrow> pid \<in> set l \<Longrightarrow> do_start_test K kf p (int c) pid status (at L c f i mn l m) =
      Ok (at L c f i mn l (answered ''%d start'' (int c) E_BUSY status m))"
    unfolding do_start_test_def using assms(4) eq [of mn]
    by (simp, intro request_my_syscall [OF assms(1,2)]) (simp_all add: my u)
qed

text \<open>A request for a process of its own, written as the pid -1.\<close>

lemma start_own:
  "do_start_test K kf p sysc (- 1) status m = do_start_test K kf p sysc (getpid p) status m"
  by (simp add: do_start_test_def)

lemma stop_answer:
  assumes "loaded K L" and "in_use K c" and "may_monitor p pid m"
  shows "pid = 0 \<Longrightarrow> do_stop_test K kf p (int c) pid status (at L c f 1 2 l m) =
      Ok (at L c f 1 0 [] (answered ''%d stop'' (int c) 0 status m))"
    and "pid \<noteq> 0 \<Longrightarrow> do_stop_test K kf p (int c) pid status (at L c f 1 1 [pid] m) =
      Ok (at L c f 1 0 [] (answered ''%d stop'' (int c) 0 status m))"
    and "pid \<noteq> 0 \<Longrightarrow> pid \<notin> set l \<Longrightarrow> do_stop_test K kf p (int c) pid status (at L c f 1 mn l m) =
      Ok (at L c f 1 mn l (answered ''%d stop'' (int c) E_INVAL status m))"
proof -
  note u = using_call_fields [OF assms(1,2)] less_SucI
  have my: "my_syscall (env_of K p m) REQUEST_STOP_MONITORING (int c) pid s = do_stop c pid s" for s
    using may_monitor_check(2) [OF assms(2,3)] by (simp add: my_syscall_def requests)
  have upd: "destroy_list c (using_call L c f 1 2 l) = using_call L c f 1 0 []"
    "upd_entry c (stop_one pid) (using_call L c f 1 1 [pid]) = using_call L c f 1 0 []"
    by (auto intro!: using_call_upd [OF assms(1,2)] simp: destroy_list_def mt_def stop_one_def drop_one_def)
  show "do_stop_test K kf p (int c) pid status (at L c f 1 2 l m) =
      Ok (at L c f 1 0 [] (answered ''%d stop'' (int c) 0 status m))" if p: "pid = 0"
    unfolding do_stop_test_def using do_stop_eq [of "using_call L c f 1 2 l" c pid] upd p
    by (intro request_my_syscall [OF assms(1,2)]) (simp_all add: my [unfolded p] u)
  show "pid \<noteq> 0 \<Longrightarrow> do_stop_test K kf p (int c) pid status (at L c f 1 1 [pid] m) =
      Ok (at L c f 1 0 [] (answered ''%d stop'' (int c) 0 status m))"
    unfolding do_stop_test_def using do_stop_eq [of "using_call L c f 1 1 [pid]" c pid] upd
    by (intro request_my_syscall [OF assms(1,2)]) (simp_all add: my u)
  show "pid \<noteq> 0 \<Longrightarrow> pid \<notin> set l \<Longrightarrow> do_stop_test K kf p (int c) pid status (at L c f 1 mn l m) =
      Ok (at L c f 1 mn l (answered ''%d stop'' (int c) E_INVAL status m))"
    unfolding do_stop_test_def using do_stop_eq [of "using_call L c f 1 mn l" c pid]
    by (intro request_my_syscall [OF assms(1,2)]) (simp_all add: my u)
qed

text \<open>The call of \<open>do_monitor\<close>: logged by the interceptor, answered by the kernel.\<close>

definition monitor_logged :: "(nat \<Rightarrow> int list \<Rightarrow> int) \<Rightarrow> nat \<Rightarrow> int list \<Rightarrow> process \<Rightarrow> nat \<Rightarrow> machine \<Rightarrow> machine" where
  "monitor_logged kf n rands p c m = m\<lparr>klog := klog m @ [(getpid p, int c, rands)],
     errno := (if - 4095 \<le> kf n rands \<and> kf n rands < 0 then - kf n rands else errno m),
     printed := printed m @ [(''%d nonroot monitor'', int c, True)]\<rparr>"

lemma monitor_answer:
  assumes "loaded K L" and "in_use K c" and "sys_call_table L ! c = Original n" and "getpid p \<in> set l"
    and "distinct l" and "mn \<in> {0, 1, 2}"
  shows "do_monitor K kf rands p (int c) (at L c (Original n) 1 mn l m) =
    Ok (at L c (Original n) 1 mn l (monitor_logged kf n rands p c m))"
proof -
  let ?s = "using_call L c (Original n) 1 mn l" and ?e = "env_of K p (at L c (Original n) 1 mn l m)"
  note u = using_call_fields [OF assms(1,2)]
  have "module_ok K ?s"
    using using_call_ok [OF assms(1,2) _ assms(5) _ assms(6)] by simp
  then have "module_ok ?e ?s"
    by (simp add: module_ok_def env_of_def)
  then have "interceptor ?e c ?s = Ok (Original n, 1, ?s)"
    using interceptor_spec [of ?e ?s c] assms(2,4) u(1) by (auto simp: env_of_def in_use_def)
  then show ?thesis
    using u by (cases m) (auto simp: do_monitor_def libc_syscall_def kernel_entry_def
        run_handler_def at_def test_line_def find_log_def not_less monitor_logged_def)
qed

subsection \<open>Processes that end\<close>

lemma upd_entry_same: "upd_entry i (\<lambda>_. entry i s) s = s"
  by (simp add: upd_entry_def entry_def)

lemma fold_del_pid:
  assumes "\<forall>i \<in> set is. i \<noteq> c \<longrightarrow> pid \<notin> set (my_list (entry i s))" and "distinct is"
    and "distinct (my_list (entry c s))"
  shows "\<exists>b'. fold (\<lambda>i (found, s).
      let (b, t) = del_pid_list pid [] (my_list (entry i s)) (entry i s) in
      (found \<or> b, upd_entry i (\<lambda>_. t) s)) is (b, s) =
    (b', if c \<in> set is then upd_entry c (leave pid) s else s)"
  using assms
proof (induction "is" arbitrary: b s)
  case (Cons i "is")
  show ?case
  proof (cases "i = c")
    case True
    let ?t = "upd_entry c (\<lambda>_. leave pid (entry c s)) s"
    have same: "?t = upd_entry c (leave pid) s"
      by (simp add: upd_entry_def entry_def)
    have del: "del_pid_list pid [] (my_list (entry c s)) (entry c s) =
        (pid \<in> set (my_list (entry c s)), leave pid (entry c s))"
      using Cons.prems(3) by (simp add: del_pid_list_eq leave_def)
    have "\<forall>i \<in> set is. i \<noteq> c \<longrightarrow> pid \<notin> set (my_list (entry i ?t))"
      using Cons.prems(1) by (simp add: kstate_simps)
    moreover have "distinct (my_list (entry c ?t))"
      using Cons.prems(3) by (auto simp: kstate_simps leave_def drop_one_fields)
    ultimately show ?thesis
      using Cons.IH [of ?t] Cons.prems(2,3) True same
      by (simp add: del)
  next
    case False
    then have "del_pid_list pid [] (my_list (entry i s)) (entry i s) = (False, entry i s)"
      using Cons.prems(1) by (simp add: del_pid_list_absent)
    then show ?thesis
      using Cons.IH [of s] Cons.prems False by (simp add: upd_entry_same)
  qed
qed simp

lemma exit_group_answer:
  assumes "loaded K L" and "in_use K c" and "distinct l" and "leave pid (mt f i mn l) = mt f i mn' l'"
    and "nr_syscalls e = nr_syscalls K" and "current_pid e = pid"
  shows "\<exists>h. my_exit_group e (using_call L c f i mn l) = Ok (h, using_call L c f i mn' l')"
proof -
  let ?s = "using_call L c f i mn l"
  note u = using_call_fields [OF assms(1,2)]
  have other: "pid \<notin> set (my_list (entry j (?s\<lparr>held := {Pidlist_lock}\<rparr>)))"
    if "j \<in> set [1..<nr_syscalls e]" "j \<noteq> c" for j
    using that u(2) loadedD(8) [OF assms(1)] assms(5) by (simp add: entry_fields)
  have d: "distinct (my_list (entry c (?s\<lparr>held := {Pidlist_lock}\<rparr>)))"
    using assms(3) u(1) by (simp add: entry_fields)
  have "c \<in> set [1..<nr_syscalls e]"
    using assms(2,5) by (auto simp: in_use_def)
  with fold_del_pid [of "[1..<nr_syscalls e]" c pid "?s\<lparr>held := {Pidlist_lock}\<rparr>" False] other d
  obtain b where "snd (del_pid e pid (?s\<lparr>held := {Pidlist_lock}\<rparr>)) =
      upd_entry c (leave pid) (?s\<lparr>held := {Pidlist_lock}\<rparr>)"
    by (auto simp: del_pid_def)
  also have "\<dots> = (using_call L c f i mn' l')\<lparr>held := {Pidlist_lock}\<rparr>"
    using using_call_upd [OF assms(1,2), where g = "leave pid", OF assms(4)] by (simp add: upd_held)
  finally show ?thesis
    using u(5) assms(6) by (auto simp: my_exit_group_def spin_lock_def spin_unlock_def held_same)
qed

lemma exit_answer:
  assumes "loaded K L" and "in_use K c" and "distinct l"
    and "leave (getpid p) (mt f i mn l) = mt f i mn' l'"
  shows "exit_process K kf p (at L c f i mn l m) =
    Ok (at L c f i mn' l' (m\<lparr>tasks := (tasks m)(getpid p := None)\<rparr>))"
proof -
  note u = using_call_fields [OF assms(1,2)]
  obtain h where "my_exit_group (env_of K p (at L c f i mn l m)) (using_call L c f i mn l) =
      Ok (h, using_call L c f i mn' l')"
    using exit_group_answer [OF assms, of "env_of K p (at L c f i mn l m)"] by (auto simp: env_of_def)
  then show ?thesis
    using u loadedD(4) [OF assms(1)]
    by (simp add: exit_process_def kernel_entry_def run_handler_def at_def not_le)
qed

text \<open>A guest that leaves nothing monitored but perhaps itself.\<close>

lemma guest_answer:
  assumes "loaded K L" and "in_use K c" and "forks m = (b, g) # fs" and "b \<noteq> g"
    and "prog \<lparr>getpid = g, getuid = nobody\<rparr> (at L c f i mn l (m\<lparr>forks := fs, last_child := b,
      tasks := (tasks m)(b \<mapsto> getuid p, g \<mapsto> nobody)\<rparr>)) = Ok (at L c f i mn' l' m')"
    and "distinct l'" and "leave g (mt f i mn' l') = mt f i mn'' l''" and "b \<notin> set l''" 
  shows "do_as_guest K kf nobody p prog (at L c f i mn l m) =
    Ok (at L c f i mn'' l'' (m'\<lparr>tasks := (tasks m')(g := None, b := None)\<rparr>))"
proof -
  have l'': "l'' = my_list (leave g (mt f i mn' l'))"
    using assms(7) by simp
  have "distinct l''"
    unfolding l'' leave_def using assms(6) by (simp add: drop_one_fields)
  moreover have "leave b (mt f i mn'' l'') = mt f i mn'' l''"
    using assms(8) by (simp add: leave_def)
  ultimately show ?thesis
    using assms(3,5-7) exit_answer [OF assms(1,2)] by (simp add: do_as_guest_def)
qed

subsection \<open>Loading and unloading\<close>

text \<open>A kernel before the module: its own functions in the table, and the module's statics zero.\<close>

definition fresh_kernel :: "kenv \<Rightarrow> kstate \<Rightarrow> bool" where
  "fresh_kernel K s \<longleftrightarrow> kmalloc_ok K \<and> 1 \<le> nr_exit_group K \<and> nr_exit_group K < nr_syscalls K \<and>
     sys_call_table s = map Original [0..<nr_syscalls K] \<and> length (table s) = nr_syscalls K + 1 \<and>
     held s = {} \<and> prot_ok s \<and> intercepted (entry 0 s) = 0"

lemma fold_upd_entry:
  "distinct is \<Longrightarrow> entry j (fold (\<lambda>i. upd_entry i g) is s) =
    (if j \<in> set is \<and> j < length (table s) then g (entry j s) else entry j s)"
  by (induction "is" arbitrary: s) (auto simp: kstate_simps)

lemma fold_upd_entry_fields:
  "length (table (fold (\<lambda>i. upd_entry i g) is s)) = length (table s)"
  "sys_call_table (fold (\<lambda>i. upd_entry i g) is s) = sys_call_table s"
  "sct_pte (fold (\<lambda>i. upd_entry i g) is s) = sct_pte s"
  "held (fold (\<lambda>i. upd_entry i g) is s) = held s"
  "orig_custom_syscall (fold (\<lambda>i. upd_entry i g) is s) = orig_custom_syscall s"
  "orig_exit_group (fold (\<lambda>i. upd_entry i g) is s) = orig_exit_group s"
  by (induction "is" arbitrary: s) (simp_all add: kstate_simps)

lemma init_function_loads:
  assumes "fresh_kernel K s" and "nr_syscalls e = nr_syscalls K" and "nr_exit_group e = nr_exit_group K"
  shows "\<exists>L. init_function e s = Ok (0, L) \<and> loaded K L \<and>
    sys_call_table L = (sys_call_table s)[0 := My_syscall, nr_exit_group K := My_exit_group] \<and>
    orig_custom_syscall L = Original 0 \<and> orig_exit_group L = Original (nr_exit_group K)"
proof -
  let ?x = "nr_exit_group K" and ?n = "nr_syscalls K"
  let ?g = "\<lambda>t. t\<lparr>intercepted := 0, monitored := 0, listcount := 0, my_list := []\<rparr>"
  let ?T = "(sys_call_table s)[0 := My_syscall, ?x := My_exit_group]"
  let ?s = "s\<lparr>orig_custom_syscall := Original 0, orig_exit_group := Original ?x,
      sys_call_table := ?T, held := {Pidlist_lock, Calltable_lock}\<rparr>"
  define L where "L = (fold (\<lambda>i. upd_entry i ?g) [1..<?n + 1] ?s)\<lparr>held := {}\<rparr>"
  have a: "kmalloc_ok K" "1 \<le> ?x" "?x < ?n" "sys_call_table s = map Original [0..<?n]"
    "length (table s) = ?n + 1" "held s = {}" "prot_ok s" "intercepted (entry 0 s) = 0"
    using assms(1) by (auto simp: fresh_kernel_def)
  have L: "length (table L) = ?n + 1" "sys_call_table L = ?T" "sct_pte L = sct_pte s" "held L = {}"
    "orig_custom_syscall L = Original 0" "orig_exit_group L = Original ?x"
    using a by (simp_all add: L_def fold_upd_entry_fields del: upt_Suc)
  have ent: "entry i L = (if 1 \<le> i \<and> i \<le> ?n then ?g (entry i s) else entry i s)" for i
    using a by (auto simp: L_def fold_upd_entry kstate_simps simp del: upt_Suc)
  have pte: "(sct_pte s OR PAGE_RW) AND NOT PAGE_RW = sct_pte s"
    using a(7) rw_ro by (simp add: prot_ok_def)
  have "?n \<noteq> 0" using a(3) by simp
  then have "init_function e s = Ok (0, L)"
    using a assms(2,3) pte set_addr_rw_eq [of "s\<lparr>held := {Calltable_lock},
        orig_custom_syscall := Original 0, orig_exit_group := Original ?x\<rparr>"]
    by (simp add: init_function_def spin_lock_def read_sct_def write_sct_def MY_CUSTOM_SYSCALL_def
        rw_writable PAGE_RW_nonzero Let_def set_addr_ro_def spin_unlock_def prot_ok_def L_def
        fold_upd_entry_fields kstate_simps del: upt_Suc)
  moreover have "loaded K L"
  proof -
    have "?T ! i \<noteq> Interceptor" if "i < ?n" for i
      using a(2-4) that by (cases "i = ?x"; cases "i = 0") auto
    then have "module_ok K L"
      using a L by (auto simp: module_ok_def ent entry_ok_def prot_ok_def)
    moreover have "?T ! 0 = My_syscall" "?T ! ?x = My_exit_group"
      using a(2-4) by auto
    ultimately show ?thesis
      using a L(2) by (auto simp: loaded_def ent Suc_le_eq)
  qed
  ultimately show ?thesis
    using L a by auto
qed

subsection \<open>The whole test\<close>

lemma answered_fields [simp]:
  "tasks (answered t a r st m) = tasks m" "forks (answered t a r st m) = forks m"
  "last_child (answered t a r st m) = last_child m"
  "printed (answered t a r st m) = printed m @ [(t, a, r = st)]"
  "tasks (monitor_logged kf n rands p c m) = tasks m"
  "forks (monitor_logged kf n rands p c m) = forks m"
  "last_child (monitor_logged kf n rands p c m) = last_child m"
  "printed (monitor_logged kf n rands p c m) = printed m @ [(''%d nonroot monitor'', int c, True)]"
  by (simp_all add: answered_def monitor_logged_def)

text \<open>The same lines, all passed, with the rest of the machine as before.\<close>

definition passed :: "string list \<Rightarrow> int \<Rightarrow> machine \<Rightarrow> machine \<Rightarrow> bool" where
  "passed ts a m m' \<longleftrightarrow> tasks m' = tasks m \<and> forks m' = forks m \<and> last_child m' = last_child m \<and>
     printed m' = printed m @ map (\<lambda>t. (t, a, True)) ts"

definition nonroot_lines :: "string list" where
  "nonroot_lines = [''%d intercept'', ''%d release'', ''%d start'', ''%d stop'', ''%d start'',
     ''%d stop'', ''%d start'', ''%d start'', ''%d nonroot monitor'', ''%d stop'', ''%d stop'']"

text \<open>What a user other than root is refused.\<close>

definition forbidden :: "process \<Rightarrow> int \<Rightarrow> machine \<Rightarrow> bool" where
  "forbidden p pid m \<longleftrightarrow> pid = 0 \<or> 0 < pid \<and> tasks m pid \<noteq> None \<and> tasks m (getpid p) \<noteq> None \<and>
     tasks m pid \<noteq> tasks m (getpid p)"

lemma guest_refused:
  assumes "loaded K L" and "in_use K c" and "getuid p \<noteq> 0"
  shows "do_intercept_test K kf p (int c) E_PERM (at L c f i mn l m) =
      Ok (at L c f i mn l (answered ''%d intercept'' (int c) E_PERM E_PERM m))"
    and "do_release_test K kf p (int c) E_PERM (at L c f i mn l m) =
      Ok (at L c f i mn l (answered ''%d release'' (int c) E_PERM E_PERM m))"
    and "forbidden p pid m \<Longrightarrow>
      do_start_test K kf p (int c) pid E_PERM (at L c f i mn l m) =
      Ok (at L c f i mn l (answered ''%d start'' (int c) E_PERM E_PERM m))"
    and "forbidden p pid m \<Longrightarrow>
      do_stop_test K kf p (int c) pid E_PERM (at L c f i mn l m) =
      Ok (at L c f i mn l (answered ''%d stop'' (int c) E_PERM E_PERM m))"
  using assms unfolding do_intercept_test_def do_release_test_def do_start_test_def do_stop_test_def
  by (auto intro!: refused [OF assms(1,2)] simp: answer_simps check_pid_from_list_def E_PERM_def forbidden_def)

lemma nonroot_passes:
  assumes "loaded K L" and "in_use K c" and "sys_call_table L ! c = Original n" and "getuid p \<noteq> 0"
    and "1 < getpid p" and "tasks m (getpid p) = Some (getuid p)" and "tasks m 1 = Some 0"
  shows "\<exists>m'. do_nonroot K kf rands p (int c) (at L c (Original n) 1 0 [] m) =
    Ok (at L c (Original n) 1 0 [] m') \<and> passed nonroot_lines (int c) m m'"
proof -
  note L = assms(1,2)
  have may: "may_monitor p (getpid p) m'" if "tasks m' = tasks m" for m'
    using that assms(4-6) by (simp add: may_monitor_def)
  have no: "forbidden p 0 m'" "forbidden p 1 m'" if "tasks m' = tasks m" for m'
    using that assms(4,6,7) by (simp_all add: forbidden_def)
  have pid: "getpid p \<noteq> 0" "getpid p \<noteq> - 1"
    using assms(5) by auto
  show ?thesis
    unfolding do_nonroot_def
    by (simp add: guest_refused [OF L assms(4)] no may pid start_answer [OF L]
        stop_answer [OF L] monitor_answer [OF L assms(3)])
      (rule exI, rule conjI, rule refl, simp add: passed_def nonroot_lines_def)
qed

text \<open>The pids that \<open>fork\<close> hands out are new.\<close>

definition fresh_pids :: "(int \<Rightarrow> nat option) \<Rightarrow> int \<times> int \<Rightarrow> bool" where
  "fresh_pids tk = (\<lambda>(b, g). 1 < b \<and> 1 < g \<and> b \<noteq> g \<and> tk b = None \<and> tk g = None)"

lemma guest_passes:
  assumes "loaded K L" and "in_use K c" and "forks m = (b, g) # fs" and "fresh_pids (tasks m) (b, g)"
    and "\<And>m1. forks m1 = fs \<Longrightarrow> tasks m1 = (tasks m)(b \<mapsto> getuid p, g \<mapsto> nobody) \<Longrightarrow>
      \<exists>m'. prog \<lparr>getpid = g, getuid = nobody\<rparr> (at L c f i mn l m1) = Ok (at L c f i mn' l' m') \<and>
        passed ts (int c) m1 m'"
    and "distinct l'" and "leave g (mt f i mn' l') = mt f i mn'' l''" and "b \<notin> set l''"
  shows "\<exists>m'. do_as_guest K kf nobody p prog (at L c f i mn l m) = Ok (at L c f i mn'' l'' m') \<and>
    tasks m' = tasks m \<and> forks m' = fs \<and> last_child m' = b \<and>
    printed m' = printed m @ map (\<lambda>t. (t, int c, True)) ts"
proof -
  let ?m1 = "m\<lparr>forks := fs, last_child := b, tasks := (tasks m)(b \<mapsto> getuid p, g \<mapsto> nobody)\<rparr>"
  obtain m' where m': "prog \<lparr>getpid = g, getuid = nobody\<rparr> (at L c f i mn l ?m1) = Ok (at L c f i mn' l' m')"
    "passed ts (int c) ?m1 m'"
    using assms(5) [of ?m1] by auto
  have "do_as_guest K kf nobody p prog (at L c f i mn l m) =
      Ok (at L c f i mn'' l'' (m'\<lparr>tasks := (tasks m')(g := None, b := None)\<rparr>))"
    using guest_answer [where prog = prog and nobody = nobody and g = g and l'' = l'', OF assms(1-3) _ m'(1) assms(6)]
      assms(4,7,8) by (simp add: fresh_pids_def)
  moreover have "(tasks m')(g := None, b := None) = tasks m"
    using m'(2) assms(4) by (auto simp: passed_def fresh_pids_def)
  ultimately show ?thesis
    using m'(2) by (auto simp: passed_def)
qed

text \<open>The three programs that run as a guest; the last one leaves itself monitored when it ends.\<close>

lemma guest_programs:
  fixes kf :: "nat \<Rightarrow> int list \<Rightarrow> int" and rands :: "int list" and p :: process
  assumes "loaded K L" and "in_use K c" and "sys_call_table L ! c = Original n" and "nobody \<noteq> 0"
    and "forks m = (b, g) # fs" and "fresh_pids (tasks m) (b, g)" and "tasks m 1 = Some 0"
  defines "runs \<equiv> \<lambda>a ts mn l. \<exists>m'. do_as_guest K kf nobody p (\<lambda>g. main_with_args K kf rands g a)
      (at L c (Original n) 1 mn l m) = Ok (at L c (Original n) 1 mn l m') \<and> tasks m' = tasks m \<and>
    forks m' = fs \<and> last_child m' = b \<and> printed m' = printed m @ map (\<lambda>t. (t, int c, True)) ts"
  shows "runs (Arg_nonroot (int c)) nonroot_lines 0 []"
    and "runs (Arg_stop (int c) 1 E_PERM) [''%d stop''] 1 [1]"
    and "runs (Arg_start (int c) (- 1) 0) [''%d start''] 0 []"
proof -
  note L = assms(1,2) and guest = guest_passes [OF assms(1,2,5,6)]
  have g: "1 < g" "1 < b" "b \<noteq> g" "b \<noteq> 1" "g \<noteq> 1"
    using assms(6) by (auto simp: fresh_pids_def)
  have tk: "tasks m1 g = Some nobody \<and> tasks m1 1 = Some 0"
    if "tasks m1 = (tasks m)(b \<mapsto> getuid p, g \<mapsto> nobody)" for m1
    using that g assms(7) by simp
  show "runs (Arg_nonroot (int c)) nonroot_lines 0 []"
    unfolding runs_def
  proof (rule guest)
    show "\<exists>m'. main_with_args K kf rands \<lparr>getpid = g, getuid = nobody\<rparr> (Arg_nonroot (int c))
        (at L c (Original n) 1 0 [] m1) = Ok (at L c (Original n) 1 0 [] m') \<and>
        passed nonroot_lines (int c) m1 m'"
      if "tasks m1 = (tasks m)(b \<mapsto> getuid p, g \<mapsto> nobody)" for m1
      unfolding main_with_args_def arguments.case
      using tk [OF that] g assms(4) by (intro nonroot_passes [OF L assms(3)]) auto
  qed (simp_all add: leave_def)
  show "runs (Arg_stop (int c) 1 E_PERM) [''%d stop''] 1 [1]"
    unfolding runs_def
  proof (rule guest)
    show "\<exists>m'. main_with_args K kf rands \<lparr>getpid = g, getuid = nobody\<rparr> (Arg_stop (int c) 1 E_PERM)
        (at L c (Original n) 1 1 [1] m1) = Ok (at L c (Original n) 1 1 [1] m') \<and>
        passed [''%d stop''] (int c) m1 m'"
      if "tasks m1 = (tasks m)(b \<mapsto> getuid p, g \<mapsto> nobody)" for m1
      using guest_refused(4) [OF L] tk [OF that] assms(4)
      by (auto simp: main_with_args_def forbidden_def passed_def)
  qed (use g in \<open>simp_all add: leave_def\<close>)
  show "runs (Arg_start (int c) (- 1) 0) [''%d start''] 0 []"
    unfolding runs_def
  proof (rule guest)
    show "\<exists>m'. main_with_args K kf rands \<lparr>getpid = g, getuid = nobody\<rparr> (Arg_start (int c) (- 1) 0)
        (at L c (Original n) 1 0 [] m1) = Ok (at L c (Original n) 1 1 [g] m') \<and>
        passed [''%d start''] (int c) m1 m'"
      if "tasks m1 = (tasks m)(b \<mapsto> getuid p, g \<mapsto> nobody)" for m1
      using start_answer(2) [OF L, of "\<lparr>getpid = g, getuid = nobody\<rparr>" g] tk [OF that] g assms(4)
      by (auto simp: main_with_args_def may_monitor_def passed_def start_own)
  qed (simp_all add: leave_def drop_one_def mt_def)
qed

definition syscall_lines :: "string list" where
  "syscall_lines = [''%d intercept'', ''%d intercept''] @ nonroot_lines @
     [''%d start'', ''%d start'', ''%d stop'', ''%d start'', ''%d stop'', ''%d stop'', ''%d start'',
      ''%d stop'', ''%d release'']"

lemma test_syscall_passes:
  assumes "loaded K L" and "in_use K c" and "sys_call_table L ! c = Original n" and "getuid p = 0"
    and "nobody \<noteq> 0" and "tasks m 1 = Some 0"
    and "forks m = b1 # b2 # b3 # fs" and "\<forall>b \<in> {b1, b2, b3}. fresh_pids (tasks m) b"
  shows "\<exists>m'. test_syscall K kf nobody rands p (int c) (at L c f 0 0 [] m) =
      Ok (at L c (Original n) 0 0 [] m') \<and>
    printed m' = printed m @ map (\<lambda>t. (t, int c, True)) syscall_lines"
proof -
  note L = assms(1,2)
  obtain p1 g1 p2 g2 p3 g3 where b: "b1 = (p1, g1)" "b2 = (p2, g2)" "b3 = (p3, g3)"
    by (cases b1; cases b2; cases b3)
  have may: "may_monitor p 0 m'" "may_monitor p 1 m'" if "tasks m' = tasks m" for m'
    using that assms(4,6) by (simp_all add: may_monitor_def)
  have bad: "do_start_test K kf p (int c) (- 2) E_INVAL (at L c (Original n) 1 0 [] m') =
      Ok (at L c (Original n) 1 0 [] (answered ''%d start'' (int c) E_INVAL E_INVAL m'))" for m'
    unfolding do_start_test_def using L
    by (simp, intro refused) (auto simp: answer_simps)
  have gone: "do_stop_test K kf p (int c) p3 E_INVAL (at L c (Original n) 1 0 [] m') =
      Ok (at L c (Original n) 1 0 [] (answered ''%d stop'' (int c) E_INVAL E_INVAL m'))"
    if "tasks m' = tasks m" for m'
    unfolding do_stop_test_def using L that assms(8) b
    by (intro refused) (auto simp: answer_simps fresh_pids_def)
  note guest = guest_programs [OF L assms(3,5), where kf = kf and rands = rands and p = p]
  define m1 where "m1 = answered ''%d intercept'' (int c) E_BUSY E_BUSY (answered ''%d intercept'' (int c) 0 0 m)"
  obtain m2 where m2: "do_as_guest K kf nobody p (\<lambda>g. main_with_args K kf rands g (Arg_nonroot (int c)))
      (at L c (Original n) 1 0 [] m1) = Ok (at L c (Original n) 1 0 [] m2)" "tasks m2 = tasks m"
    "forks m2 = b2 # b3 # fs" "printed m2 = printed m1 @ map (\<lambda>t. (t, int c, True)) nonroot_lines"
    using guest(1) [of m1 p1 g1 "b2 # b3 # fs"] assms(6-8) b by (auto simp: m1_def)
  define m3 where "m3 = answered ''%d start'' (int c) 0 0 (answered ''%d stop'' (int c) 0 0
      (answered ''%d start'' (int c) 0 0 (answered ''%d start'' (int c) E_INVAL E_INVAL m2)))"
  obtain m4 where m4: "do_as_guest K kf nobody p (\<lambda>g. main_with_args K kf rands g (Arg_stop (int c) 1 E_PERM))
      (at L c (Original n) 1 1 [1] m3) = Ok (at L c (Original n) 1 1 [1] m4)" "tasks m4 = tasks m"
    "forks m4 = b3 # fs" "printed m4 = printed m3 @ [(''%d stop'', int c, True)]"
    using guest(2) [of m3 p2 g2 "b3 # fs"] assms(6-8) b m2 by (auto simp: m3_def)
  define m5 where "m5 = answered ''%d stop'' (int c) 0 0 m4"
  obtain m6 where m6: "do_as_guest K kf nobody p (\<lambda>g. main_with_args K kf rands g (Arg_start (int c) (- 1) 0))
      (at L c (Original n) 1 0 [] m5) = Ok (at L c (Original n) 1 0 [] m6)" "tasks m6 = tasks m"
    "last_child m6 = p3" "printed m6 = printed m5 @ [(''%d start'', int c, True)]"
    using guest(3) [of m5 p3 g3 fs] assms(6-8) b m4 by (auto simp: m5_def)
  have run: "test_syscall K kf nobody rands p (int c) (at L c f 0 0 [] m) =
      Ok (at L c (Original n) 0 0 [] (answered ''%d release'' (int c) 0 0
        (answered ''%d stop'' (int c) E_INVAL E_INVAL m6)))"
    using m2(1,2) m4(1,2) m6(1-3) intercept_answer [OF L assms(4)] release_answer [OF L assms(4)] assms(3)
    by (simp add: test_syscall_def m1_def m3_def m5_def bad gone may start_answer [OF L] stop_answer [OF L])
  show ?thesis
    by (intro exI conjI, rule run) (simp add: m2(4) m4(4) m6(4) syscall_lines_def m1_def m3_def m5_def)
qed

lemma using_call_loaded:
  assumes "loaded K L" and "in_use K c" and "f \<noteq> Interceptor"
  shows "loaded K (using_call L c f 0 0 [])"
    and "sys_call_table (using_call L c f 0 0 []) = sys_call_table L"
    and "orig_custom_syscall (using_call L c f 0 0 []) = orig_custom_syscall L"
    and "orig_exit_group (using_call L c f 0 0 []) = orig_exit_group L"
proof -
  note u = using_call_fields [OF assms(1,2)]
  have "entry i (using_call L c f 0 0 []) = (if i = c then mt f 0 0 [] else entry i L)" for i
    using u(1,2) by simp
  then show "loaded K (using_call L c f 0 0 [])"
    using using_call_ok [OF assms(1-3), of "[]" 0 0] assms(1) u(7,8) by (simp add: loaded_def)
qed (simp_all add: using_call_def kstate_simps)

text \<open>The first tests of \<open>main\<close>, up to the release of \<open>__NR_exit\<close>.\<close>

definition first_lines :: "string \<Rightarrow> int \<Rightarrow> (string \<times> int \<times> bool) list" where
  "first_lines bad x = map (\<lambda>(t, a). (t, a, True))
     [(''insmod interceptor.ko %s'', 0), (bad, 0),
      (''%d intercept'', 0), (''%d release'', 0), (''%d intercept'', - 1), (''%d release'', - 1),
      (''%d intercept'', x), (''%d release'', x)]"

lemma bad_requests:
  assumes "loaded K L" and "in_use K c" and "getuid p = 0" and "sysc = 0 \<or> sysc = - 1"
  shows "do_intercept_test K kf p sysc E_INVAL (at L c f i mn l m) =
      Ok (at L c f i mn l (answered ''%d intercept'' sysc E_INVAL E_INVAL m))"
    and "do_release_test K kf p sysc E_INVAL (at L c f i mn l m) =
      Ok (at L c f i mn l (answered ''%d release'' sysc E_INVAL E_INVAL m))"
proof -
  show "do_intercept_test K kf p sysc E_INVAL (at L c f i mn l m) =
      Ok (at L c f i mn l (answered ''%d intercept'' sysc E_INVAL E_INVAL m))"
    unfolding do_intercept_test_def using assms(4)
    by (intro refused [OF assms(1,2)]) (auto simp: answer_simps)
  show "do_release_test K kf p sysc E_INVAL (at L c f i mn l m) =
      Ok (at L c f i mn l (answered ''%d release'' sysc E_INVAL E_INVAL m))"
    unfolding do_release_test_def using assms(4)
    by (intro refused [OF assms(1,2)]) (auto simp: answer_simps)
qed

lemma bad_arguments_refused:
  assumes "loaded K L" and "in_use K c"
  shows "bad_arguments K kf bad p (at L c f i mn l m) =
      Ok (at L c f i mn l (answered bad 0 E_INVAL E_INVAL m))"
proof -
  have "request K kf p 100 bad 0 0 E_INVAL (at L c f i mn l m) =
      Ok (at L c f i mn l (answered bad 0 E_INVAL E_INVAL m))"
    by (intro refused [OF assms(1,2)]) (auto simp: answer_simps)
  then show ?thesis
    by (simp add: bad_arguments_def request_def)
qed

lemma run_tests_append: "run_tests (ts @ us) m = res_bind (run_tests ts m) (run_tests us)"
proof (induction ts arbitrary: m)
  case (Cons t ts)
  show ?case using Cons.IH by (cases "t m") simp_all
qed simp

definition first_tests where
  "first_tests K kf bad p x = [insmod K p, bad_arguments K kf bad p,
     do_intercept_test K kf p (int MY_CUSTOM_SYSCALL) E_INVAL,
     do_release_test K kf p (int MY_CUSTOM_SYSCALL) E_INVAL,
     do_intercept_test K kf p (- 1) E_INVAL, do_release_test K kf p (- 1) E_INVAL,
     do_intercept_test K kf p x 0, do_release_test K kf p x 0]"

lemma first_tests_pass:
  assumes "fresh_kernel K (kern m)" and "in_use K x" and "in_use K c" and "getuid p = 0"
  shows "\<exists>L f m'. run_tests (first_tests K kf bad p (int x)) m = Ok (at L c f 0 0 [] m') \<and> loaded K L \<and>
    sys_call_table L = (sys_call_table (kern m))[0 := My_syscall, nr_exit_group K := My_exit_group] \<and>
    orig_custom_syscall L = Original 0 \<and> orig_exit_group L = Original (nr_exit_group K) \<and>
    tasks m' = tasks m \<and> forks m' = forks m \<and> printed m' = printed m @ first_lines bad (int x)"
proof -
  obtain L0 where L0: "init_function (env_of K p m) (kern m) = Ok (0, L0)" "loaded K L0"
    "sys_call_table L0 = (sys_call_table (kern m))[0 := My_syscall, nr_exit_group K := My_exit_group]"
    "orig_custom_syscall L0 = Original 0" "orig_exit_group L0 = Original (nr_exit_group K)"
    using init_function_loads [OF assms(1), of "env_of K p m"] by (auto simp: env_of_def)
  define f where "f = f_orig (entry x L0)"
  define m1 where "m1 = test_line ''insmod interceptor.ko %s'' 0 True m"
  have "m1\<lparr>kern := L0\<rparr> = at L0 x f 0 0 [] m1"
    using using_call_own [OF L0(2) assms(2)] by (simp add: at_def f_def)
  then have start: "insmod K p m = Ok (at L0 x f 0 0 [] m1)"
    using L0(1) by (cases m) (simp add: insmod_def m1_def test_line_def)
  define L where "L = using_call L0 x (sys_call_table L0 ! x) 0 0 []"
  define m2 where "m2 = answered ''%d release'' (int x) 0 0 (answered ''%d intercept'' (int x) 0 0
    (answered ''%d release'' (- 1) E_INVAL E_INVAL (answered ''%d intercept'' (- 1) E_INVAL E_INVAL
    (answered ''%d release'' 0 E_INVAL E_INVAL (answered ''%d intercept'' 0 E_INVAL E_INVAL
    (answered bad 0 E_INVAL E_INVAL m1))))))"
  have "run_tests (first_tests K kf bad p (int x)) m = Ok (at L0 x (sys_call_table L0 ! x) 0 0 [] m2)"
    using start bad_requests [OF L0(2) assms(2,4)] bad_arguments_refused [OF L0(2) assms(2)] intercept_answer [OF L0(2) assms(2,4)]
      release_answer [OF L0(2) assms(2,4)]
    by (simp add: first_tests_def MY_CUSTOM_SYSCALL_def m2_def)
  moreover have "sys_call_table L0 ! x \<noteq> Interceptor"
    using assms(1,2) by (auto simp: L0(3) fresh_kernel_def in_use_def)
  then have l: "loaded K L" "sys_call_table L = sys_call_table L0"
    "orig_custom_syscall L = Original 0" "orig_exit_group L = Original (nr_exit_group K)"
    using using_call_loaded [OF L0(2) assms(2)] L0(4,5) by (simp_all add: L_def)
  moreover have "at L0 x (sys_call_table L0 ! x) 0 0 [] m2 = at L c (f_orig (entry c L)) 0 0 [] m2"
    using using_call_own [OF l(1) assms(3)] by (simp add: at_def L_def [symmetric])
  moreover have "tasks m2 = tasks m" "forks m2 = forks m" "printed m2 = printed m @ first_lines bad (int x)"
    by (simp_all add: m2_def m1_def test_line_def first_lines_def)
  ultimately show ?thesis
    using L0(3) by metis
qed

text \<open>The module is unloaded with nothing intercepted.\<close>

lemma rmmod_passes:
  assumes "loaded K L" and "in_use K c" and "sys_call_table L ! c = Original n"
    and "sys_call_table L = (map Original [0..<nr_syscalls K])[0 := My_syscall, nr_exit_group K := My_exit_group]"
    and "orig_custom_syscall L = Original 0" and "orig_exit_group L = Original (nr_exit_group K)"
  shows "\<exists>m'. rmmod K p (at L c (Original n) 0 0 [] m) = Ok m' \<and>
    sys_call_table (kern m') = map Original [0..<nr_syscalls K] \<and> held (kern m') = {} \<and>
    printed m' = printed m @ [(''rmmod interceptor.ko %s'', 0, True)]"
proof -
  let ?s = "using_call L c (Original n) 0 0 []" and ?e = "env_of K p (at L c (Original n) 0 0 [] m)"
  note l = using_call_loaded [OF assms(1,2), of "Original n", simplified]
  have T: "(sys_call_table L)[0 := Original 0, nr_exit_group K := Original (nr_exit_group K)] =
      map Original [0..<nr_syscalls K]"
    using loadedD(3,4) [OF assms(1)] by (intro nth_equalityI) (auto simp: assms(4) nth_list_update)
  have "module_ok ?e ?s"
    using loadedD(1) [OF l(1)] by (simp add: module_ok_def env_of_def)
  then obtain s' where "exit_function ?e ?s = Ok s'" "held s' = {}"
    "sys_call_table s' = map Original [0..<nr_syscalls K]"
    using exit_function_quiet [of ?e ?s] loadedD(4,7) [OF l(1)] l(2-4) assms(5,6) T
    by (auto simp: env_of_def MY_CUSTOM_SYSCALL_def)
  then show ?thesis
    by (simp add: rmmod_def test_line_def at_def)
qed
lemma short_syscall_passes:
  assumes "loaded K L" and "in_use K c" and "sys_call_table L ! c = Original n" and "getuid p = 0"
    and "nobody \<noteq> 0" and "forks m = b # fs" and "fresh_pids (tasks m) b"
  shows "\<exists>m'. test_syscall_short K kf nobody p (int c) (at L c f 0 0 [] m) =
      Ok (at L c (Original n) 0 0 [] m') \<and>
    printed m' = printed m @ map (\<lambda>t. (t, int c, True))
      [''%d intercept'', ''%d intercept'', ''%d intercept'', ''%d release'', ''%d release'']"
proof -
  note L = assms(1,2)
  obtain q g where b: "b = (q, g)" by (cases b)
  define m1 where "m1 = answered ''%d intercept'' (int c) E_BUSY E_BUSY (answered ''%d intercept'' (int c) 0 0 m)"
  have "\<exists>m'. do_as_guest K kf nobody p (\<lambda>g. do_nonroot_short K kf g (int c)) (at L c (Original n) 1 0 [] m1) =
      Ok (at L c (Original n) 1 0 [] m') \<and> tasks m' = tasks m1 \<and> forks m' = fs \<and> last_child m' = q \<and>
    printed m' = printed m1 @ map (\<lambda>t. (t, int c, True)) [''%d intercept'', ''%d release'']"
  proof (rule guest_passes [OF L])
    show "forks m1 = (q, g) # fs" "fresh_pids (tasks m1) (q, g)"
      using assms(6,7) by (simp_all add: m1_def b)
    show "\<exists>m''. do_nonroot_short K kf \<lparr>getpid = g, getuid = nobody\<rparr> (int c) (at L c (Original n) 1 0 [] m') =
        Ok (at L c (Original n) 1 0 [] m'') \<and> passed [''%d intercept'', ''%d release''] (int c) m' m''" for m'
      using guest_refused(1,2) [OF L] assms(5) by (simp add: do_nonroot_short_def passed_def)
        (rule exI, rule conjI, rule refl, simp)
  qed (simp_all add: leave_def)
  then obtain m2 where m2: "do_as_guest K kf nobody p (\<lambda>g. do_nonroot_short K kf g (int c))
      (at L c (Original n) 1 0 [] m1) = Ok (at L c (Original n) 1 0 [] m2)"
    "printed m2 = printed m1 @ map (\<lambda>t. (t, int c, True)) [''%d intercept'', ''%d release'']"
    by blast
  have run: "test_syscall_short K kf nobody p (int c) (at L c f 0 0 [] m) =
      Ok (at L c (Original n) 0 0 [] (answered ''%d release'' (int c) 0 0 m2))"
    using m2(1) intercept_answer [OF L assms(4)] release_answer [OF L assms(4)] assms(3)
    by (simp add: test_syscall_short_def m1_def)
  show ?thesis
    by (intro exI conjI, rule run) (simp add: m2(2) m1_def)
qed

text \<open>Both programs: the first tests, one system call, and the unloading.\<close>

lemma module_passes:
  assumes "fresh_kernel K (kern m)" and "in_use K x" and "in_use K c" and "getuid p = 0"
    and calls: "\<And>L f m1. loaded K L \<Longrightarrow> sys_call_table L ! c = Original c \<Longrightarrow> tasks m1 = tasks m \<Longrightarrow>
      forks m1 = forks m \<Longrightarrow> \<exists>m'. call (at L c f 0 0 [] m1) = Ok (at L c (Original c) 0 0 [] m') \<and>
        printed m' = printed m1 @ map (\<lambda>t. (t, int c, True)) ts"
  shows "\<exists>m'. run_tests (first_tests K kf bad p (int x) @ [call, rmmod K p]) m = Ok m' \<and>
    printed m' = printed m @ first_lines bad (int x) @ map (\<lambda>t. (t, int c, True)) ts @
      [(''rmmod interceptor.ko %s'', 0, True)] \<and>
    sys_call_table (kern m') = sys_call_table (kern m) \<and> held (kern m') = {}"
proof -
  obtain L f m1 where m1: "run_tests (first_tests K kf bad p (int x)) m = Ok (at L c f 0 0 [] m1)" "loaded K L"
    "sys_call_table L = (sys_call_table (kern m))[0 := My_syscall, nr_exit_group K := My_exit_group]"
    "orig_custom_syscall L = Original 0" "orig_exit_group L = Original (nr_exit_group K)"
    "tasks m1 = tasks m" "forks m1 = forks m" "printed m1 = printed m @ first_lines bad (int x)"
    using first_tests_pass [OF assms(1-4), of kf] by blast
  have T: "sys_call_table (kern m) = map Original [0..<nr_syscalls K]"
    using assms(1) by (simp add: fresh_kernel_def)
  have c: "sys_call_table L ! c = Original c"
    using assms(3) by (simp add: m1(3) T in_use_def)
  obtain m2 where m2: "call (at L c f 0 0 [] m1) = Ok (at L c (Original c) 0 0 [] m2)"
    "printed m2 = printed m1 @ map (\<lambda>t. (t, int c, True)) ts"
    using calls [OF m1(2) c m1(6,7)] by blast
  obtain m3 where m3: "rmmod K p (at L c (Original c) 0 0 [] m2) = Ok m3"
    "sys_call_table (kern m3) = sys_call_table (kern m)" "held (kern m3) = {}"
    "printed m3 = printed m2 @ [(''rmmod interceptor.ko %s'', 0, True)]"
    using rmmod_passes [OF m1(2) assms(3) c m1(3) [unfolded T] m1(4,5), of p m2] T by auto
  show ?thesis
    using m1(1,8) m2 m3 by (simp add: run_tests_append)
qed

lemma test_full_main_split:
  "test_full_main K kf nobody rands p (int x) (int c) m =
    run_tests (first_tests K kf ''bad MY_SYSCALL args%s'' p (int x) @ [test_syscall K kf nobody rands p (int c), rmmod K p]) m"
  by (simp only: test_full_main_def first_tests_def append.simps)

lemma test_intercept_main_split:
  "test_intercept_main K kf nobody p (int x) (int c) m =
    run_tests (first_tests K kf ''bad MY_CUSTOM_SYSCALL args%s'' p (int x) @ [test_syscall_short K kf nobody p (int c), rmmod K p]) m"
  by (simp only: test_intercept_main_def first_tests_def append.simps)

text \<open>The lines that the two programs print.\<close>

definition full_lines :: "nat \<Rightarrow> nat \<Rightarrow> (string \<times> int \<times> bool) list" where
  "full_lines x c = first_lines ''bad MY_SYSCALL args%s'' (int x) @ map (\<lambda>t. (t, int c, True)) syscall_lines @
     [(''rmmod interceptor.ko %s'', 0, True)]"

definition short_lines :: "nat \<Rightarrow> nat \<Rightarrow> (string \<times> int \<times> bool) list" where
  "short_lines x c = first_lines ''bad MY_CUSTOM_SYSCALL args%s'' (int x) @ map (\<lambda>t. (t, int c, True))
     [''%d intercept'', ''%d intercept'', ''%d intercept'', ''%d release'', ''%d release''] @
     [(''rmmod interceptor.ko %s'', 0, True)]"

text \<open>
  C8. The module passes its test program.  On a kernel into which it is loaded, whatever the system
  calls under test (other than \<open>exit_group\<close>), the pids and the answers of the kernel's own functions are,
  all 31 tests of \<open>test_full\<close> print passed, and after \<open>rmmod\<close> the system call table is what it was before
  \<open>insmod\<close> and no lock is held.
\<close>

theorem module_passes_test_full:
  assumes "fresh_kernel K (kern m)" and "in_use K nr_exit" and "in_use K sys_open"
    and "getuid p = 0" and "nobody \<noteq> 0" and "tasks m 1 = Some 0"
    and "forks m = b1 # b2 # b3 # fs" and "\<forall>b \<in> {b1, b2, b3}. fresh_pids (tasks m) b"
  shows "\<exists>m' ts. test_full_main K kf nobody rands p (int nr_exit) (int sys_open) m = Ok m' \<and>
    printed m' = printed m @ ts \<and> length ts = 31 \<and> (\<forall>(t, a, ok) \<in> set ts. ok) \<and>
    sys_call_table (kern m') = sys_call_table (kern m) \<and> held (kern m') = {}"
proof -
  have "\<exists>m'. test_syscall K kf nobody rands p (int sys_open) (at L sys_open f 0 0 [] m1) =
      Ok (at L sys_open (Original sys_open) 0 0 [] m') \<and>
    printed m' = printed m1 @ map (\<lambda>t. (t, int sys_open, True)) syscall_lines"
    if "loaded K L" "sys_call_table L ! sys_open = Original sys_open" "tasks m1 = tasks m"
      "forks m1 = forks m" for L f m1
    using test_syscall_passes [OF that(1) assms(3) that(2) assms(4,5)] assms(6-8) that(3,4) by simp
  from module_passes [OF assms(1-4) this, of kf] obtain m' where
    "test_full_main K kf nobody rands p (int nr_exit) (int sys_open) m = Ok m'"
    "printed m' = printed m @ full_lines nr_exit sys_open"
    "sys_call_table (kern m') = sys_call_table (kern m)" "held (kern m') = {}"
    unfolding test_full_main_split full_lines_def by blast
  moreover have "length (full_lines nr_exit sys_open) = 31"
    "\<forall>(t, a, ok) \<in> set (full_lines nr_exit sys_open). ok"
    by (simp_all add: full_lines_def first_lines_def syscall_lines_def nonroot_lines_def)
  ultimately show ?thesis by blast
qed

text \<open>The 14 tests of the shorter program.\<close>

lemma module_passes_test_intercept:
  assumes "fresh_kernel K (kern m)" and "in_use K nr_exit" and "in_use K sys_open"
    and "getuid p = 0" and "nobody \<noteq> 0" and "forks m = b # fs" and "fresh_pids (tasks m) b"
  shows "\<exists>m' ts. test_intercept_main K kf nobody p (int nr_exit) (int sys_open) m = Ok m' \<and>
    printed m' = printed m @ ts \<and> length ts = 14 \<and> (\<forall>(t, a, ok) \<in> set ts. ok) \<and>
    sys_call_table (kern m') = sys_call_table (kern m) \<and> held (kern m') = {}"
proof -
  have "\<exists>m'. test_syscall_short K kf nobody p (int sys_open) (at L sys_open f 0 0 [] m1) =
      Ok (at L sys_open (Original sys_open) 0 0 [] m') \<and>
    printed m' = printed m1 @ map (\<lambda>t. (t, int sys_open, True))
      [''%d intercept'', ''%d intercept'', ''%d intercept'', ''%d release'', ''%d release'']"
    if "loaded K L" "sys_call_table L ! sys_open = Original sys_open" "tasks m1 = tasks m"
      "forks m1 = forks m" for L f m1
    using short_syscall_passes [OF that(1) assms(3) that(2) assms(4,5)] assms(6,7) that(3,4) by simp
  from module_passes [OF assms(1-4) this, of kf] obtain m' where
    "test_intercept_main K kf nobody p (int nr_exit) (int sys_open) m = Ok m'"
    "printed m' = printed m @ short_lines nr_exit sys_open"
    "sys_call_table (kern m') = sys_call_table (kern m)" "held (kern m') = {}"
    unfolding test_intercept_main_split short_lines_def by blast
  moreover have "length (short_lines nr_exit sys_open) = 14"
    "\<forall>(t, a, ok) \<in> set (short_lines nr_exit sys_open). ok"
    by (simp_all add: short_lines_def first_lines_def)
  ultimately show ?thesis by blast
qed

definition sample_machine :: machine where
  "sample_machine = \<lparr>kern = \<lparr>table = replicate 7 quiet, sys_call_table = map Original [0..<6],
       sct_pte = 1, held = {}, orig_custom_syscall = Original 0, orig_exit_group = Original 0\<rparr>,
     tasks = [1 \<mapsto> 0, 10 \<mapsto> 0], forks = [(20, 21), (20, 21), (22, 23)], klog = [], printed = [],
     last_child = 0, errno = 0\<rparr>"

definition sample_params :: kenv where
  "sample_params = (sample_env 0 10)\<lparr>nr_syscalls := 6, nr_exit_group := 5\<rparr>"

theorem module_passes_test_full_witness:
  "\<exists>m'. test_full_main sample_params (\<lambda>_ _. - 2) 99 [1, 2, 3, 4, 5, 6] \<lparr>getpid = 10, getuid = 0\<rparr> 1 2
      sample_machine = Ok m' \<and> length (printed m') = 31 \<and> (\<forall>(t, a, ok) \<in> set (printed m'). ok) \<and>
    sys_call_table (kern m') = map Original [0..<6]"
proof -
  have "fresh_kernel sample_params (kern sample_machine)"
    by (simp add: fresh_kernel_def sample_params_def sample_env_def sample_machine_def prot_ok_def
        entry_def quiet_def)
  moreover have "in_use sample_params 1" "in_use sample_params 2"
    by (simp_all add: in_use_def sample_params_def sample_env_def)
  moreover have "tasks sample_machine 1 = Some 0"
    "forks sample_machine = (20, 21) # (20, 21) # (22, 23) # []" "printed sample_machine = []"
    "\<forall>b \<in> {(20, 21), (20, 21), (22, 23)}. fresh_pids (tasks sample_machine) b"
    "sys_call_table (kern sample_machine) = map Original [0..<6]"
    by (simp_all add: sample_machine_def fresh_pids_def)
  ultimately show ?thesis
    using module_passes_test_full [of sample_params sample_machine 1 2 "\<lparr>getpid = 10, getuid = 0\<rparr>" 99
        "(20, 21)" "(20, 21)" "(22, 23)" "[]" "\<lambda>_ _. - 2" "[1, 2, 3, 4, 5, 6]"] by auto
qed
end
