(* ===== verification/MatMul.thy ===== *)
theory MatMul
  imports Main
begin

section \<open>The matrix programs (Assignment2/traceprogs/matmul.c, blocked.c)\<close>

text \<open>
  Matrix multiplication by the definition and by blocks, with the conversions between row-major
  and blocked storage.  An array is a function from indices to values, pointers into it are
  indices.  The arithmetic on \<open>double\<close> is a record of two operations and the zero, of which nothing
  is assumed: both programs add the same products in the same order.
\<close>

subsection \<open>Programs\<close>

record 'a arith =
  plus_op :: "'a \<Rightarrow> 'a \<Rightarrow> 'a"
  times_op :: "'a \<Rightarrow> 'a \<Rightarrow> 'a"
  zero_op :: 'a

type_synonym 'a array = "nat \<Rightarrow> 'a"

text \<open>\<open>for (i = 0; i < m; i++)\<close>\<close>

definition for_loop :: "nat \<Rightarrow> (nat \<Rightarrow> 's \<Rightarrow> 's) \<Rightarrow> 's \<Rightarrow> 's" where
  "for_loop m f s = fold f [0..<m] s"

definition Mat_mult :: "'a arith \<Rightarrow> nat \<Rightarrow> 'a array \<Rightarrow> 'a array \<Rightarrow> 'a array \<Rightarrow> 'a array" where
  "Mat_mult R n A B C =
     for_loop n (\<lambda>i. for_loop n (\<lambda>j C.
       for_loop n (\<lambda>k C. C(i * n + j := plus_op R (C (i * n + j)) (times_op R (A (i * n + k)) (B (k * n + j)))))
         (C(i * n + j := zero_op R)))) C"

definition Zero_C :: "'a arith \<Rightarrow> nat \<Rightarrow> nat \<Rightarrow> nat \<Rightarrow> nat \<Rightarrow> 'a array \<Rightarrow> nat \<times> 'a array" where
  "Zero_C R n_bar b_sqr i_bar j_bar C =
     (let C_p = (i_bar * n_bar + j_bar) * b_sqr in
      (C_p, \<lambda>x. if C_p \<le> x \<and> x < C_p + b_sqr then zero_op R else C x))"

definition Mult_add ::
  "'a arith \<Rightarrow> nat \<Rightarrow> nat \<Rightarrow> 'a array \<Rightarrow> 'a array \<Rightarrow> nat \<Rightarrow> nat \<Rightarrow> nat \<Rightarrow> nat \<Rightarrow> 'a array \<Rightarrow> 'a array" where
  "Mult_add R n_bar b A B C_p i_bar j_bar k_bar C =
     (let a_p = (i_bar * n_bar + k_bar) * (b * b); b_p = (k_bar * n_bar + j_bar) * (b * b) in
      for_loop b (\<lambda>i. for_loop b (\<lambda>j. for_loop b (\<lambda>k C.
        C(C_p + i * b + j := plus_op R (C (C_p + i * b + j))
            (times_op R (A (a_p + i * b + k)) (B (b_p + k * b + j))))))) C)"

definition Blocked_mat_mult ::
  "'a arith \<Rightarrow> nat \<Rightarrow> nat \<Rightarrow> 'a array \<Rightarrow> 'a array \<Rightarrow> 'a array \<Rightarrow> 'a array" where
  "Blocked_mat_mult R n_bar b A B C =
     for_loop n_bar (\<lambda>i_bar. for_loop n_bar (\<lambda>j_bar C.
       let (C_p, C) = Zero_C R n_bar (b * b) i_bar j_bar C in
       for_loop n_bar (Mult_add R n_bar b A B C_p i_bar j_bar) C)) C"

text \<open>
  The two conversions.  The state of the loops is the temporary array, which starts with whatever
  \<open>malloc\<close> returned, and the two pointers, source and target.
\<close>

definition To_blocked :: "nat \<Rightarrow> nat \<Rightarrow> 'a array \<Rightarrow> 'a array \<Rightarrow> 'a array" where
  "To_blocked n b junk A =
     (let n_bar = n div b;
          (T, t_p) = for_loop n_bar (\<lambda>i_bar. for_loop n_bar (\<lambda>j_bar (T, t_p).
            let a_p = i_bar * b * n + j_bar * b;
                (T, t_p, a_p) = for_loop b (\<lambda>i st.
                  let (T, t_p, a_p) = for_loop b (\<lambda>j (T, t_p, a_p).
                        (T(t_p := A a_p), t_p + 1, a_p + 1)) st in
                  (T, t_p, a_p + (n - b))) (T, t_p, a_p) in
            (T, t_p))) (junk, 0) in
      (\<lambda>x. if x < n * n then T x else A x))"

definition From_blocked :: "nat \<Rightarrow> nat \<Rightarrow> 'a array \<Rightarrow> 'a array \<Rightarrow> 'a array" where
  "From_blocked n b junk C =
     (let n_bar = n div b;
          (T, c_p) = for_loop n_bar (\<lambda>i_bar. for_loop n_bar (\<lambda>j_bar (T, c_p).
            let t_p = i_bar * b * n + j_bar * b;
                (T, c_p, t_p) = for_loop b (\<lambda>i st.
                  let (T, c_p, t_p) = for_loop b (\<lambda>j (T, c_p, t_p).
                        (T(t_p := C c_p), c_p + 1, t_p + 1)) st in
                  (T, c_p, t_p + (n - b))) (T, c_p, t_p) in
            (T, c_p))) (junk, 0) in
      (\<lambda>x. if x < n * n then T x else C x))"

subsection \<open>Loops\<close>

lemma for_loop_0 [simp]: "for_loop 0 f s = s"
  by (simp add: for_loop_def)

lemma for_loop_Suc: "for_loop (Suc m) f s = f m (for_loop m f s)"
  by (simp add: for_loop_def)

lemma for_loop_inv:
  assumes "P 0 s" and "\<And>i s. i < m \<Longrightarrow> P i s \<Longrightarrow> P (Suc i) (f i s)"
  shows "P m (for_loop m f s)"
  using assms(2)
proof (induction m)
  case 0
  then show ?case using assms(1) by simp
next
  case (Suc m)
  then show ?case by (simp add: for_loop_Suc)
qed

lemma for_loop_cong: "(\<And>i s. i < m \<Longrightarrow> f i s = g i s) \<Longrightarrow> for_loop m f s = for_loop m g s"
  by (induction m) (simp_all add: for_loop_Suc)

text \<open>Steps that each rewrite their own stretch of an array.\<close>

lemma for_loop_stretches:
  assumes "\<And>i C. i < m \<Longrightarrow>
    f i C = (\<lambda>x. if a + i * s \<le> x \<and> x < a + i * s + s then F x (C x) else C x)"
  shows "for_loop m f C = (\<lambda>x. if a \<le> x \<and> x < a + m * s then F x (C x) else C x)"
  using assms
proof (induction m)
  case 0
  then show ?case by (auto simp: fun_eq_iff)
next
  case (Suc m)
  then have "for_loop m f C = (\<lambda>x. if a \<le> x \<and> x < a + m * s then F x (C x) else C x)" by simp
  then show ?case
    using Suc.prems [of m] by (auto simp: for_loop_Suc fun_eq_iff)
qed

lemma for_loop_one_place:
  "for_loop m (\<lambda>k C. C(p := g k (C p))) C = C(p := for_loop m g (C p))"
  by (induction m) (auto simp: for_loop_Suc fun_eq_iff)

lemma for_loop_blocks:
  "for_loop m (\<lambda>i. for_loop b (\<lambda>j. g (i * b + j))) c = for_loop (m * b) g c"
proof (induction m)
  case (Suc m)
  have "for_loop (m * b + j) g c = for_loop j (\<lambda>j. g (m * b + j)) (for_loop (m * b) g c)" for j
    by (induction j) (simp_all add: for_loop_Suc)
  from this [of b] show ?case
    using Suc by (simp add: for_loop_Suc add.commute)
qed simp

subsection \<open>Where an element is stored\<close>

text \<open>
  \<open>blk N b i j\<close> is the index of element \<open>(i, j)\<close> in blocked storage, with \<open>N\<close> blocks of order \<open>b\<close> in
  a row; \<open>unblk N b c\<close> is the row-major index of the element at index \<open>c\<close> of blocked storage.
\<close>

definition blk :: "nat \<Rightarrow> nat \<Rightarrow> nat \<Rightarrow> nat \<Rightarrow> nat" where
  "blk N b i j = ((i div b * N + j div b) * b + i mod b) * b + j mod b"

definition unblk :: "nat \<Rightarrow> nat \<Rightarrow> nat \<Rightarrow> nat" where
  "unblk N b c = (let q = c div (b * b) in
     (q div N * b + c mod (b * b) div b) * (N * b) + (q mod N * b + c mod (b * b) mod b))"

lemma digits: "j < m \<Longrightarrow> (i * m + j) div m = i \<and> (i * m + j) mod m = (j :: nat)"
  by (cases "m = 0") auto

lemma unblk_eq:
  assumes "jb < N" and "i < b" and "j < b"
  shows "unblk N b (((ib * N + jb) * b + i) * b + j) = ib * b * (N * b) + jb * b + i * (N * b) + j"
proof -
  let ?c = "((ib * N + jb) * b + i) * b + j"
  have r: "i * b + j < b * b"
  proof -
    have "i * b + j < i * b + b" using assms(3) by simp
    also have "\<dots> = Suc i * b" by simp
    also have "\<dots> \<le> b * b" using assms(2) by (intro mult_right_mono) auto
    finally show ?thesis .
  qed
  have c: "?c = (ib * N + jb) * (b * b) + (i * b + j)" by (simp add: algebra_simps)
  have "?c div (b * b) = ib * N + jb" "?c mod (b * b) = i * b + j"
    unfolding c using r digits [of "i * b + j" "b * b"] by auto
  then show ?thesis
    using assms by (simp add: unblk_def Let_def algebra_simps)
qed

lemma blk_coords:
  assumes "ib < N" and "jb < N" and "i < b" and "j < b"
  shows "blk N b (ib * b + i) (jb * b + j) = ((ib * N + jb) * b + i) * b + j"
  using assms by (simp add: blk_def)

lemma two_digits: "(x :: nat) < m * b \<Longrightarrow> x div b < m \<and> x mod b < b \<and> x div b * b + x mod b = x"
  by (auto simp: less_mult_imp_div_less intro!: mod_less_divisor gr0I)

lemma unblk_blk:
  assumes "i < N * b" and "j < N * b"
  shows "unblk N b (blk N b i j) = i * (N * b) + j"
proof -
  note i = two_digits [OF assms(1)] and j = two_digits [OF assms(2)]
  have "unblk N b (blk N b i j) = i div b * b * (N * b) + j div b * b + i mod b * (N * b) + j mod b"
    unfolding blk_def using i j by (intro unblk_eq) auto
  also have "\<dots> = (i div b * b + i mod b) * (N * b) + (j div b * b + j mod b)"
    by (simp only: algebra_simps)
  finally show ?thesis using i j by simp
qed

lemma blk_less:
  assumes "i < N * b" and "j < N * b"
  shows "blk N b i j < (N * b) * (N * b)"
proof -
  note i = two_digits [OF assms(1)] and j = two_digits [OF assms(2)]
  have step: "x * m + y < k * m" if "x < k" "y < m" for x y k m :: nat
  proof -
    have "x * m + y < Suc x * m" using that(2) by simp
    also have "\<dots> \<le> k * m" using that(1) by (intro mult_right_mono) auto
    finally show ?thesis .
  qed
  have "blk N b i j < ((N * N) * b) * b"
    unfolding blk_def using i j by (intro step) auto
  then show ?thesis by (simp add: algebra_simps)
qed

lemma blk_surj:
  assumes "c < (N * b) * (N * b)"
  shows "\<exists>i < N * b. \<exists>j < N * b. c = blk N b i j"
proof -
  have "c < ((N * N) * b) * b" using assms by (simp add: algebra_simps)
  note 1 = two_digits [OF this]
  then have 2: "c div b div b < N * N \<and> c div b mod b < b \<and> c div b div b * b + c div b mod b = c div b"
    using two_digits [of "c div b" "N * N" b] by blast
  then have 3: "c div b div b div N < N \<and> c div b div b mod N < N \<and>
      c div b div b div N * N + c div b div b mod N = c div b div b"
    using two_digits [of "c div b div b" N N] by blast
  have step: "x * b + y < N * b" if "x < N" "y < b" for x y
  proof -
    have "x * b + y < Suc x * b" using that(2) by simp
    also have "\<dots> \<le> N * b" using that(1) by (intro mult_right_mono) auto
    finally show ?thesis .
  qed
  show ?thesis
  proof (intro exI conjI)
    show "c div b div b div N * b + c div b mod b < N * b" using 2 3 by (intro step) auto
    show "c div b div b mod N * b + c mod b < N * b" using 1 3 by (intro step) auto
    show "c = blk N b (c div b div b div N * b + c div b mod b) (c div b div b mod N * b + c mod b)"
      using 1 2 3 by (subst blk_coords) auto
  qed
qed

lemma unblk_inj:
  assumes "c < (N * b) * (N * b)" and "d < (N * b) * (N * b)" and "unblk N b c = unblk N b d"
  shows "c = d"
proof -
  obtain i j k l where "i < N * b" "j < N * b" "c = blk N b i j" "k < N * b" "l < N * b" "d = blk N b k l"
    using blk_surj [OF assms(1)] blk_surj [OF assms(2)] by blast
  then have eq: "i * (N * b) + j = k * (N * b) + l" and lt: "j < N * b" "l < N * b"
    using assms(3) by (auto simp: unblk_blk)
  then have "i = k" "j = l"
    using digits [OF lt(1), of i] digits [OF lt(2), of k] unfolding eq by simp_all
  then show ?thesis using \<open>c = blk N b i j\<close> \<open>d = blk N b k l\<close> by simp
qed

subsection \<open>The conversions\<close>

text \<open>
  One loop nest for both: it visits the elements of blocked storage in order, with a counter \<open>c\<close> and
  the row-major index \<open>unblk N b c\<close> as its two pointers.
\<close>

definition block_walk :: "nat \<Rightarrow> nat \<Rightarrow> nat \<Rightarrow> ('t \<Rightarrow> nat \<Rightarrow> nat \<Rightarrow> 't) \<Rightarrow> 't \<Rightarrow> 't \<times> nat" where
  "block_walk n b n_bar act junk =
     for_loop n_bar (\<lambda>i_bar. for_loop n_bar (\<lambda>j_bar (T, c).
        let r = i_bar * b * n + j_bar * b;
            (T, c, r) = for_loop b (\<lambda>i st.
              let (T, c, r) = for_loop b (\<lambda>j (T, c, r). (act T c r, c + 1, r + 1)) st in
              (T, c, r + (n - b))) (T, c, r) in
        (T, c))) (junk, 0)"

definition walk_row :: "nat \<Rightarrow> ('t \<Rightarrow> nat \<Rightarrow> nat \<Rightarrow> 't) \<Rightarrow> 't \<times> nat \<times> nat \<Rightarrow> 't \<times> nat \<times> nat" where
  "walk_row m act st = for_loop m (\<lambda>j (T, c, r). (act T c r, c + 1, r + 1)) st"

lemma walk_row_inv:
  assumes "Inv c T" and "\<And>j T. j < m \<Longrightarrow> Inv (c + j) T \<Longrightarrow> Inv (Suc (c + j)) (act T (c + j) (r + j))"
  shows "\<exists>T'. walk_row m act (T, c, r) = (T', c + m, r + m) \<and> Inv (c + m) T'"
  using assms(2) unfolding walk_row_def
proof (induction m)
  case (Suc m)
  then obtain T' where "for_loop m (\<lambda>j (T, c, r). (act T c r, c + 1, r + 1)) (T, c, r) = (T', c + m, r + m)"
    "Inv (c + m) T'" by auto
  then show ?case using Suc.prems [of m T'] by (simp add: for_loop_Suc)
qed (use assms(1) in simp)

definition walk_block :: "nat \<Rightarrow> nat \<Rightarrow> nat \<Rightarrow> ('t \<Rightarrow> nat \<Rightarrow> nat \<Rightarrow> 't) \<Rightarrow> 't \<times> nat \<times> nat \<Rightarrow> 't \<times> nat \<times> nat" where
  "walk_block m n b act st =
     for_loop m (\<lambda>i st. let (T, c, r) = walk_row b act st in (T, c, r + (n - b))) st"

lemma walk_block_inv:
  assumes "Inv c T" and "b \<le> n"
    and "\<And>i j T. i < m \<Longrightarrow> j < b \<Longrightarrow> Inv (c + i * b + j) T \<Longrightarrow>
      Inv (Suc (c + i * b + j)) (act T (c + i * b + j) (r + i * n + j))"
  shows "\<exists>T'. walk_block m n b act (T, c, r) = (T', c + m * b, r + m * n) \<and> Inv (c + m * b) T'"
  using assms(3) unfolding walk_block_def
proof (induction m)
  case (Suc m)
  then obtain T1 where T1: "for_loop m (\<lambda>i st. let (T, c, r) = walk_row b act st in (T, c, r + (n - b))) (T, c, r) =
      (T1, c + m * b, r + m * n)" "Inv (c + m * b) T1" by auto
  obtain T2 where "walk_row b act (T1, c + m * b, r + m * n) = (T2, c + m * b + b, r + m * n + b)"
    "Inv (c + m * b + b) T2"
    using walk_row_inv [of Inv, OF T1(2), of b act "r + m * n"] Suc.prems [of m] by auto
  then show ?case
    using T1(1) assms(2) by (simp add: for_loop_Suc add.assoc add.commute [of b])
qed (use assms(1) in simp)

lemma block_walk_eq:
  "block_walk n b n_bar act junk =
     for_loop n_bar (\<lambda>i_bar. for_loop n_bar (\<lambda>j_bar (T, c).
        let (T, c, r) = walk_block b n b act (T, c, i_bar * b * n + j_bar * b) in (T, c))) (junk, 0)"
  by (simp add: block_walk_def walk_block_def walk_row_def)

lemma block_walk_inv:
  assumes n: "n = N * b" and start: "Inv 0 junk"
    and act: "\<And>c T. c < n * n \<Longrightarrow> Inv c T \<Longrightarrow> Inv (Suc c) (act T c (unblk N b c))"
  shows "Inv (n * n) (fst (block_walk n b N act junk))"
proof -
  have block: "\<exists>T'. walk_block b n b act (T, (ib * N + jb) * (b * b), ib * b * n + jb * b) =
      (T', (ib * N + Suc jb) * (b * b), ib * b * n + jb * b + b * n) \<and> Inv ((ib * N + Suc jb) * (b * b)) T'"
    if "ib < N" "jb < N" "Inv ((ib * N + jb) * (b * b)) T" for ib jb T
  proof -
    let ?c = "(ib * N + jb) * (b * b)"
    have "b \<le> n" using that(1) n by simp
    moreover have "Inv (Suc (?c + i * b + j)) (act T (?c + i * b + j) (ib * b * n + jb * b + i * n + j))"
      if "i < b" "j < b" "Inv (?c + i * b + j) T" for i j T
    proof -
      have c: "?c + i * b + j = ((ib * N + jb) * b + i) * b + j" by (simp add: algebra_simps)
      have "ib * b + i < N * b" "jb * b + j < N * b"
        using that \<open>ib < N\<close> \<open>jb < N\<close> by (metis add_less_cancel_left less_le_trans mult_Suc mult_le_mono1
            Suc_leI add.commute)+
      then have "?c + i * b + j < n * n"
        using blk_less [of "ib * b + i" N b "jb * b + j"] blk_coords [of ib N jb i b j] that
          \<open>ib < N\<close> \<open>jb < N\<close> unfolding c n by simp
      then show ?thesis
        using act [of "?c + i * b + j" T] that unblk_eq [of jb N i b j ib] \<open>jb < N\<close> by (simp add: c n)
    qed
    ultimately have "\<exists>T'. walk_block b n b act (T, ?c, ib * b * n + jb * b) =
        (T', ?c + b * b, ib * b * n + jb * b + b * n) \<and> Inv (?c + b * b) T'"
      using walk_block_inv [of Inv ?c T b n b act "ib * b * n + jb * b"] that(3) by blast
    moreover have "?c + b * b = (ib * N + Suc jb) * (b * b)" by (simp add: algebra_simps)
    ultimately show ?thesis by simp
  qed
  define step where "step ib jb = (\<lambda>(T, c).
      let (T, c, r) = walk_block b n b act (T, c, ib * b * n + jb * b) in (T, c))" for ib jb
  have inner: "snd (for_loop N (step ib) s) = Suc ib * N * (b * b) \<and>
      Inv (Suc ib * N * (b * b)) (fst (for_loop N (step ib) s))"
    if "ib < N" "snd s = ib * N * (b * b)" "Inv (ib * N * (b * b)) (fst s)" for ib s
  proof -
    have "snd (for_loop N (step ib) s) = (ib * N + N) * (b * b) \<and>
        Inv ((ib * N + N) * (b * b)) (fst (for_loop N (step ib) s))"
    proof (rule for_loop_inv [where P = "\<lambda>jb s. snd s = (ib * N + jb) * (b * b) \<and>
          Inv ((ib * N + jb) * (b * b)) (fst s)"])
      show "snd s = (ib * N + 0) * (b * b) \<and> Inv ((ib * N + 0) * (b * b)) (fst s)"
        using that by simp
      fix jb s assume "jb < N" and s: "snd s = (ib * N + jb) * (b * b) \<and> Inv ((ib * N + jb) * (b * b)) (fst s)"
      obtain T c where [simp]: "s = (T, c)" by (cases s)
      obtain T' where "walk_block b n b act (T, (ib * N + jb) * (b * b), ib * b * n + jb * b) =
          (T', (ib * N + Suc jb) * (b * b), ib * b * n + jb * b + b * n)" "Inv ((ib * N + Suc jb) * (b * b)) T'"
        using block [OF \<open>ib < N\<close> \<open>jb < N\<close>, of T] s by auto
      then show "snd (step ib jb s) = (ib * N + Suc jb) * (b * b) \<and>
          Inv ((ib * N + Suc jb) * (b * b)) (fst (step ib jb s))"
        using s by (simp add: step_def)
    qed
    then show ?thesis by (simp add: algebra_simps)
  qed
  have "snd (for_loop N (\<lambda>ib. for_loop N (step ib)) (junk, 0)) = N * N * (b * b) \<and>
      Inv (N * N * (b * b)) (fst (for_loop N (\<lambda>ib. for_loop N (step ib)) (junk, 0)))"
    by (rule for_loop_inv [where P = "\<lambda>ib s. snd s = ib * N * (b * b) \<and> Inv (ib * N * (b * b)) (fst s)"])
      (use start inner in auto)
  moreover have "N * N * (b * b) = n * n" by (simp add: n algebra_simps)
  ultimately show ?thesis
    unfolding block_walk_eq by (simp add: step_def [abs_def])
qed

text \<open>Both conversions are this walk.\<close>

lemma To_blocked_walk:
  "To_blocked n b junk A =
     (\<lambda>x. if x < n * n then fst (block_walk n b (n div b) (\<lambda>T c r. T(c := A r)) junk) x else A x)"
  by (simp only: To_blocked_def block_walk_def case_prod_unfold Let_def fst_conv snd_conv)

lemma From_blocked_walk:
  "From_blocked n b junk C =
     (\<lambda>x. if x < n * n then fst (block_walk n b (n div b) (\<lambda>T c r. T(r := C c)) junk) x else C x)"
  by (simp only: From_blocked_def block_walk_def case_prod_unfold Let_def fst_conv snd_conv)

lemma unblk_less:
  assumes "c < (N * b) * (N * b)"
  shows "unblk N b c < (N * b) * (N * b)"
proof -
  obtain i j where ij: "i < N * b" "j < N * b" and c: "c = blk N b i j" using blk_surj [OF assms] by blast
  have "i * (N * b) + j < Suc i * (N * b)" using ij by simp
  also have "\<dots> \<le> (N * b) * (N * b)" using ij by (intro mult_right_mono) auto
  finally show ?thesis by (simp add: c unblk_blk ij)
qed

lemma To_blocked_nth:
  assumes n: "n = N * b" and "0 < b" and x: "x < n * n"
  shows "To_blocked n b junk A x = A (unblk N b x)"
proof -
  let ?Inv = "\<lambda>c T. \<forall>x < c. T x = A (unblk N b x)"
  have N: "n div b = N" using assms by simp
  have "?Inv (n * n) (fst (block_walk n b N (\<lambda>T c r. T(c := A r)) junk))"
    by (rule block_walk_inv [where Inv = ?Inv, OF n]) (auto simp: less_Suc_eq)
  then show ?thesis using x by (simp add: To_blocked_walk N)
qed

lemma From_blocked_nth:
  assumes n: "n = N * b" and "0 < b" and c: "c < n * n"
  shows "From_blocked n b junk C (unblk N b c) = C c"
proof -
  let ?Inv = "\<lambda>c T. \<forall>x < c. x < n * n \<longrightarrow> T (unblk N b x) = C x"
  have N: "n div b = N" using assms by simp
  have "?Inv (n * n) (fst (block_walk n b N (\<lambda>T c r. T(r := C c)) junk))"
  proof (rule block_walk_inv [where Inv = ?Inv, OF n])
    fix c T assume c: "c < n * n" and T: "?Inv c T"
    have "unblk N b x \<noteq> unblk N b c" if "x < c" for x
      using unblk_inj [of x N b c] c that by (auto simp: n)
    then show "?Inv (Suc c) (T(unblk N b c := C c))"
      using T by (auto simp: less_Suc_eq)
  qed simp
  then show ?thesis using c \<open>0 < b\<close> unblk_less [of c N b] by (simp add: From_blocked_walk N n)
qed

subsection \<open>The products\<close>

text \<open>The sum both programs compute for one element, in the order in which they add.\<close>

definition dot :: "'a arith \<Rightarrow> nat \<Rightarrow> (nat \<Rightarrow> 'a) \<Rightarrow> (nat \<Rightarrow> 'a) \<Rightarrow> 'a" where
  "dot R m x y = for_loop m (\<lambda>k c. plus_op R c (times_op R (x k) (y k))) (zero_op R)"

text \<open>A loop that sets one element after the other.\<close>

lemma for_loop_row:
  assumes "\<And>j C. j < m \<Longrightarrow> f j C = C(p + j := v j (C (p + j)))"
  shows "for_loop m f C = (\<lambda>x. if p \<le> x \<and> x < p + m then v (x - p) (C x) else C x)"
  using assms by (induction m) (auto simp: for_loop_Suc fun_eq_iff)

lemma for_loop_table:
  assumes "\<And>i j C. i < m \<Longrightarrow> j < w \<Longrightarrow> f i j C = C(p + i * w + j := v i j (C (p + i * w + j)))"
  shows "for_loop m (\<lambda>i. for_loop w (f i)) C =
    (\<lambda>x. if p \<le> x \<and> x < p + m * w then v ((x - p) div w) ((x - p) mod w) (C x) else C x)"
proof (rule for_loop_stretches)
  fix i C assume "i < m"
  have "for_loop w (f i) C = (\<lambda>x. if p + i * w \<le> x \<and> x < p + i * w + w then v i (x - (p + i * w)) (C x) else C x)"
    by (rule for_loop_row) (rule assms [OF \<open>i < m\<close>])
  also have "\<dots> = (\<lambda>x. if p + i * w \<le> x \<and> x < p + i * w + w
      then v ((x - p) div w) ((x - p) mod w) (C x) else C x)"
  proof (rule ext)
    fix x
    show "(if p + i * w \<le> x \<and> x < p + i * w + w then v i (x - (p + i * w)) (C x) else C x) =
        (if p + i * w \<le> x \<and> x < p + i * w + w then v ((x - p) div w) ((x - p) mod w) (C x) else C x)"
    proof (cases "p + i * w \<le> x \<and> x < p + i * w + w")
      case True
      then have "x - p = i * w + (x - (p + i * w))" "x - (p + i * w) < w" by auto
      then show ?thesis using True digits [of "x - (p + i * w)" w i] by simp
    qed auto
  qed
  finally show "for_loop w (f i) C = (\<lambda>x. if p + i * w \<le> x \<and> x < p + i * w + w
      then v ((x - p) div w) ((x - p) mod w) (C x) else C x)" .
qed

lemma Mat_mult_nth:
  assumes "i < n" and "j < n"
  shows "Mat_mult R n A B C (i * n + j) = dot R n (\<lambda>k. A (i * n + k)) (\<lambda>k. B (k * n + j))"
proof -
  have "i * n + j < Suc i * n" using assms by simp
  also have "\<dots> \<le> n * n" using assms by (intro mult_right_mono) auto
  finally have x: "i * n + j < n * n" .
  have "Mat_mult R n A B C = (\<lambda>x. if 0 \<le> x \<and> x < 0 + n * n
      then dot R n (\<lambda>k. A ((x - 0) div n * n + k)) (\<lambda>k. B (k * n + (x - 0) mod n)) else C x)"
    unfolding Mat_mult_def
    by (rule for_loop_table [where v = "\<lambda>i j _. dot R n (\<lambda>k. A (i * n + k)) (\<lambda>k. B (k * n + j))"])
      (subst for_loop_one_place, simp add: dot_def)
  then show ?thesis using x digits [OF assms(2), of i] by simp
qed

text \<open>The element at index \<open>x\<close> of the product in blocked storage: block by block, then within the block.\<close>

definition block_elem :: "'a arith \<Rightarrow> nat \<Rightarrow> nat \<Rightarrow> 'a array \<Rightarrow> 'a array \<Rightarrow> nat \<Rightarrow> nat \<Rightarrow> nat \<Rightarrow> nat \<Rightarrow> 'a" where
  "block_elem R N b A B ib jb i j =
     for_loop N (\<lambda>kb. for_loop b (\<lambda>k c. plus_op R c
       (times_op R (A ((ib * N + kb) * (b * b) + i * b + k)) (B ((kb * N + jb) * (b * b) + k * b + j))))) (zero_op R)"

lemma for_loop_pointwise:
  "for_loop m (\<lambda>k C x. if P x then g k x (C x) else C x) C =
     (\<lambda>x. if P x then for_loop m (\<lambda>k. g k x) (C x) else C x)"
  by (induction m) (auto simp: for_loop_Suc fun_eq_iff)

lemma Mult_add_block:
  "Mult_add R N b A B p ib jb kb C =
     (\<lambda>x. if p \<le> x \<and> x < p + b * b then for_loop b (\<lambda>k c. plus_op R c
        (times_op R (A ((ib * N + kb) * (b * b) + (x - p) div b * b + k))
           (B ((kb * N + jb) * (b * b) + k * b + (x - p) mod b)))) (C x) else C x)"
  unfolding Mult_add_def Let_def
  by (rule for_loop_table [where v = "\<lambda>i j. for_loop b (\<lambda>k c. plus_op R c
        (times_op R (A ((ib * N + kb) * (b * b) + i * b + k)) (B ((kb * N + jb) * (b * b) + k * b + j))))"])
    (subst for_loop_one_place, simp)

lemmas Mult_add_blocks = Mult_add_block [abs_def]

lemma product_block:
  assumes "ib < N" and "jb < N"
  shows "(let (C_p, C) = Zero_C R N (b * b) ib jb C in for_loop N (Mult_add R N b A B C_p ib jb) C) =
    (\<lambda>x. if ib * (N * (b * b)) + jb * (b * b) \<le> x \<and> x < ib * (N * (b * b)) + jb * (b * b) + b * b
       then block_elem R N b A B (x div (b * b) div N) (x div (b * b) mod N)
              (x mod (b * b) div b) (x mod (b * b) mod b) else C x)"
    (is "?l = ?r")
proof (rule ext)
  fix x
  let ?p = "(ib * N + jb) * (b * b)"
  have p: "ib * (N * (b * b)) + jb * (b * b) = ?p" by (simp add: algebra_simps)
  have l: "?l = (\<lambda>x. if ?p \<le> x \<and> x < ?p + b * b
      then block_elem R N b A B ib jb ((x - ?p) div b) ((x - ?p) mod b) else C x)"
    unfolding Zero_C_def Let_def case_prod_conv Mult_add_blocks
      for_loop_pointwise [where P = "\<lambda>x. ?p \<le> x \<and> x < ?p + b * b" and
        g = "\<lambda>kb x. for_loop b (\<lambda>k c. plus_op R c (times_op R
          (A ((ib * N + kb) * (b * b) + (x - ?p) div b * b + k)) (B ((kb * N + jb) * (b * b) + k * b + (x - ?p) mod b))))"]
    by (auto simp: block_elem_def fun_eq_iff)
  show "?l x = ?r x"
  proof (cases "?p \<le> x \<and> x < ?p + b * b")
    case True
    then have x: "x = (ib * N + jb) * (b * b) + (x - ?p)" and r: "x - ?p < b * b" by auto
    then have q: "x div (b * b) = ib * N + jb \<and> x mod (b * b) = x - ?p"
      using digits [of "x - ?p" "b * b" "ib * N + jb"] by metis
    show ?thesis unfolding l p using True digits [OF assms(2), of ib] by (simp add: q)
  next
    case False
    then show ?thesis unfolding l p by auto
  qed
qed

lemma Blocked_mat_mult_nth:
  assumes "x < N * N * (b * b)"
  shows "Blocked_mat_mult R N b A B C x = block_elem R N b A B (x div (b * b) div N) (x div (b * b) mod N)
     (x mod (b * b) div b) (x mod (b * b) mod b)"
proof -
  let ?F = "\<lambda>x _. block_elem R N b A B (x div (b * b) div N) (x div (b * b) mod N)
     (x mod (b * b) div b) (x mod (b * b) mod b)"
  have "Blocked_mat_mult R N b A B C = (\<lambda>x. if 0 \<le> x \<and> x < 0 + N * (N * (b * b)) then ?F x (C x) else C x)"
    unfolding Blocked_mat_mult_def
    by (rule for_loop_stretches, simp only: add_0, rule for_loop_stretches) (rule product_block)
  then show ?thesis using assms by (simp add: algebra_simps)
qed

lemma block_elem_is_dot:
  assumes n: "n = N * b" and "0 < b" and i: "i < n" and j: "j < n"
  shows "block_elem R N b (To_blocked n b T1 A) (To_blocked n b T2 B) (i div b) (j div b) (i mod b) (j mod b) =
    dot R n (\<lambda>k. A (i * n + k)) (\<lambda>k. B (k * n + j))"
proof -
  have split: "x div b < N \<and> x mod b < b \<and> x div b * b + x mod b = x" if "x < n" for x
    using that n two_digits [of x N b] by blast
  have kb: "kb * b + k < n" if "kb < N" "k < b" for kb k
  proof -
    have "kb * b + k < Suc kb * b" using that(2) by simp
    also have "\<dots> \<le> N * b" using that(1) by (intro mult_right_mono) auto
    finally show ?thesis by (simp add: n)
  qed
  have row: "To_blocked n b T1 A ((i div b * N + kb) * (b * b) + i mod b * b + k) = A (i * n + (kb * b + k))"
    if "kb < N" "k < b" for kb k
  proof -
    have "(i div b * N + kb) * (b * b) + i mod b * b + k = blk N b i (kb * b + k)"
      using that by (simp add: blk_def algebra_simps)
    then show ?thesis
      using To_blocked_nth [OF n \<open>0 < b\<close>, of "blk N b i (kb * b + k)" T1 A] blk_less [of i N b "kb * b + k"] unblk_blk [of i N b "kb * b + k"]
        i kb [OF that] by (simp add: n)
  qed
  have col: "To_blocked n b T2 B ((kb * N + j div b) * (b * b) + k * b + j mod b) = B ((kb * b + k) * n + j)"
    if "kb < N" "k < b" for kb k
  proof -
    have "(kb * N + j div b) * (b * b) + k * b + j mod b = blk N b (kb * b + k) j"
      using that by (simp add: blk_def algebra_simps)
    then show ?thesis
      using To_blocked_nth [OF n \<open>0 < b\<close>, of "blk N b (kb * b + k) j" T2 B] blk_less [of "kb * b + k" N b j] unblk_blk [of "kb * b + k" N b j]
        j kb [OF that] by (simp add: n)
  qed
  have "block_elem R N b (To_blocked n b T1 A) (To_blocked n b T2 B) (i div b) (j div b) (i mod b) (j mod b) =
      for_loop N (\<lambda>kb. for_loop b (\<lambda>k c. plus_op R c
        (times_op R (A (i * n + (kb * b + k))) (B ((kb * b + k) * n + j))))) (zero_op R)"
    unfolding block_elem_def by (intro for_loop_cong) (simp add: row col)
  also have "\<dots> = dot R n (\<lambda>k. A (i * n + k)) (\<lambda>k. B (k * n + j))"
    unfolding dot_def n
    by (rule for_loop_blocks [where g = "\<lambda>k c. plus_op R c (times_op R (A (i * (N * b) + k)) (B (k * (N * b) + j)))"])
  finally show ?thesis .
qed

lemma Blocked_mat_mult_blk:
  assumes n: "n = N * b" and "0 < b" and i: "i < n" and j: "j < n"
  shows "Blocked_mat_mult R N b (To_blocked n b T1 A) (To_blocked n b T2 B) C (blk N b i j) =
    dot R n (\<lambda>k. A (i * n + k)) (\<lambda>k. B (k * n + j))"
proof -
  have ij: "i div b < N" "i mod b < b" "j div b < N" "j mod b < b"
    using two_digits [of i N b] two_digits [of j N b] i j n by auto
  have b: "blk N b i j = (i div b * N + j div b) * (b * b) + (i mod b * b + j mod b)"
    by (simp add: blk_def algebra_simps)
  have "i mod b * b + j mod b < Suc (i mod b) * b" using ij by simp
  also have "\<dots> \<le> b * b" using ij(2) by (intro mult_right_mono Suc_leI) auto
  finally have q: "blk N b i j div (b * b) = i div b * N + j div b \<and>
      blk N b i j mod (b * b) = i mod b * b + j mod b"
    unfolding b by (rule digits)
  have "blk N b i j < N * N * (b * b)"
    using blk_less [of i N b j] i j n by (simp add: algebra_simps)
  then show ?thesis
    using digits [OF ij(3), of "i div b"] digits [OF ij(4), of "i mod b"]
    by (simp add: Blocked_mat_mult_nth q block_elem_is_dot [OF n \<open>0 < b\<close> i j])
qed

text \<open>
  The blocked algorithm computes the product the standard algorithm computes: with the factors
  converted to blocked storage and the result converted back, as the debugging build does, every
  element of the result is the element \<open>Mat_mult\<close> computes.  Nothing is assumed of the arithmetic,
  so this holds for rounded addition of doubles too: for each element both add the same products in
  the same order.
\<close>

lemma blocked_product_is_standard:
  assumes "0 < b" and "n mod b = 0" and "x < n * n"
  shows "From_blocked n b T3 (Blocked_mat_mult R (n div b) b (To_blocked n b T1 A) (To_blocked n b T2 B) C) x =
    Mat_mult R n A B C' x"
proof -
  have n: "n = n div b * b" using assms(2) by auto
  let ?N = "n div b"
  have "0 < n" using assms(3) by (cases n) auto
  then have i: "x div n < n" and j: "x mod n < n"
    using assms(3) by (auto simp: less_mult_imp_div_less)
  then have ij: "x div n < ?N * b" "x mod n < ?N * b" using n by auto
  let ?c = "blk ?N b (x div n) (x mod n)"
  have x: "unblk ?N b ?c = x" using unblk_blk [OF ij] n by (metis div_mult_mod_eq)
  have "?c < n * n" using blk_less [OF ij] n by simp
  then have "From_blocked n b T3 P x = P ?c" for P :: "nat \<Rightarrow> 'a"
    using From_blocked_nth [OF n assms(1), of ?c T3 P] by (simp add: x)
  moreover have "Mat_mult R n A B C' x = dot R n (\<lambda>k. A (x div n * n + k)) (\<lambda>k. B (k * n + x mod n))"
    using Mat_mult_nth [OF i j, of R A B C'] by simp
  ultimately show ?thesis
    using Blocked_mat_mult_blk [OF n assms(1) i j, of R T1 A T2 B C] by simp
qed

subsection \<open>The conversions\<close>

text \<open>
  The conversions are inverse: when the order of the blocks divides the order of the matrix,
  the condition \<open>main\<close> checks, \<open>From_blocked\<close> gives back the row-major matrix \<open>To_blocked\<close> started
  from, whatever \<open>malloc\<close> left in the temporary arrays.
\<close>

lemma from_blocked_to_blocked:
  assumes "0 < b" and "n mod b = 0" and "x < n * n"
  shows "From_blocked n b T2 (To_blocked n b T1 A) x = A x"
proof -
  have n: "n = n div b * b" using assms(2) by auto
  let ?N = "n div b"
  have "0 < n" using assms(3) by (cases n) auto
  then have ij: "x div n < ?N * b" "x mod n < ?N * b"
    using assms(3) n by (metis less_mult_imp_div_less, metis mod_less_divisor)
  have x: "unblk ?N b (blk ?N b (x div n) (x mod n)) = x"
    using unblk_blk [OF ij] n by (metis div_mult_mod_eq)
  have "blk ?N b (x div n) (x mod n) < n * n" using blk_less [OF ij] n by simp
  then show ?thesis
    using From_blocked_nth [OF n assms(1), of _ T2 "To_blocked n b T1 A"] To_blocked_nth [OF n assms(1), of _ T1 A]
    by (metis x)
qed

end
