(* ===== verification/MatMain.thy ===== *)
theory MatMain
  imports MatMul Trace "HOL-Library.Signed_Division"
begin

section \<open>The main functions of the matrix programs\<close>

text \<open>
  \<open>matmul\<close> and \<open>blocked\<close> from the argument vector to the printed product: the arguments are read with
  \<open>strtol\<close>, the factors are filled with random numbers, and a build with \<open>DEBUG\<close> prints the product.
  The markers' addresses and the elapsed times, which are printed too, are left out.
\<close>

subsection \<open>Numbers\<close>

definition dec_digit :: "char \<Rightarrow> nat option" where
  "dec_digit c = (let k = of_char c :: nat in if 48 \<le> k \<and> k \<le> 57 then Some (k - 48) else None)"

text \<open>\<open>strtol(s, NULL, 10)\<close>: a value beyond \<open>long\<close> becomes the nearest \<open>long\<close>.\<close>

definition strtol10 :: "string \<Rightarrow> int" where
  "strtol10 s =
     (let s = dropWhile is_space s;
          neg = (s \<noteq> [] \<and> hd s = CHR ''-'');
          s = (if s \<noteq> [] \<and> (hd s = CHR ''-'' \<or> hd s = CHR ''+'') then tl s else s);
          v = fold (\<lambda>c v. 10 * v + int (the (dec_digit c))) (takeWhile (\<lambda>c. dec_digit c \<noteq> None) s) 0;
          v = (if neg then - v else v) in
      max (- (2 ^ 63)) (min (2 ^ 63 - 1) v))"

text \<open>The conversion of a \<open>long\<close> to an \<open>int\<close> keeps the low 32 bits.\<close>

definition int_of_long :: "int \<Rightarrow> int" where
  "int_of_long v = sint (word_of_int v :: 32 word)"

definition order_arg :: "string \<Rightarrow> int" where
  "order_arg s = int_of_long (strtol10 s)"

subsection \<open>The machine\<close>

text \<open>
  Calls of \<open>malloc\<close> and \<open>random\<close> are numbered: \<open>grants k m\<close> says whether call \<open>k\<close> of \<open>malloc\<close> gives \<open>m\<close>
  bytes, \<open>junk k\<close> is what the block holds, \<open>randoms k\<close> the result of call \<open>k\<close> of \<open>random\<close>, and
  \<open>fraction r\<close> is \<open>r / DRAND_MAX\<close>.
\<close>

record 'a machine =
  arith :: "'a arith"
  fraction :: "nat \<Rightarrow> 'a"
  randoms :: "nat \<Rightarrow> nat"
  marker_opens :: bool
  grants :: "nat \<Rightarrow> nat \<Rightarrow> bool"
  junk :: "nat \<Rightarrow> 'a array"

text \<open>\<open>sizeof(struct record)\<close>: a double and \<open>PAD\<close> bytes.\<close>

definition PAD :: nat where "PAD = 120"

definition RECORD_BYTES :: nat where "RECORD_BYTES = 8 + PAD"

subsection \<open>Functions of both programs\<close>

definition Get_matrices :: "'a machine \<Rightarrow> nat \<Rightarrow> 'a array \<Rightarrow> 'a array \<Rightarrow> 'a array \<times> 'a array" where
  "Get_matrices M m A B =
     for_loop m (\<lambda>i (A, B).
       (A(i := fraction M (randoms M (2 * i))), B(i := fraction M (randoms M (2 * i + 1))))) (A, B)"

text \<open>The printed rows.\<close>

definition Print_matrix :: "'a array \<Rightarrow> nat \<Rightarrow> 'a list list" where
  "Print_matrix C n = map (\<lambda>i. map (\<lambda>j. C (i * n + j)) [0..<n]) [0..<n]"

text \<open>The three arrays of \<open>n * n\<close> records; \<open>exit(-1)\<close> when one is refused.\<close>

definition alloc_matrices :: "'a machine \<Rightarrow> int \<Rightarrow> nat res" where
  "alloc_matrices M n =
     (if n * n \<ge> 2 ^ 31 then Err Signed_overflow
      else if \<forall>k < 3. grants M k (nat (n * n) * RECORD_BYTES) then Ok (nat (n * n))
      else Err (Exit 255))"

subsection \<open>matmul\<close>

text \<open>The result of a run: the printed rows and the array \<open>C\<close> as the multiplication leaves it.\<close>

definition matmul_main :: "bool \<Rightarrow> 'a machine \<Rightarrow> string list \<Rightarrow> ('a list list \<times> 'a array) res" where
  "matmul_main debug M args =
     (if \<not> marker_opens M then Err (Exit 1)
      else if length args \<noteq> 1 then Err (Exit 0)
      else
        let n = order_arg (args ! 0) in
        res_bind (alloc_matrices M n) (\<lambda>m.
          let (A, B) = Get_matrices M m (junk M 0) (junk M 1);
              C = Mat_mult (arith M) (nat n) A B (junk M 2) in
          Ok (if debug then Print_matrix C (nat n) else [], C)))"

subsection \<open>blocked\<close>

text \<open>
  \<open>Blocked_mat_mult\<close> with the globals of \<open>main\<close>.  For negative \<open>b\<close> (then \<open>n_bar\<close> is positive only
  when \<open>n\<close> is negative too) the loops of \<open>Mult_add\<close> do not run and only \<open>Zero_C\<close> is left, over blocks
  of \<open>b_sqr = b * b\<close> records.
\<close>

definition blocked_product :: "'a arith \<Rightarrow> int \<Rightarrow> int \<Rightarrow> 'a array \<Rightarrow> 'a array \<Rightarrow> 'a array \<Rightarrow> 'a array" where
  "blocked_product R n_bar b A B C =
     (if b > 0 then Blocked_mat_mult R (nat n_bar) (nat b) A B C
      else for_loop (nat n_bar) (\<lambda>i_bar. for_loop (nat n_bar) (\<lambda>j_bar C.
             snd (Zero_C R (nat n_bar) (nat (b * b)) i_bar j_bar C))) C)"

text \<open>
  The conversions run in a build with \<open>DEBUG\<close>; for a negative order they copy arrays that are not
  used any more, and nothing is printed.
\<close>

definition blocked_main :: "bool \<Rightarrow> 'a machine \<Rightarrow> string list \<Rightarrow> ('a list list \<times> 'a array) res" where
  "blocked_main debug M args =
     (if \<not> marker_opens M then Err (Exit 1)
      else if length args < 2 \<or> length args > 3 then Err (Exit 0)
      else
        let n = order_arg (args ! 0); b = order_arg (args ! 1) in
        if b = 0 then Err Division_by_zero
        else if n = - (2 ^ 31) \<and> b = - 1 then Err Signed_overflow
        else if n smod b \<noteq> 0 then Err (Exit 0)
        else
          res_bind (alloc_matrices M n) (\<lambda>m.
            if b * b \<ge> 2 ^ 31 then Err Signed_overflow
            else
              let n_bar = n sdiv b; (A, B) = Get_matrices M m (junk M 0) (junk M 1) in
              if \<not> debug then Ok ([], blocked_product (arith M) n_bar b A B (junk M 2))
              else if \<not> grants M 3 (m * RECORD_BYTES) \<or> \<not> grants M 4 (m * RECORD_BYTES) then Err (Exit 255)
              else
                let A = To_blocked (nat n) (nat b) (junk M 3) A;
                    B = To_blocked (nat n) (nat b) (junk M 4) B;
                    C = blocked_product (arith M) n_bar b A B (junk M 2) in
                if \<not> grants M 5 (m * RECORD_BYTES) then Err (Exit 255)
                else Ok (Print_matrix (From_blocked (nat n) (nat b) (junk M 5) C) (nat n), C)))"

subsection \<open>The two debug builds\<close>

lemma smod_eq_0: "n smod b = 0 \<longleftrightarrow> b dvd n" for n b :: int
proof
  assume "n smod b = 0"
  then have "n = n sdiv b * b" using sdiv_mult_smod_eq [of n b] by simp
  then show "b dvd n" by (metis dvd_triv_right)
next
  assume "b dvd n"
  then show "n smod b = 0" by (auto simp: signed_modulo_int_def)
qed

lemma sdiv_pos: "0 < b \<Longrightarrow> b dvd n \<Longrightarrow> nat (n sdiv b) = nat n div nat b" for n b :: int
proof -
  assume b: "0 < b" "b dvd n"
  then obtain k where k: "n = b * k" by auto
  then have "n sdiv b = k" using b(1) sdiv_mult_smod_eq [of n b] smod_eq_0 [of n b] by simp
  moreover have "nat n = nat b * nat k" using k b(1) by (simp add: nat_mult_distrib)
  ultimately show ?thesis using b(1) by simp
qed

lemma Print_matrix_cong:
  "(\<And>x. x < n * n \<Longrightarrow> C x = C' x) \<Longrightarrow> Print_matrix C n = Print_matrix C' n"
proof -
  assume eq: "\<And>x. x < n * n \<Longrightarrow> C x = C' x"
  have "i * n + j < n * n" if "i < n" "j < n" for i j
  proof -
    have "i * n + j < Suc i * n" using that(2) by simp
    also have "\<dots> \<le> n * n" using that(1) by (intro mult_right_mono) auto
    finally show ?thesis .
  qed
  then show ?thesis by (simp add: Print_matrix_def eq)
qed

text \<open>The factors do not depend on what fresh memory holds, and the product only on the factors.\<close>

lemma Get_matrices_at:
  "x < m \<Longrightarrow> fst (Get_matrices M m A B) x = fraction M (randoms M (2 * x)) \<and>
    snd (Get_matrices M m A B) x = fraction M (randoms M (2 * x + 1))"
  unfolding Get_matrices_def
proof (induction m)
  case (Suc m)
  then show ?case by (cases "x = m") (auto simp: for_loop_Suc case_prod_unfold)
qed simp

lemma Mat_mult_cong:
  assumes "\<And>x. x < n * n \<Longrightarrow> A x = A' x \<and> B x = B' x" and x: "x < n * n"
  shows "Mat_mult R n A B C x = Mat_mult R n A' B' C' x"
proof -
  have n: "0 < n" using x by (cases n) auto
  then have i: "x div n < n" "x mod n < n" using x by (auto simp: less_mult_imp_div_less)
  have at: "i * n + j < n * n" if "i < n" "j < n" for i j
  proof -
    have "i * n + j < Suc i * n" using that(2) by simp
    also have "\<dots> \<le> n * n" using that(1) by (intro mult_right_mono) auto
    finally show ?thesis .
  qed
  have "Mat_mult R n A B C x = dot R n (\<lambda>k. A (x div n * n + k)) (\<lambda>k. B (k * n + x mod n))"
    using Mat_mult_nth [OF i, of R A B C] by simp
  also have "\<dots> = dot R n (\<lambda>k. A' (x div n * n + k)) (\<lambda>k. B' (k * n + x mod n))"
    unfolding dot_def by (intro for_loop_cong) (simp add: assms(1) at i)
  also have "\<dots> = Mat_mult R n A' B' C' x"
    using Mat_mult_nth [OF i, of R A' B' C'] by simp
  finally show ?thesis .
qed

text \<open>
  C9. A \<open>DEBUG\<close> build of \<open>blocked\<close> prints the matrix that a \<open>DEBUG\<close> build of \<open>matmul\<close> prints.  For an
  order that \<open>n * n\<close> does not overflow and a positive order of blocks, with the same random numbers,
  \<open>blocked\<close> prints the usage and exits with 0 when the blocks do not divide the matrix, and otherwise
  the rows that \<open>matmul\<close> prints, whatever fresh memory holds and whatever the arithmetic is: both add
  the same products in the same order.  A third argument, documented as asking for the factors, is
  ignored.
\<close>

theorem blocked_prints_what_matmul_prints:
  assumes n: "order_arg sn * order_arg sn < 2 ^ 31" and b: "0 < order_arg sb" "order_arg sb * order_arg sb < 2 ^ 31"
    and M: "marker_opens M" "marker_opens M'" "\<And>k m. grants M k m" "\<And>k m. grants M' k m"
    and same: "arith M' = arith M" "fraction M' = fraction M" "randoms M' = randoms M"
    and rest: "length rest \<le> 1"
  shows "if order_arg sb dvd order_arg sn
    then \<exists>rows C C'. matmul_main True M [sn] = Ok (rows, C) \<and> blocked_main True M' (sn # sb # rest) = Ok (rows, C') \<and>
      length rows = nat (order_arg sn) \<and> (\<forall>row \<in> set rows. length row = nat (order_arg sn))
    else blocked_main True M' (sn # sb # rest) = Err (Exit 0)"
proof -
  let ?n = "order_arg sn" and ?b = "order_arg sb"
  define m where "m = nat (?n * ?n)"
  have al: "alloc_matrices M ?n = Ok m" "alloc_matrices M' ?n = Ok m"
    using n M by (simp_all add: alloc_matrices_def m_def)
  have args: "\<not> length (sn # sb # rest) < 2 \<and> \<not> length (sn # sb # rest) > 3" using rest by auto
  have b0: "?b \<noteq> 0" "?b \<noteq> - 1" using b(1) by auto
  have "?thesis" if d: "?b dvd ?n"
  proof -
    let ?N = "nat ?n" and ?A = "fst (Get_matrices M m (junk M 0) (junk M 1))"
      and ?B = "snd (Get_matrices M m (junk M 0) (junk M 1))"
      and ?A' = "fst (Get_matrices M' m (junk M' 0) (junk M' 1))"
      and ?B' = "snd (Get_matrices M' m (junk M' 0) (junk M' 1))"
    define C where "C = Mat_mult (arith M) ?N ?A ?B (junk M 2)"
    define C' where "C' = Blocked_mat_mult (arith M) (?N div nat ?b) (nat ?b)
      (To_blocked ?N (nat ?b) (junk M' 3) ?A') (To_blocked ?N (nat ?b) (junk M' 4) ?B') (junk M' 2)"
    have bN: "0 < nat ?b" "?N mod nat ?b = 0"
      using b(1) d by (auto simp: nat_mult_distrib zero_le_mult_iff)
    have le: "x < m" if "x < ?N * ?N" for x
      using that by (cases "0 \<le> ?n") (simp_all add: m_def nat_mult_distrib)
    have "From_blocked ?N (nat ?b) (junk M' 5) C' x = C x" if "x < ?N * ?N" for x
    proof -
      have "From_blocked ?N (nat ?b) (junk M' 5) C' x = Mat_mult (arith M) ?N ?A' ?B' (junk M 2) x"
        unfolding C'_def by (rule blocked_product_is_standard [OF bN that])
      also have "\<dots> = C x"
        unfolding C_def by (rule Mat_mult_cong [OF _ that]) (simp add: le Get_matrices_at same)
      finally show ?thesis .
    qed
    then have rows: "Print_matrix (From_blocked ?N (nat ?b) (junk M' 5) C') ?N = Print_matrix C ?N"
      by (rule Print_matrix_cong)
    have "matmul_main True M [sn] = Ok (Print_matrix C ?N, C)"
      using M(1) al(1) by (simp add: matmul_main_def C_def case_prod_unfold Let_def)
    moreover have "blocked_main True M' (sn # sb # rest) = Ok (Print_matrix C ?N, C')"
      using args b0 M(2,4) d smod_eq_0 [of ?n ?b] b al(2) sdiv_pos [OF b(1) d] rows unfolding C'_def
      by (simp add: blocked_main_def Let_def case_prod_unfold blocked_product_def same)
    ultimately show ?thesis using d by (auto simp: Print_matrix_def)
  qed
  moreover have ?thesis if "\<not> ?b dvd ?n"
    using that args b0 M(2) smod_eq_0 [of ?n ?b] by (simp add: blocked_main_def Let_def)
  ultimately show ?thesis by blast
qed

text \<open>The witness: order 2 and blocks of order 1, over the natural numbers.\<close>

definition nat_machine :: "nat machine" where
  "nat_machine = \<lparr>arith = \<lparr>plus_op = (+), times_op = (*), zero_op = 0\<rparr>, fraction = (\<lambda>r. r), randoms = (\<lambda>k. k),
     marker_opens = True, grants = (\<lambda>k m. True), junk = (\<lambda>k x. 9)\<rparr>"

lemma order_args: "order_arg ''2'' = 2" "order_arg ''1'' = 1"
  by (simp_all add: order_arg_def strtol10_def dec_digit_def is_space_def int_of_long_def)

theorem blocked_prints_what_matmul_prints_witness:
  "\<exists>C. blocked_main True nat_machine [''2'', ''1''] = Ok ([[10, 14], [34, 54]], C)"
proof -
  have "\<exists>rows C C'. matmul_main True nat_machine [''2''] = Ok (rows, C) \<and>
      blocked_main True nat_machine [''2'', ''1''] = Ok (rows, C')"
    using blocked_prints_what_matmul_prints [of "''2''" "''1''" nat_machine nat_machine "[]"]
    by (auto simp: order_args nat_machine_def)
  moreover have "\<exists>C. matmul_main True nat_machine [''2''] = Ok ([[10, 14], [34, 54]], C)"
    by (simp add: matmul_main_def order_args nat_machine_def alloc_matrices_def Print_matrix_def Get_matrices_def
        Mat_mult_def numeral_eq_Suc for_loop_Suc case_prod_unfold)
  ultimately show ?thesis by auto
qed

end
