(* ===== verification/TraceProgs.thy ===== *)
theory TraceProgs
  imports Prelude
begin

section \<open>The programs that are traced (traceprogs/simpleloop.c, traceprogs/fourDimArr.c)\<close>

text \<open>
  Two small programs that were run for their memory references, on a heap of blocks.  A block that was
  freed is \<open>None\<close>, so an access to it is a fault; \<open>grants k n\<close> says whether call \<open>k\<close> of \<open>malloc\<close> gives
  \<open>n\<close> bytes.  The markers' addresses, which go to a file, are left out.
\<close>

subsection \<open>The heap\<close>

datatype cell = Unset | Num int | Ptr "nat option"

record heap =
  blocks :: "cell list option list"
  calls :: nat
  out :: "int list"

type_synonym grants = "nat \<Rightarrow> 64 word \<Rightarrow> bool"

text \<open>\<open>malloc\<close> of \<open>n\<close> cells of \<open>sz\<close> bytes each.\<close>

definition malloc :: "grants \<Rightarrow> 64 word \<Rightarrow> nat \<Rightarrow> heap \<Rightarrow> nat option \<times> heap" where
  "malloc grants bytes n h =
     (let h' = h\<lparr>calls := Suc (calls h)\<rparr> in
      if grants (calls h) bytes then (Some (length (blocks h)), h'\<lparr>blocks := blocks h @ [Some (replicate n Unset)]\<rparr>)
      else (None, h'))"

definition access :: "nat option \<Rightarrow> nat \<Rightarrow> heap \<Rightarrow> (nat \<times> cell list) res" where
  "access p i h =
     (case p of None \<Rightarrow> Err Null_deref
      | Some a \<Rightarrow>
          if a \<ge> length (blocks h) then Err Out_of_bounds
          else case blocks h ! a of None \<Rightarrow> Err Use_after_free
            | Some xs \<Rightarrow> if i < length xs then Ok (a, xs) else Err Out_of_bounds)"

definition load :: "nat option \<Rightarrow> nat \<Rightarrow> heap \<Rightarrow> cell res" where
  "load p i h = res_bind (access p i h) (\<lambda>(a, xs). Ok (xs ! i))"

definition store :: "nat option \<Rightarrow> nat \<Rightarrow> cell \<Rightarrow> heap \<Rightarrow> heap res" where
  "store p i c h =
     res_bind (access p i h) (\<lambda>(a, xs). Ok (h\<lparr>blocks := (blocks h)[a := Some (xs[i := c])]\<rparr>))"

definition free_block :: "nat option \<Rightarrow> heap \<Rightarrow> heap res" where
  "free_block p h =
     (case p of None \<Rightarrow> Ok h
      | Some a \<Rightarrow>
          if a \<ge> length (blocks h) then Err Out_of_bounds
          else if blocks h ! a = None then Err Use_after_free
          else Ok (h\<lparr>blocks := (blocks h)[a := None]\<rparr>))"

text \<open>The value of \<open>p[i][j]...\<close> where each element is a pointer.\<close>

fun follow :: "nat option \<Rightarrow> nat list \<Rightarrow> heap \<Rightarrow> nat option res" where
  "follow p [] h = Ok p"
| "follow p (i # is) h =
     res_bind (load p i h) (\<lambda>c. case c of Ptr q \<Rightarrow> follow q is h | _ \<Rightarrow> Err Out_of_bounds)"

primrec for_res :: "nat \<Rightarrow> (nat \<Rightarrow> heap \<Rightarrow> heap res) \<Rightarrow> heap \<Rightarrow> heap res" where
  "for_res 0 body h = Ok h"
| "for_res (Suc n) body h = res_bind (for_res n body h) (body n)"

subsection \<open>simpleloop\<close>

text \<open>
  The products in sizes are of 64 bits, also for a negative \<open>iters\<close>.  Only the first element of each
  record is written; the double of an \<open>int\<close> is exact.
\<close>

definition RECORD_SIZE :: nat where "RECORD_SIZE = 128"

definition heap_loop :: "grants \<Rightarrow> int \<Rightarrow> heap \<Rightarrow> heap res" where
  "heap_loop grants iters h =
     (let (ptr, h) = malloc grants (word_of_int iters * word_of_nat (8 * RECORD_SIZE)) (nat iters * RECORD_SIZE) h in
      res_bind (for_res (nat iters) (\<lambda>i h. store ptr (i * RECORD_SIZE) (Num (int i)) h) h) (free_block ptr))"

text \<open>\<open>stack_loop\<close> does the same to an array on the stack, a block that is gone when it returns.\<close>

definition stack_loop :: "int \<Rightarrow> heap \<Rightarrow> heap res" where
  "stack_loop iters h =
     (if iters \<le> 0 then Err Out_of_bounds
      else
        let a = Some (length (blocks h)); h = h\<lparr>blocks := blocks h @ [Some (replicate (nat iters * RECORD_SIZE) Unset)]\<rparr> in
        res_bind (for_res (nat iters) (\<lambda>i h. store a (i * RECORD_SIZE) (Num (int i)) h) h) (free_block a))"

definition simpleloop_main :: "grants \<Rightarrow> bool \<Rightarrow> heap \<Rightarrow> heap res" where
  "simpleloop_main grants marker_opens h = (if \<not> marker_opens then Err (Exit 1) else heap_loop grants 10000 h)"

subsection \<open>fourDimArr\<close>

definition N :: nat where "N = 5"

text \<open>The four loops of \<open>init_multi_array\<close>, from the inside; a build with \<open>DEBUG\<close> prints each entry.\<close>

definition init_entry :: "bool \<Rightarrow> nat option \<Rightarrow> nat \<Rightarrow> nat \<Rightarrow> nat \<Rightarrow> nat \<Rightarrow> heap \<Rightarrow> heap res" where
  "init_entry debug arr i j k l h =
     res_bind (follow arr [i, j, k] h) (\<lambda>a.
     res_bind (store a l (Num (int (i * j * k * l))) h) (\<lambda>h.
       if debug then
         res_bind (follow arr [i, j, k] h) (\<lambda>a. res_bind (load a l h) (\<lambda>c. case c of
             Num v \<Rightarrow> Ok (h\<lparr>out := out h @ [v]\<rparr>) | _ \<Rightarrow> Err Out_of_bounds))
       else Ok h))"

definition init_k :: "grants \<Rightarrow> bool \<Rightarrow> nat option \<Rightarrow> nat \<Rightarrow> nat \<Rightarrow> nat \<Rightarrow> heap \<Rightarrow> heap res" where
  "init_k grants debug arr i j k h =
     (let (p, h) = malloc grants (word_of_nat (4 * N)) N h in
      res_bind (follow arr [i, j] h) (\<lambda>a.
      res_bind (store a k (Ptr p) h) (for_res N (init_entry debug arr i j k))))"

definition init_j :: "grants \<Rightarrow> bool \<Rightarrow> nat option \<Rightarrow> nat \<Rightarrow> nat \<Rightarrow> heap \<Rightarrow> heap res" where
  "init_j grants debug arr i j h =
     (let (p, h) = malloc grants (word_of_nat (8 * N)) N h in
      res_bind (follow arr [i] h) (\<lambda>a.
      res_bind (store a j (Ptr p) h) (for_res N (init_k grants debug arr i j))))"

definition init_i :: "grants \<Rightarrow> bool \<Rightarrow> nat option \<Rightarrow> nat \<Rightarrow> heap \<Rightarrow> heap res" where
  "init_i grants debug arr i h =
     (let (p, h) = malloc grants (word_of_nat (8 * N)) N h in
      res_bind (follow arr [] h) (\<lambda>a.
      res_bind (store a i (Ptr p) h) (for_res N (init_j grants debug arr i))))"

definition init_multi_array :: "grants \<Rightarrow> bool \<Rightarrow> heap \<Rightarrow> (nat option \<times> heap) res" where
  "init_multi_array grants debug h =
     (let (arr, h) = malloc grants (word_of_nat (8 * N)) N h in
      res_bind (for_res N (init_i grants debug arr) h) (\<lambda>h. Ok (arr, h)))"

definition fourDimArr_main :: "grants \<Rightarrow> bool \<Rightarrow> bool \<Rightarrow> heap \<Rightarrow> (nat option \<times> heap) res" where
  "fourDimArr_main grants debug marker_opens h =
     (if \<not> marker_opens then Err (Exit 1) else init_multi_array grants debug h)"

subsection \<open>Loops\<close>

lemma for_res_rule:
  assumes "P 0 h" and "\<And>i h. i < n \<Longrightarrow> P i h \<Longrightarrow> \<exists>h'. body i h = Ok h' \<and> P (Suc i) h'"
  shows "\<exists>h'. for_res n body h = Ok h' \<and> P n h'"
  using assms(2)
proof (induction n)
  case (Suc n)
  then obtain h1 where "for_res n body h = Ok h1" "P n h1" by (metis less_SucI)
  moreover from this obtain h' where "body n h1 = Ok h'" "P (Suc n) h'" using Suc.prems [of n h1] by auto
  ultimately show ?case by auto
qed (use assms(1) in simp)

text \<open>What was not written: \<open>h'\<close> is \<open>h\<close> but for the blocks of \<open>P\<close> and new ones.\<close>

definition ext :: "nat set \<Rightarrow> heap \<Rightarrow> heap \<Rightarrow> bool" where
  "ext P h h' \<longleftrightarrow> length (blocks h) \<le> length (blocks h') \<and>
     (\<forall>x < length (blocks h). x \<notin> P \<longrightarrow> blocks h' ! x = blocks h ! x)"

lemma ext_refl [simp]: "ext P h h"
  by (simp add: ext_def)

lemma ext_trans:
  assumes "ext P h h1" and "ext Q h1 h2" and "\<forall>x \<in> Q. x \<in> P \<or> length (blocks h) \<le> x"
  shows "ext P h h2"
  unfolding ext_def
proof (intro conjI allI impI)
  show "length (blocks h) \<le> length (blocks h2)" using assms(1,2) by (simp add: ext_def)
  fix x assume x: "x < length (blocks h)" "x \<notin> P"
  then have "x \<notin> Q" using assms(3) by (meson not_le)
  then show "blocks h2 ! x = blocks h ! x" using assms(1,2) x by (simp add: ext_def)
qed

definition block :: "heap \<Rightarrow> nat \<Rightarrow> cell list \<Rightarrow> bool" where
  "block h q xs \<longleftrightarrow> q < length (blocks h) \<and> blocks h ! q = Some xs"

lemma block_ext: "block h q xs \<Longrightarrow> ext P h h' \<Longrightarrow> q \<notin> P \<Longrightarrow> block h' q xs"
  by (auto simp: block_def ext_def)

lemma block_access: "block h q xs \<Longrightarrow> i < length xs \<Longrightarrow> access (Some q) i h = Ok (q, xs)"
  by (simp add: access_def block_def)

lemma block_store:
  assumes "block h q xs" and "i < length xs"
  obtains h' where "store (Some q) i c h = Ok h'" and "block h' q (xs[i := c])" and "ext {q} h h'"
    and "length (blocks h') = length (blocks h)" and "out h' = out h"
  using that [of "h\<lparr>blocks := (blocks h)[q := Some (xs[i := c])]\<rparr>"] assms block_access [OF assms]
  by (auto simp: store_def block_def ext_def)

text \<open>A loop that writes one cell per round.\<close>

lemma fill_loop:
  assumes b: "block h q xs" and n: "inj_on g {..<n}" "\<forall>i < n. g i < length xs"
    and step: "\<And>i h'. i < n \<Longrightarrow> ext {q} h h' \<Longrightarrow> (\<exists>ys. block h' q ys \<and> length ys = length xs) \<Longrightarrow>
      \<exists>h''. body i h' = Ok h'' \<and> (\<exists>h3. store (Some q) (g i) (v i) h' = Ok h3 \<and> blocks h'' = blocks h3)"
  shows "\<exists>h'. for_res n body h = Ok h' \<and> ext {q} h h' \<and>
    (\<exists>ys. block h' q ys \<and> length ys = length xs \<and> (\<forall>i < n. ys ! g i = v i))"
proof -
  let ?I = "\<lambda>m h'. ext {q} h h' \<and> (\<exists>ys. block h' q ys \<and> length ys = length xs \<and> (\<forall>i < m. ys ! g i = v i))"
  have "\<exists>h'. for_res n body h = Ok h' \<and> ?I n h'"
  proof (rule for_res_rule [where P = ?I])
    show "?I 0 h" using b by auto
    fix i h' assume i: "i < n" and I: "?I i h'"
    then obtain ys where ys: "block h' q ys" "length ys = length xs" "\<forall>j < i. ys ! g j = v j" by blast
    obtain h'' h3 where h'': "body i h' = Ok h''" "store (Some q) (g i) (v i) h' = Ok h3" "blocks h'' = blocks h3"
      using step [OF i] I ys by blast
    obtain h4 where h4: "store (Some q) (g i) (v i) h' = Ok h4" "block h4 q (ys[g i := v i])" "ext {q} h' h4"
      using block_store [OF ys(1), of "g i" "v i"] n(2) i ys(2) by auto
    then have b'': "block h'' q (ys[g i := v i])" "ext {q} h' h''" using h'' by (simp_all add: block_def ext_def)
    have "ys[g i := v i] ! g j = v j" if "j < Suc i" for j
    proof (cases "j = i")
      case False
      then have "g j \<noteq> g i" using n(1) i that by (auto dest: inj_onD)
      then show ?thesis using False that ys(3) by simp
    qed (use n(2) i ys(2) in simp)
    moreover have "ext {q} h h''" using ext_trans [OF conjunct1 [OF I] b''(2)] by simp
    ultimately have "?I (Suc i) h''" using b''(1) ys(2) by (intro conjI exI [of _ "ys[g i := v i]"]) simp_all
    then show "\<exists>h''. body i h' = Ok h'' \<and> ?I (Suc i) h''" using h''(1) by blast
  qed
  then show ?thesis .
qed

subsection \<open>simpleloop gives its memory back\<close>

lemma heap_loop_frees:
  assumes "0 \<le> iters" and "grants (calls h) (word_of_int iters * word_of_nat (8 * RECORD_SIZE))"
  shows "\<exists>h'. heap_loop grants iters h = Ok h' \<and> blocks h' = blocks h @ [None]"
proof -
  let ?q = "length (blocks h)" and ?m = "nat iters"
  define h0 where "h0 = h\<lparr>calls := Suc (calls h), blocks := blocks h @ [Some (replicate (?m * RECORD_SIZE) Unset)]\<rparr>"
  have b: "block h0 ?q (replicate (?m * RECORD_SIZE) Unset)" by (simp add: block_def h0_def)
  have "\<exists>h'. for_res ?m (\<lambda>i h. store (Some ?q) (i * RECORD_SIZE) (Num (int i)) h) h0 = Ok h' \<and> ext {?q} h0 h' \<and>
      (\<exists>ys. block h' ?q ys \<and> length ys = length (replicate (?m * RECORD_SIZE) Unset) \<and>
        (\<forall>i < ?m. ys ! (i * RECORD_SIZE) = Num (int i)))"
  proof (rule fill_loop [OF b])
    show "inj_on (\<lambda>i. i * RECORD_SIZE) {..<?m}" by (auto simp: inj_on_def RECORD_SIZE_def)
    show "\<forall>i < ?m. i * RECORD_SIZE < length (replicate (?m * RECORD_SIZE) Unset)" by (simp add: RECORD_SIZE_def)
    fix i h' assume i: "i < ?m" "\<exists>ys. block h' ?q ys \<and> length ys = length (replicate (?m * RECORD_SIZE) Unset)"
    then obtain ys where "block h' ?q ys" "i * RECORD_SIZE < length ys" by (auto simp: RECORD_SIZE_def)
    then show "\<exists>h''. store (Some ?q) (i * RECORD_SIZE) (Num (int i)) h' = Ok h'' \<and>
        (\<exists>h3. store (Some ?q) (i * RECORD_SIZE) (Num (int i)) h' = Ok h3 \<and> blocks h'' = blocks h3)"
      using block_store by blast
  qed
  then obtain h' ys where h': "for_res ?m (\<lambda>i h. store (Some ?q) (i * RECORD_SIZE) (Num (int i)) h) h0 = Ok h'"
    "ext {?q} h0 h'" "block h' ?q ys" by blast
  have len: "length (blocks h') = Suc ?q"
  proof -
    have "length (blocks k') = length (blocks k)" if "for_res m (\<lambda>i h. store p (f i) (c i) h) k = Ok k'" for m p f c k k'
      using that by (induction m arbitrary: k') (auto simp: store_def access_def split: option.splits if_splits)
    from this [OF h'(1)] show ?thesis by (simp add: h0_def)
  qed
  have "(blocks h')[?q := None] = blocks h @ [None]"
    by (rule nth_equalityI) (use h'(2) len in \<open>auto simp: ext_def h0_def nth_append nth_list_update less_Suc_eq\<close>)
  moreover have "free_block (Some ?q) h' = Ok (h'\<lparr>blocks := (blocks h')[?q := None]\<rparr>)"
    using h'(3) by (simp add: free_block_def block_def)
  moreover have "malloc grants (word_of_int iters * word_of_nat (8 * RECORD_SIZE)) (?m * RECORD_SIZE) h = (Some ?q, h0)"
    using assms(2) by (simp add: malloc_def h0_def)
  ultimately show ?thesis using h'(1) by (simp add: heap_loop_def)
qed

subsection \<open>The array that fourDimArr builds\<close>

text \<open>A tree of blocks in which every pointer leads to a later block, with the entries \<open>f\<close>.\<close>

primrec array_tree :: "nat \<Rightarrow> nat \<Rightarrow> (nat list \<Rightarrow> int) \<Rightarrow> heap \<Rightarrow> bool" where
  "array_tree 0 q f h \<longleftrightarrow> (\<exists>xs. block h q xs \<and> length xs = N \<and> (\<forall>i < N. xs ! i = Num (f [i])))"
| "array_tree (Suc d) q f h \<longleftrightarrow> (\<exists>xs. block h q xs \<and> length xs = N \<and>
     (\<forall>i < N. \<exists>b > q. xs ! i = Ptr (Some b) \<and> array_tree d b (\<lambda>is. f (i # is)) h))"

lemma array_tree_ext: "array_tree d q f h \<Longrightarrow> ext P h h' \<Longrightarrow> \<forall>x \<in> P. x < q \<Longrightarrow> array_tree d q f h'"
proof (induction d arbitrary: q f)
  case 0
  then obtain xs where xs: "block h q xs" "length xs = N" "\<forall>i < N. xs ! i = Num (f [i])" by auto
  have "q \<notin> P" using 0(3) by auto
  then have "block h' q xs" by (rule block_ext [OF xs(1) 0(2)])
  then show ?case using xs(2,3) by auto
next
  case (Suc d)
  then obtain xs where xs: "block h q xs" "length xs = N"
    "\<forall>i < N. \<exists>b > q. xs ! i = Ptr (Some b) \<and> array_tree d b (\<lambda>is. f (i # is)) h" by auto
  have "\<exists>b > q. xs ! i = Ptr (Some b) \<and> array_tree d b (\<lambda>is. f (i # is)) h'" if i: "i < N" for i
  proof -
    obtain b where b: "b > q" "xs ! i = Ptr (Some b)" "array_tree d b (\<lambda>is. f (i # is)) h" using xs(3) i by blast
    have "\<forall>x \<in> P. x < b" using Suc.prems(3) b(1) by auto
    then show ?thesis using Suc.IH [OF b(3) Suc.prems(2)] b by blast
  qed
  moreover have "block h' q xs" using block_ext [OF xs(1) Suc.prems(2)] Suc.prems(3) by auto
  ultimately show ?case using xs(2) by auto
qed

lemma array_tree_follow:
  "array_tree d q f h \<Longrightarrow> length is = d \<Longrightarrow> \<forall>i \<in> set is. i < N \<Longrightarrow> l < N \<Longrightarrow>
    \<exists>a. follow (Some q) is h = Ok a \<and> load a l h = Ok (Num (f (is @ [l])))"
proof (induction d arbitrary: q f "is")
  case 0
  then show ?case by (auto simp: load_def block_access)
next
  case (Suc d)
  then obtain i js where i: "is = i # js" "i < N" by (cases "is") auto
  obtain xs b where b: "block h q xs" "length xs = N" "xs ! i = Ptr (Some b)" "array_tree d b (\<lambda>is. f (i # is)) h"
    using Suc.prems(1) i(2) by auto
  then have "load (Some q) i h = Ok (Ptr (Some b))" using i(2) by (simp add: load_def block_access)
  then show ?case using Suc.IH [OF b(4), of js] Suc.prems i by auto
qed

text \<open>A path to a block, through earlier blocks.\<close>

fun chain :: "heap \<Rightarrow> nat \<Rightarrow> nat list \<Rightarrow> nat \<Rightarrow> bool" where
  "chain h a [] q \<longleftrightarrow> a = q"
| "chain h a (i # is) q \<longleftrightarrow> (\<exists>xs b. block h a xs \<and> i < length xs \<and> xs ! i = Ptr (Some b) \<and> a < b \<and> chain h b is q)"

lemma chain_le: "chain h a is q \<Longrightarrow> a \<le> q"
  by (induction h a "is" q rule: chain.induct) force+

lemma chain_follow: "chain h a is q \<Longrightarrow> follow (Some a) is h = Ok (Some q)"
  by (induction h a "is" q rule: chain.induct) (auto simp: load_def block_access)

lemma chain_ext: "chain h a is q \<Longrightarrow> ext P h h' \<Longrightarrow> \<forall>x \<in> P. q \<le> x \<Longrightarrow> chain h' a is q"
proof (induction h a "is" q rule: chain.induct)
  case (2 h a i "is" q)
  then obtain xs b where b: "block h a xs" "i < length xs" "xs ! i = Ptr (Some b)" "a < b" "chain h b is q" by auto
  have "a \<notin> P" using chain_le [OF b(5)] b(4) 2(4) by force
  then have "block h' a xs" using block_ext b(1) 2(3) by blast
  then show ?case using 2(1) [OF b(5) 2(3,4)] b by auto
qed simp

lemma chain_snoc: "chain h a is q \<Longrightarrow> block h q xs \<Longrightarrow> i < length xs \<Longrightarrow> xs ! i = Ptr (Some m) \<Longrightarrow> q < m \<Longrightarrow>
    chain h a (is @ [i]) m"
  by (induction h a "is" q rule: chain.induct) auto

text \<open>
  The loops that allocate: when what \<open>inner\<close> does below each new block is right, so is the whole.  The
  predicate \<open>fills\<close> is what each of the four loops does to a fresh block.
\<close>

definition fills :: "nat \<Rightarrow> nat list \<Rightarrow> (nat list \<Rightarrow> int) \<Rightarrow> nat \<Rightarrow> (nat \<Rightarrow> heap \<Rightarrow> heap res) \<Rightarrow> bool" where
  "fills a path f d body \<longleftrightarrow> (\<forall>h q. chain h a path q \<and> block h q (replicate N Unset) \<longrightarrow>
     (\<exists>h'. for_res N body h = Ok h' \<and> ext {q} h h' \<and> array_tree d q f h'))"

lemma fills_level:
  assumes inner: "\<And>i. i < N \<Longrightarrow> fills a (path @ [i]) (\<lambda>is. f (i # is)) d (inner i)" and gr: "\<And>k b. grants k b"
  shows "fills a path f (Suc d) (\<lambda>i h. let (p, h) = malloc grants bytes N h in
    res_bind (follow (Some a) path h) (\<lambda>x. res_bind (store x i (Ptr p) h) (for_res N (inner i))))"
  (is "fills a path f (Suc d) ?body")
  unfolding fills_def
proof (intro allI impI, elim conjE)
  fix h q assume c: "chain h a path q" and b: "block h q (replicate N Unset)"
  let ?I = "\<lambda>m h'. ext {q} h h' \<and> (\<exists>xs. block h' q xs \<and> length xs = N \<and>
    (\<forall>i < m. \<exists>b > q. xs ! i = Ptr (Some b) \<and> array_tree d b (\<lambda>is. f (i # is)) h'))"
  have "\<exists>h'. for_res N ?body h = Ok h' \<and> ?I N h'"
  proof (rule for_res_rule [where P = ?I])
    show "?I 0 h" using b by auto
    fix i h' assume i: "i < N" and "?I i h'"
    then obtain xs where I: "ext {q} h h'" "block h' q xs" "length xs = N"
      "\<forall>j < i. \<exists>b > q. xs ! j = Ptr (Some b) \<and> array_tree d b (\<lambda>is. f (j # is)) h'" by blast
    let ?m = "length (blocks h')"
    define h1 where "h1 = h'\<lparr>calls := Suc (calls h'), blocks := blocks h' @ [Some (replicate N Unset)]\<rparr>"
    have m: "malloc grants bytes N h' = (Some ?m, h1)" using gr by (simp add: malloc_def h1_def)
    have e1: "ext {} h' h1" "block h1 ?m (replicate N Unset)" by (simp_all add: ext_def block_def h1_def nth_append)
    have c1: "chain h1 a path q" using chain_ext [OF chain_ext [OF c I(1)] e1(1)] by simp
    have q1: "block h1 q xs" "q < ?m" using block_ext [OF I(2) e1(1)] I(2) by (simp_all add: block_def)
    obtain h2 where h2: "store (Some q) i (Ptr (Some ?m)) h1 = Ok h2" "block h2 q (xs[i := Ptr (Some ?m)])" "ext {q} h1 h2"
      using block_store [OF q1(1), of i] i I(3) by auto
    have c2: "chain h2 a (path @ [i]) ?m"
      using chain_snoc [OF chain_ext [OF c1 h2(3)] h2(2)] i I(3) q1(2) by simp
    have "block h2 ?m (replicate N Unset)" using block_ext [OF e1(2) h2(3)] q1(2) by simp
    then obtain h3 where h3: "for_res N (inner i) h2 = Ok h3" "ext {?m} h2 h3" "array_tree d ?m (\<lambda>is. f (i # is)) h3"
      using inner [OF i] c2 unfolding fills_def by blast
    have e2: "ext {q} h' h2" using ext_trans [OF _ h2(3), of "{q}" h'] e1(1) by (auto simp: ext_def)
    have e3: "ext {q} h' h3" by (rule ext_trans [OF e2 h3(2)]) simp
    have "block h3 q (xs[i := Ptr (Some ?m)])" using block_ext [OF h2(2) h3(2)] q1(2) by simp
    moreover have "\<exists>b > q. xs[i := Ptr (Some ?m)] ! j = Ptr (Some b) \<and> array_tree d b (\<lambda>is. f (j # is)) h3" if j: "j < Suc i" for j
    proof (cases "j = i")
      case True
      then show ?thesis using h3(3) q1(2) i I(3) by simp
    next
      case False
      then obtain b where b: "b > q" "xs ! j = Ptr (Some b)" "array_tree d b (\<lambda>is. f (j # is)) h'"
        using I(4) j less_antisym by blast
      then show ?thesis using array_tree_ext [OF b(3) e3] False by simp
    qed
    ultimately have "?I (Suc i) h3" using ext_trans [OF I(1) e3] I(3) by (intro conjI exI [of _ "xs[i := Ptr (Some ?m)]"]) auto
    then show "\<exists>h''. ?body i h' = Ok h'' \<and> ?I (Suc i) h''" using m chain_follow [OF c1] h2(1) h3(1) by auto
  qed
  then obtain h' where "for_res N ?body h = Ok h'" "?I N h'" by blast
  then show "\<exists>h'. for_res N ?body h = Ok h' \<and> ext {q} h h' \<and> array_tree (Suc d) q f h'" by auto
qed

lemma fills_entries: "fills a [i, j, k] (\<lambda>is. int (i * j * k * hd is)) 0 (init_entry debug (Some a) i j k)"
  unfolding fills_def
proof (intro allI impI, elim conjE)
  fix h q assume c: "chain h a [i, j, k] q" and b: "block h q (replicate N Unset)"
  have "\<exists>h'. for_res N (init_entry debug (Some a) i j k) h = Ok h' \<and> ext {q} h h' \<and>
      (\<exists>ys. block h' q ys \<and> length ys = length (replicate N Unset) \<and> (\<forall>l < N. ys ! l = Num (int (i * j * k * l))))"
  proof (rule fill_loop [OF b, where g = "\<lambda>l. l" and v = "\<lambda>l. Num (int (i * j * k * l))"])
    fix l h' assume l: "l < N" "ext {q} h h'" "\<exists>ys. block h' q ys \<and> length ys = length (replicate N Unset)"
    then obtain ys where ys: "block h' q ys" "length ys = N" by auto
    obtain h3 where h3: "store (Some q) l (Num (int (i * j * k * l))) h' = Ok h3"
      "block h3 q (ys[l := Num (int (i * j * k * l))])" "ext {q} h' h3"
      using block_store [OF ys(1), of l] l(1) ys(2) by auto
    have c1: "chain h' a [i, j, k] q" by (rule chain_ext [OF c l(2)]) simp
    have c2: "chain h3 a [i, j, k] q" by (rule chain_ext [OF c1 h3(3)]) simp
    have "load (Some q) l h3 = Ok (Num (int (i * j * k * l)))"
      using l(1) ys(2) h3(2) by (simp add: load_def block_access)
    then show "\<exists>h''. init_entry debug (Some a) i j k l h' = Ok h'' \<and>
        (\<exists>h3. store (Some q) l (Num (int (i * j * k * l))) h' = Ok h3 \<and> blocks h'' = blocks h3)"
      using h3(1) chain_follow [OF c1] chain_follow [OF c2] by (auto simp: init_entry_def simp del: follow.simps)
  qed auto
  then show "\<exists>h'. for_res N (init_entry debug (Some a) i j k) h = Ok h' \<and> ext {q} h h' \<and>
      array_tree 0 q (\<lambda>is. int (i * j * k * hd is)) h'"
    by auto
qed

text \<open>The product of the indexes, as the four loops reach it.\<close>

lemma init_multi_array_entries:
  assumes "\<And>k b. grants k b"
  shows "\<exists>a h'. init_multi_array grants debug h = Ok (Some a, h') \<and>
    (\<forall>i < N. \<forall>j < N. \<forall>k < N. \<forall>l < N.
       res_bind (follow (Some a) [i, j, k] h') (\<lambda>p. load p l h') = Ok (Num (int (i * j * k * l))))"
proof -
  let ?a = "length (blocks h)"
  define f :: "nat list \<Rightarrow> int" where "f = (\<lambda>is. int (is ! 0 * is ! 1 * is ! 2 * is ! 3))"
  have "fills ?a [] f 3 (init_i grants debug (Some ?a))"
  proof -
    have e: "fills ?a [i, j, k] (\<lambda>is. f (i # j # k # is)) 0 (init_entry debug (Some ?a) i j k)" for i j k
    proof -
      have "array_tree 0 q (\<lambda>is. f (i # j # k # is)) h = array_tree 0 q (\<lambda>is. int (i * j * k * hd is)) h" for q h
        by (simp add: f_def)
      then show ?thesis using fills_entries [of ?a i j k debug] unfolding fills_def by blast
    qed
    have k: "fills ?a [i, j] (\<lambda>is. f (i # j # is)) (Suc 0) (init_k grants debug (Some ?a) i j)" for i j
      using fills_level [where path = "[i, j]" and f = "\<lambda>is. f (i # j # is)" and d = 0 and a = ?a and
          inner = "init_entry debug (Some ?a) i j" and bytes = "word_of_nat (4 * N)", OF _ assms] e
      by (simp add: init_k_def [abs_def])
    have j: "fills ?a [i] (\<lambda>is. f (i # is)) (Suc (Suc 0)) (init_j grants debug (Some ?a) i)" for i
      using fills_level [where path = "[i]" and f = "\<lambda>is. f (i # is)" and d = "Suc 0" and a = ?a and
          inner = "init_k grants debug (Some ?a) i" and bytes = "word_of_nat (8 * N)", OF _ assms] k
      by (simp add: init_j_def [abs_def])
    show ?thesis
      using fills_level [where path = "[]" and f = f and d = "Suc (Suc 0)" and a = ?a and
          inner = "init_j grants debug (Some ?a)" and bytes = "word_of_nat (8 * N)", OF _ assms] j
      by (simp add: init_i_def [abs_def] numeral_3_eq_3)
  qed
  moreover define h0 where "h0 = h\<lparr>calls := Suc (calls h), blocks := blocks h @ [Some (replicate N Unset)]\<rparr>"
  then have "block h0 ?a (replicate N Unset)" "chain h0 ?a [] ?a" by (simp_all add: block_def)
  ultimately obtain h' where h': "for_res N (init_i grants debug (Some ?a)) h0 = Ok h'" "array_tree 3 ?a f h'"
    unfolding fills_def by blast
  have "malloc grants (word_of_nat (8 * N)) N h = (Some ?a, h0)" using assms by (simp add: malloc_def h0_def)
  then have "init_multi_array grants debug h = Ok (Some ?a, h')" using h'(1) by (simp add: init_multi_array_def)
  moreover have "res_bind (follow (Some ?a) [i, j, k] h') (\<lambda>p. load p l h') = Ok (Num (int (i * j * k * l)))"
    if "i < N" "j < N" "k < N" "l < N" for i j k l
    using array_tree_follow [OF h'(2), of "[i, j, k]" l] that by (auto simp: f_def simp del: follow.simps)
  ultimately show ?thesis by blast
qed

end
