(* ===== verification/Ext2Disk.thy ===== *)
theory Ext2Disk
  imports Prelude
begin

section \<open>The disk image and C strings (Assignment3/ext2.h, helper.c)\<close>

text \<open>
  The image is 128 KiB of byte memory, mapped at address 0 of the model (the real mapping is page
  aligned, so offsets within a block agree); an access outside it is the fault \<open>Out_of_bounds\<close>.
  Fields of the on-disk structures are read as natural numbers of their width, and writing a field
  truncates to its width.  The state of a program is the image and the two global arrays of
  \<open>helper.c\<close>.  A C string is the list of its bytes without the final zero.
\<close>

named_theorems fs_simps \<open>evaluation of disk accesses\<close>

subsection \<open>State\<close>

definition EXT2_BLOCK_SIZE :: nat where "EXT2_BLOCK_SIZE = 1024"
definition DISK_SIZE :: nat where "DISK_SIZE = 128 * 1024"

type_synonym cstr = "byte list"

text \<open>
  \<open>dirs\<close> holds the \<open>dirsin\<close> block numbers entered in the array of 128, \<open>inum\<close> the \<open>inumc\<close> numbers
  entered in the array of 32.
\<close>

record fs =
  disk :: mem
  dirs :: "nat list"
  inum :: "nat list"

definition ld :: "nat \<Rightarrow> nat \<Rightarrow> fs \<Rightarrow> nat res" where
  "ld n a s = (if a + n \<le> DISK_SIZE then Ok (rd n (disk s) a) else Err Out_of_bounds)"

definition st :: "nat \<Rightarrow> nat \<Rightarrow> nat \<Rightarrow> fs \<Rightarrow> fs res" where
  "st n a v s =
     (if a + n \<le> DISK_SIZE then Ok (s\<lparr>disk := wr n a v (disk s)\<rparr>) else Err Out_of_bounds)"

definition ld_byte :: "nat \<Rightarrow> fs \<Rightarrow> byte res" where
  "ld_byte a s = (if a < DISK_SIZE then Ok (disk s a) else Err Out_of_bounds)"

definition st_byte :: "nat \<Rightarrow> byte \<Rightarrow> fs \<Rightarrow> fs res" where
  "st_byte a b s = (if a < DISK_SIZE then Ok (s\<lparr>disk := (disk s)(a := b)\<rparr>) else Err Out_of_bounds)"

subsection \<open>Structures\<close>

text \<open>\<open>disk + b * EXT2_BLOCK_SIZE\<close>, a product of 32-bit numbers; the same for a pointer minus one.\<close>

definition block_addr :: "nat \<Rightarrow> nat" where
  "block_addr b = b * EXT2_BLOCK_SIZE mod 2 ^ 32"

definition pred32 :: "nat \<Rightarrow> nat" where
  "pred32 i = (i + (2 ^ 32 - 1)) mod 2 ^ 32"

text \<open>The super block at 1024 and the group descriptor at 2048.\<close>

definition SB :: nat where "SB = 1024"
definition BGD :: nat where "BGD = 2048"

definition s_inodes_count :: "fs \<Rightarrow> nat res" where "s_inodes_count = ld 4 SB"
definition s_blocks_count :: "fs \<Rightarrow> nat res" where "s_blocks_count = ld 4 (SB + 4)"
definition bg_block_bitmap :: "fs \<Rightarrow> nat res" where "bg_block_bitmap = ld 4 BGD"
definition bg_inode_bitmap :: "fs \<Rightarrow> nat res" where "bg_inode_bitmap = ld 4 (BGD + 4)"
definition bg_inode_table :: "fs \<Rightarrow> nat res" where "bg_inode_table = ld 4 (BGD + 8)"

text \<open>The offsets of \<open>bg_free_blocks_count\<close> and \<open>bg_free_inodes_count\<close>, 16-bit fields.\<close>

definition bg_free_blocks_count :: nat where "bg_free_blocks_count = BGD + 12"
definition bg_free_inodes_count :: nat where "bg_free_inodes_count = BGD + 14"

text \<open>\<open>struct ext2_inode\<close>: its size and the offsets of the fields in use.\<close>

definition INODE_SIZE :: nat where "INODE_SIZE = 128"
definition i_mode :: nat where "i_mode = 0"
definition i_size :: nat where "i_size = 4"
definition i_dtime :: nat where "i_dtime = 20"
definition i_links_count :: nat where "i_links_count = 26"
definition i_blocks :: nat where "i_blocks = 28"
definition i_block :: "nat \<Rightarrow> nat" where "i_block k = 40 + 4 * k"

lemmas inode_fields = INODE_SIZE_def i_mode_def i_size_def i_dtime_def i_links_count_def
  i_blocks_def i_block_def

text \<open>\<open>struct ext2_dir_entry_2\<close>: \<open>inode\<close> at 0, \<open>rec_len\<close> at 4, \<open>name_len\<close> at 6, \<open>file_type\<close> at 7,
  the name from 8.\<close>

definition de_inode :: "nat \<Rightarrow> fs \<Rightarrow> nat res" where "de_inode p = ld 4 p"
definition de_rec_len :: "nat \<Rightarrow> fs \<Rightarrow> nat res" where "de_rec_len p = ld 2 (p + 4)"
definition de_name_len :: "nat \<Rightarrow> fs \<Rightarrow> nat res" where "de_name_len p = ld 1 (p + 6)"
definition de_file_type :: "nat \<Rightarrow> fs \<Rightarrow> nat res" where "de_file_type p = ld 1 (p + 7)"
definition de_name :: "nat \<Rightarrow> nat" where "de_name p = p + 8"

lemmas de_loads = de_inode_def de_rec_len_def de_name_len_def de_file_type_def

definition EXT2_ROOT_INO :: nat where "EXT2_ROOT_INO = 2"
definition EXT2_NAME_LEN :: nat where "EXT2_NAME_LEN = 255"
definition EXT2_FT_REG_FILE :: nat where "EXT2_FT_REG_FILE = 1"
definition EXT2_FT_DIR :: nat where "EXT2_FT_DIR = 2"
definition EXT2_FT_SYMLINK :: nat where "EXT2_FT_SYMLINK = 7"
definition EXT2_S_IFLNK :: nat where "EXT2_S_IFLNK = 40960"
definition EXT2_S_IFREG :: nat where "EXT2_S_IFREG = 32768"
definition EXT2_S_IFDIR :: nat where "EXT2_S_IFDIR = 16384"

lemmas ext2_modes = EXT2_S_IFLNK_def EXT2_S_IFREG_def EXT2_S_IFDIR_def
lemmas ext2_types = EXT2_FT_REG_FILE_def EXT2_FT_DIR_def EXT2_FT_SYMLINK_def

text \<open>The macros \<open>S_ISDIR\<close>, \<open>S_ISREG\<close> and \<open>S_ISLNK\<close>: the top four bits of the mode.\<close>

definition S_ISDIR :: "nat \<Rightarrow> bool" where "S_ISDIR m \<longleftrightarrow> m div 4096 mod 16 = 4"
definition S_ISREG :: "nat \<Rightarrow> bool" where "S_ISREG m \<longleftrightarrow> m div 4096 mod 16 = 8"
definition S_ISLNK :: "nat \<Rightarrow> bool" where "S_ISLNK m \<longleftrightarrow> m div 4096 mod 16 = 10"

lemma modes_exclusive [simp]:
  "S_ISDIR EXT2_S_IFDIR" "\<not> S_ISREG EXT2_S_IFDIR" "\<not> S_ISLNK EXT2_S_IFDIR"
  "S_ISREG EXT2_S_IFREG" "\<not> S_ISDIR EXT2_S_IFREG" "\<not> S_ISLNK EXT2_S_IFREG"
  "S_ISLNK EXT2_S_IFLNK" "\<not> S_ISDIR EXT2_S_IFLNK" "\<not> S_ISREG EXT2_S_IFLNK"
  by (simp_all add: S_ISDIR_def S_ISREG_def S_ISLNK_def ext2_modes)

subsection \<open>C strings against the disk\<close>

text \<open>\<open>strcmp(p, t) == 0\<close> for a string \<open>p\<close> on the disk: stops at the first difference.\<close>

fun strcmp_eq :: "cstr \<Rightarrow> nat \<Rightarrow> fs \<Rightarrow> bool res" where
  "strcmp_eq [] a s = res_bind (ld_byte a s) (\<lambda>c. Ok (c = 0))"
| "strcmp_eq (t # ts) a s =
     res_bind (ld_byte a s) (\<lambda>c. if c \<noteq> t then Ok False else strcmp_eq ts (Suc a) s)"

text \<open>\<open>strncmp(t, p, n) == 0\<close>: at most \<open>n\<close> bytes, and not past the end of both strings.\<close>

fun strncmp_eq :: "cstr \<Rightarrow> nat \<Rightarrow> nat \<Rightarrow> fs \<Rightarrow> bool res" where
  "strncmp_eq ts a 0 s = Ok True"
| "strncmp_eq [] a (Suc n) s = res_bind (ld_byte a s) (\<lambda>c. Ok (c = 0))"
| "strncmp_eq (t # ts) a (Suc n) s =
     res_bind (ld_byte a s) (\<lambda>c. if c \<noteq> t then Ok False else strncmp_eq ts (Suc a) n s)"

text \<open>\<open>strcpy\<close> to the disk, with the final zero.\<close>

definition strcpy_to :: "nat \<Rightarrow> cstr \<Rightarrow> fs \<Rightarrow> fs res" where
  "strcpy_to a t s =
     (if a + length t + 1 \<le> DISK_SIZE then Ok (s\<lparr>disk := blit (t @ [0]) a (disk s)\<rparr>)
      else Err Out_of_bounds)"

text \<open>The test of \<open>helper.c\<close> whether an entry has a name: bytes first, then the length.\<close>

definition has_name :: "cstr \<Rightarrow> nat \<Rightarrow> fs \<Rightarrow> bool res" where
  "has_name t p s =
     res_bind (de_name_len p s) (\<lambda>n.
     res_bind (strncmp_eq t (de_name p) n s) (\<lambda>b.
       Ok (b \<and> length t = n)))"

subsection \<open>Laws\<close>

lemma ld_Ok [fs_simps]: "a + n \<le> DISK_SIZE \<Longrightarrow> ld n a s = Ok (rd n (disk s) a)"
  by (simp add: ld_def)

lemma st_Ok [fs_simps]: "a + n \<le> DISK_SIZE \<Longrightarrow> st n a v s = Ok (s\<lparr>disk := wr n a v (disk s)\<rparr>)"
  by (simp add: st_def)

lemma ld_byte_Ok [fs_simps]: "a < DISK_SIZE \<Longrightarrow> ld_byte a s = Ok (disk s a)"
  by (simp add: ld_byte_def)

lemma st_byte_Ok [fs_simps]: "a < DISK_SIZE \<Longrightarrow> st_byte a b s = Ok (s\<lparr>disk := (disk s)(a := b)\<rparr>)"
  by (simp add: st_byte_def)

lemma strcpy_to_Ok [fs_simps]:
  "a + length t + 1 \<le> DISK_SIZE \<Longrightarrow> strcpy_to a t s = Ok (s\<lparr>disk := blit (t @ [0]) a (disk s)\<rparr>)"
  by (simp add: strcpy_to_def)

lemma block_addr_small: "b \<le> 128 \<Longrightarrow> block_addr b = 1024 * b"
  by (simp add: block_addr_def EXT2_BLOCK_SIZE_def)

lemma pred32_pos: "0 < i \<Longrightarrow> i < 2 ^ 32 \<Longrightarrow> pred32 i = i - 1"
proof -
  assume "0 < i" "i < 2 ^ 32"
  then have "i + (2 ^ 32 - 1) = (i - 1) + 2 ^ 32" "i - 1 < 2 ^ 32" by auto
  then show ?thesis unfolding pred32_def by (metis mod_add_self2 mod_less)
qed

lemma bytes_at_Cons: "bytes_at (Suc n) m a = m a # bytes_at n m (Suc a)"
  by (simp add: bytes_at_def upt_conv_Cons map_Suc_upt [symmetric] del: upt_Suc)

lemma bytes_at_0 [simp]: "bytes_at 0 m a = []"
  by (simp add: bytes_at_def)

lemma bytes_at_cong: "(\<And>x. a \<le> x \<Longrightarrow> x < a + n \<Longrightarrow> m x = m' x) \<Longrightarrow> bytes_at n m a = bytes_at n m' a"
  by (simp add: bytes_at_def)

lemma strcmp_eq_spec:
  "a + length t < DISK_SIZE \<Longrightarrow> 0 \<notin> set t \<Longrightarrow>
    strcmp_eq t a s = Ok (bytes_at (length t + 1) (disk s) a = t @ [0])"
  by (induction t a s rule: strcmp_eq.induct) (auto simp: fs_simps bytes_at_Cons)

text \<open>For a string without zeros and of the entry's length, the test compares the whole names.\<close>

lemma strncmp_eq_spec:
  "a + n \<le> DISK_SIZE \<Longrightarrow> length t = n \<Longrightarrow> 0 \<notin> set t \<Longrightarrow>
    strncmp_eq t a n s = Ok (bytes_at n (disk s) a = t)"
  by (induction t a n s rule: strncmp_eq.induct) (auto simp: fs_simps bytes_at_Cons)

lemma strncmp_eq_Ok: "a + n \<le> DISK_SIZE \<Longrightarrow> \<exists>b. strncmp_eq t a n s = Ok b"
  by (induction t a n s rule: strncmp_eq.induct) (auto simp: fs_simps)

text \<open>The fields of the entry at \<open>p\<close>.\<close>

definition inode_at :: "mem \<Rightarrow> nat \<Rightarrow> nat" where "inode_at m p = rd 4 m p"
definition rec_len_at :: "mem \<Rightarrow> nat \<Rightarrow> nat" where "rec_len_at m p = rd 2 m (p + 4)"
definition name_len_at :: "mem \<Rightarrow> nat \<Rightarrow> nat" where "name_len_at m p = rd 1 m (p + 6)"
definition file_type_at :: "mem \<Rightarrow> nat \<Rightarrow> nat" where "file_type_at m p = rd 1 m (p + 7)"

lemmas entry_fields = inode_at_def rec_len_at_def name_len_at_def file_type_at_def

lemma entry_loads [fs_simps]:
  "p + 4 \<le> DISK_SIZE \<Longrightarrow> de_inode p s = Ok (inode_at (disk s) p)"
  "p + 6 \<le> DISK_SIZE \<Longrightarrow> de_rec_len p s = Ok (rec_len_at (disk s) p)"
  "p + 7 \<le> DISK_SIZE \<Longrightarrow> de_name_len p s = Ok (name_len_at (disk s) p)"
  "p + 8 \<le> DISK_SIZE \<Longrightarrow> de_file_type p s = Ok (file_type_at (disk s) p)"
  by (simp_all add: de_loads fs_simps entry_fields del: One_nat_def)

lemma entry_fields_cong:
  "(\<And>x. p \<le> x \<Longrightarrow> x < p + 8 \<Longrightarrow> m' x = m x) \<Longrightarrow>
    inode_at m' p = inode_at m p \<and> rec_len_at m' p = rec_len_at m p \<and>
    name_len_at m' p = name_len_at m p \<and> file_type_at m' p = file_type_at m p"
  unfolding entry_fields by (intro conjI rd_cong) auto

definition entry_name :: "mem \<Rightarrow> nat \<Rightarrow> cstr" where
  "entry_name m p = bytes_at (name_len_at m p) m (p + 8)"

lemma length_entry_name [simp]: "length (entry_name m p) = name_len_at m p"
  by (simp add: entry_name_def)

lemma entry_name_cong:
  assumes "\<And>x. p \<le> x \<Longrightarrow> x < p + 8 + name_len_at m p \<Longrightarrow> m' x = m x"
  shows "entry_name m' p = entry_name m p"
proof -
  have "name_len_at m' p = name_len_at m p"
    using entry_fields_cong [of p m' m] assms by simp
  then show ?thesis
    unfolding entry_name_def by (auto intro!: bytes_at_cong assms)
qed

lemma has_name_spec:
  assumes "p + 8 + name_len_at (disk s) p \<le> DISK_SIZE" and "0 \<notin> set t"
  shows "has_name t p s = Ok (entry_name (disk s) p = t)"
proof (cases "length t = name_len_at (disk s) p")
  case True
  then have "strncmp_eq t (p + 8) (name_len_at (disk s) p) s = Ok (entry_name (disk s) p = t)"
    using strncmp_eq_spec [of "p + 8" "name_len_at (disk s) p" t s] assms
    by (simp add: entry_name_def)
  then show ?thesis
    using assms True by (simp add: has_name_def de_name_def fs_simps)
next
  case False
  obtain b where "strncmp_eq t (p + 8) (name_len_at (disk s) p) s = Ok b"
    using strncmp_eq_Ok [of "p + 8" "name_len_at (disk s) p" t s] assms(1) by auto
  then show ?thesis
    using assms False length_entry_name [of "disk s" p]
    by (auto simp: has_name_def de_name_def fs_simps simp del: length_entry_name)
qed

end
