(* ===== verification/Ext2Path.thy ===== *)
theory Ext2Path
  imports Ext2Disk
begin

section \<open>Paths (Assignment3/str_helper.c)\<close>

text \<open>
  The string functions on paths.  \<open>strtok (s, "/")\<close> is a function from the rest of the string to a
  token and the new rest; what the C library hides between calls is that rest.
\<close>

definition slash :: byte where "slash = 47"

definition strtok :: "cstr \<Rightarrow> (cstr \<times> cstr) option" where
  "strtok rest =
     (let r = dropWhile (\<lambda>c. c = slash) rest in
      if r = [] then None
      else Some (takeWhile (\<lambda>c. c \<noteq> slash) r, drop 1 (dropWhile (\<lambda>c. c \<noteq> slash) r)))"

lemma strtok_shorter: "strtok s = Some (t, r) \<Longrightarrow> length r < length s"
proof -
  assume "strtok s = Some (t, r)"
  then have ne: "dropWhile (\<lambda>c. c = slash) s \<noteq> []"
    and r: "r = drop 1 (dropWhile (\<lambda>c. c \<noteq> slash) (dropWhile (\<lambda>c. c = slash) s))"
    by (auto simp: strtok_def Let_def split: if_splits)
  let ?d = "dropWhile (\<lambda>c. c = slash) s"
  have "hd ?d \<noteq> slash" using hd_dropWhile [OF ne] by simp
  then have "dropWhile (\<lambda>c. c \<noteq> slash) ?d = dropWhile (\<lambda>c. c \<noteq> slash) (tl ?d)"
    using ne by (cases ?d) auto
  then have "length r \<le> length (tl ?d)"
    using length_dropWhile_le [of "\<lambda>c. c \<noteq> slash" "tl ?d"] by (simp add: r)
  moreover have "length ?d \<le> length s" by (rule length_dropWhile_le)
  ultimately show ?thesis using ne by (cases ?d) auto
qed

text \<open>All tokens: the loops \<open>cur = strtok (copy, "/")\<close>, \<open>cur = strtok (NULL, "/")\<close> until \<open>NULL\<close>.\<close>

function tokens :: "cstr \<Rightarrow> cstr list" where
  "tokens s = (case strtok s of None \<Rightarrow> [] | Some (t, r) \<Rightarrow> t # tokens r)"
  by pat_completeness auto
termination
  by (relation "measure length") (auto simp: strtok_shorter)

declare tokens.simps [simp del]

text \<open>\<open>malloc_ok\<close>: whether \<open>malloc\<close> gives the memory for the copy of the path.\<close>

definition count_item_in_path :: "bool \<Rightarrow> cstr \<Rightarrow> nat res" where
  "count_item_in_path malloc_ok path = (if \<not> malloc_ok then Err (Exit 1) else Ok (length (tokens path)))"

text \<open>\<open>*strrchr (s, '/') = 0\<close>, when there is one.\<close>

definition cut_last :: "cstr \<Rightarrow> cstr" where
  "cut_last s =
     (if slash \<in> set s then rev (drop 1 (dropWhile (\<lambda>c. c \<noteq> slash) (rev s))) else s)"

definition get_parent_path :: "bool \<Rightarrow> nat \<Rightarrow> cstr \<Rightarrow> cstr res" where
  "get_parent_path malloc_ok count path =
     (if \<not> malloc_ok then Err (Exit 1)
      else if count = 1 then
        (if path = [] then Err Out_of_bounds else Ok [slash])
      else
        let copy = path;
            copy = (if length copy \<ge> 1 then (if last copy = slash then butlast copy else copy) else copy) in
        Ok (cut_last copy))"

text \<open>\<open>arr_names\<close>: each token is copied to 255 bytes, \<open>count\<close> of them to an array.\<close>

definition arr_names :: "bool \<Rightarrow> nat \<Rightarrow> cstr \<Rightarrow> cstr list res" where
  "arr_names malloc_ok count path =
     (if \<not> malloc_ok then Err (Exit 1)
      else let names = tokens path in
        if length names > count \<or> (\<exists>t \<in> set names. length t + 1 > EXT2_NAME_LEN) then Err Out_of_bounds
        else Ok names)"

text \<open>\<open>names[i]\<close>, and \<open>basename\<close> of the C library.\<close>

definition name_at :: "cstr list \<Rightarrow> nat \<Rightarrow> cstr res" where
  "name_at names i = (if i < length names then Ok (names ! i) else Err Out_of_bounds)"

definition dot :: cstr where "dot = [46]"
definition dotdot :: cstr where "dotdot = [46, 46]"

definition basename :: "cstr \<Rightarrow> cstr" where
  "basename path =
     (if path = [] then dot
      else let r = dropWhile (\<lambda>c. c = slash) (rev path) in
        if r = [] then [slash] else rev (takeWhile (\<lambda>c. c \<noteq> slash) r))"

subsection \<open>Tokens\<close>

lemma no_slash_while [simp]:
  assumes "slash \<notin> set b"
  shows "takeWhile (\<lambda>c. c \<noteq> slash) b = b" "dropWhile (\<lambda>c. c \<noteq> slash) b = []"
    "takeWhile (\<lambda>c. c \<noteq> slash) (b @ slash # ys) = b"
    "dropWhile (\<lambda>c. c \<noteq> slash) (b @ slash # ys) = slash # ys"
  using assms by (induction b) auto

lemma tokens_Nil [simp]: "tokens [] = []"
  by (simp add: tokens.simps strtok_def)

lemma strtok_token: "strtok s = Some (t, r) \<Longrightarrow> t \<noteq> [] \<and> slash \<notin> set t \<and> set t \<subseteq> set s \<and> set r \<subseteq> set s"
proof -
  assume "strtok s = Some (t, r)"
  then have ne: "dropWhile (\<lambda>c. c = slash) s \<noteq> []"
    and t: "t = takeWhile (\<lambda>c. c \<noteq> slash) (dropWhile (\<lambda>c. c = slash) s)"
    and r: "r = drop 1 (dropWhile (\<lambda>c. c \<noteq> slash) (dropWhile (\<lambda>c. c = slash) s))"
    by (auto simp: strtok_def Let_def split: if_splits)
  have "hd (dropWhile (\<lambda>c. c = slash) s) \<noteq> slash" using hd_dropWhile [OF ne] by simp
  then have "t \<noteq> []" using ne unfolding t by (cases "dropWhile (\<lambda>c. c = slash) s") auto
  moreover have "slash \<notin> set t" unfolding t by (auto dest: set_takeWhileD)
  moreover have "set t \<subseteq> set s" unfolding t by (auto dest!: set_takeWhileD set_dropWhileD)
  moreover have "set r \<subseteq> set s" unfolding r by (auto dest!: set_dropWhileD in_set_dropD)
  ultimately show ?thesis by simp
qed

lemma tokens_wf: "t \<in> set (tokens s) \<Longrightarrow> t \<noteq> [] \<and> slash \<notin> set t \<and> set t \<subseteq> set s"
proof (induction s rule: tokens.induct)
  case (1 s)
  show ?case
  proof (cases "strtok s")
    case None
    then show ?thesis using 1(2) by (simp add: tokens.simps [of s])
  next
    case (Some p)
    obtain u r where p: "strtok s = Some (u, r)" using Some by (cases p) auto
    then have "t = u \<or> t \<in> set (tokens r)" using 1(2) by (simp add: tokens.simps [of s])
    then show ?thesis using strtok_token [OF p] 1(1) [OF p refl] by auto
  qed
qed

lemma tokens_append_slash: "tokens (xs @ slash # ys) = tokens xs @ tokens ys"
proof (induction xs rule: tokens.induct)
  case (1 xs)
  let ?r = "dropWhile (\<lambda>c. c = slash) xs"
  show ?case
  proof (cases "?r = []")
    case True
    then have all: "\<forall>x \<in> set xs. x = slash" by (simp add: dropWhile_eq_Nil_conv)
    then have "strtok (xs @ slash # ys) = strtok ys" "strtok xs = None"
      by (simp_all add: strtok_def dropWhile_append2)
    then show ?thesis by (simp add: tokens.simps [of xs] tokens.simps [of "xs @ slash # ys"] tokens.simps [of ys])
  next
    case False
    have d: "dropWhile (\<lambda>c. c = slash) (xs @ slash # ys) = ?r @ slash # ys"
      using False by (auto simp: dropWhile_append)
    show ?thesis
    proof (cases "slash \<in> set ?r")
      case True
      then obtain t r' where r: "?r = t @ slash # r'" and t: "slash \<notin> set t"
        by (meson split_list_first)
      then have "strtok xs = Some (t, r')" "strtok (xs @ slash # ys) = Some (t, r' @ slash # ys)"
        using False by (simp_all add: strtok_def Let_def d)
      then show ?thesis
        using 1 [of "(t, r')" t r'] by (simp add: tokens.simps [of xs] tokens.simps [of "xs @ slash # ys"])
    next
      case no: False
      then have "strtok xs = Some (?r, [])" "strtok (xs @ slash # ys) = Some (?r, ys)"
        using False by (simp_all add: strtok_def Let_def d)
      then show ?thesis by (simp add: tokens.simps [of xs] tokens.simps [of "xs @ slash # ys"])
    qed
  qed
qed

lemma tokens_component: "b \<noteq> [] \<Longrightarrow> slash \<notin> set b \<Longrightarrow> tokens b = [b]"
proof -
  assume b: "b \<noteq> []" "slash \<notin> set b"
  then have "strtok b = Some (b, [])"
    by (cases b) (auto simp: strtok_def Let_def)
  then show ?thesis by (simp add: tokens.simps [of b])
qed

lemma tokens_all_slash: "\<forall>c \<in> set s. c = slash \<Longrightarrow> tokens s = []"
  by (simp add: tokens.simps strtok_def dropWhile_eq_Nil_conv [THEN iffD2])

text \<open>A path that does not end in a slash is a prefix, a slash and the last token, or one token.\<close>

lemma last_component:
  assumes "s \<noteq> []" and "last s \<noteq> slash"
  obtains pre b where "s = pre @ slash # b" and "b \<noteq> []" and "slash \<notin> set b"
  | "slash \<notin> set s"
proof (cases "slash \<in> set s")
  case True
  then obtain pre b where s: "s = pre @ slash # b" "slash \<notin> set b"
    by (meson split_list_last)
  then have "b \<noteq> []" using assms(2) by auto
  with s that(1) show ?thesis by blast
qed (use that(2) in blast)

lemma cut_last_split: "slash \<notin> set b \<Longrightarrow> cut_last (pre @ slash # b) = pre"
  by (simp add: cut_last_def)

text \<open>The parent path has the tokens of the path but the last.\<close>

lemma parent_tokens:
  assumes "2 \<le> length (tokens path)" and "\<And>p. path \<noteq> p @ [slash, slash]"
  shows "\<exists>parent. get_parent_path True (length (tokens path)) path = Ok parent \<and>
    tokens parent = butlast (tokens path)"
proof -
  have ne: "path \<noteq> []" using assms(1) by auto
  define copy where "copy = (if last path = slash then butlast path else path)"
  have toks: "tokens copy = tokens path"
  proof (cases "last path = slash")
    case True
    then have "path = butlast path @ [slash]" using ne by (metis append_butlast_last_id)
    then show ?thesis using tokens_append_slash [of "butlast path" "[]"] True by (simp add: copy_def)
  qed (simp add: copy_def)
  have "copy \<noteq> []" using toks assms(1) by auto
  moreover have "last copy \<noteq> slash"
  proof
    assume l: "last copy = slash"
    then have lp: "last path = slash" by (auto simp: copy_def split: if_splits)
    have "path = butlast path @ [slash]" using ne lp append_butlast_last_id [of path] by simp
    also have "butlast path = butlast (butlast path) @ [slash]"
      using l lp \<open>copy \<noteq> []\<close> append_butlast_last_id [of "butlast path"] by (simp add: copy_def)
    finally show False using assms(2) by simp
  qed
  ultimately show ?thesis
  proof (cases rule: last_component)
    case (1 pre b)
    have "get_parent_path True (length (tokens path)) path = Ok (cut_last copy)"
      using ne assms(1) by (auto simp: get_parent_path_def copy_def Let_def Suc_le_eq)
    moreover have "tokens path = tokens pre @ [b]"
      using 1 by (simp add: toks [symmetric] tokens_append_slash tokens_component)
    ultimately show ?thesis using 1 by (simp add: cut_last_split)
  next
    case 2
    then have "tokens path = [copy]"
      using \<open>copy \<noteq> []\<close> by (simp add: toks [symmetric] tokens_component)
    then show ?thesis using assms(1) by simp
  qed
qed

lemma basename_last:
  assumes "tokens path \<noteq> []"
  shows "basename path = last (tokens path)"
proof -
  define r where "r = dropWhile (\<lambda>c. c = slash) (rev path)"
  have path: "path = rev r @ rev (takeWhile (\<lambda>c. c = slash) (rev path))"
    unfolding r_def by (metis rev_append rev_rev_ident takeWhile_dropWhile_id)
  have trail: "tokens (xs @ ys) = tokens xs" if "\<forall>c \<in> set ys. c = slash" for xs ys
    using that
  proof (cases ys)
    case (Cons y zs)
    then show ?thesis using that tokens_append_slash [of xs zs] by (auto simp: tokens_all_slash)
  qed simp
  have toks: "tokens path = tokens (rev r)"
    by (subst path, rule trail) (auto dest: set_takeWhileD)
  then have ne: "rev r \<noteq> []" using assms by auto
  have "path \<noteq> []" using assms by auto
  note ne
  moreover have "last (rev r) \<noteq> slash"
    using ne hd_dropWhile [of "\<lambda>c. c = slash" "rev path"] by (auto simp: r_def last_rev)
  ultimately show ?thesis
  proof (cases rule: last_component)
    case (1 pre b)
    then have "r = rev b @ slash # rev pre" by (metis rev_append rev.simps(2) append.assoc rev_rev_ident
          append_Cons append_Nil)
    then have "takeWhile (\<lambda>c. c \<noteq> slash) r = rev b" using 1 by simp
    then show ?thesis
      using 1 ne \<open>path \<noteq> []\<close> by (auto simp: basename_def r_def [symmetric] toks tokens_append_slash tokens_component)
  next
    case 2
    then have "takeWhile (\<lambda>c. c \<noteq> slash) r = r" by (auto simp: takeWhile_eq_all_conv)
    then show ?thesis
      using 2 ne \<open>path \<noteq> []\<close> by (auto simp: basename_def r_def [symmetric] toks tokens_component)
  qed
qed

end
