(* ===== verification/Ext2Alloc.thy ===== *)
theory Ext2Alloc
  imports Ext2Disk
begin

section \<open>Opening the image, free blocks and inodes (Assignment3/helper.c)\<close>

text \<open>
  \<open>init\<close>, \<open>round_up\<close>, \<open>find_free_block\<close>, \<open>find_free_inode\<close> and \<open>remove_link\<close>.  The loops over a
  bitmap keep a byte index \<open>i / 8\<close> and a bit index that counts to 8 and starts again, which is
  \<open>i mod 8\<close>.
\<close>

subsection \<open>Programs\<close>

text \<open>The first loop of \<open>init\<close>: the indexes in use go to the array \<open>inum\<close> of 32.\<close>

fun used_inodes :: "nat \<Rightarrow> nat list \<Rightarrow> nat list \<Rightarrow> fs \<Rightarrow> nat list res" where
  "used_inodes bmi [] acc s = Ok acc"
| "used_inodes bmi (i # is) acc s =
     res_bind (ld_byte (bmi + i div 8) s) (\<lambda>c.
       if bit c (i mod 8) \<and> i > 10 then
         (if length acc \<ge> 32 then Err Out_of_bounds else used_inodes bmi is (acc @ [i]) s)
       else used_inodes bmi is acc s)"

text \<open>The inner loop of the second: block numbers from \<open>arr\<close> up to a zero.\<close>

function block_numbers :: "nat \<Rightarrow> fs \<Rightarrow> nat list res" where
  "block_numbers arr s =
     res_bind (ld 4 arr s) (\<lambda>w.
       if w = 0 then Ok []
       else if arr + 4 \<le> DISK_SIZE then res_bind (block_numbers (arr + 4) s) (\<lambda>ws. Ok (w # ws))
       else Err Out_of_bounds)"
  by pat_completeness auto
termination
  by (relation "measure (\<lambda>(arr, s). DISK_SIZE - arr)") auto

declare block_numbers.simps [simp del]

fun dir_blocks :: "nat \<Rightarrow> nat list \<Rightarrow> nat list \<Rightarrow> fs \<Rightarrow> nat list res" where
  "dir_blocks itab [] acc s = Ok acc"
| "dir_blocks itab (i # is) acc s =
     (let curr = itab + INODE_SIZE * i in
      res_bind (ld 2 (curr + i_mode) s) (\<lambda>mode.
      res_bind (block_numbers (curr + i_block 0) s) (\<lambda>ws.
        let acc = (if S_ISDIR mode then acc @ ws else acc) in
        if length acc > 128 then Err Out_of_bounds else dir_blocks itab is acc s)))"

text \<open>\<open>init\<close>: \<open>img\<close> is what \<open>mmap\<close> gives, \<open>None\<close> when it fails.\<close>

definition init :: "mem option \<Rightarrow> fs res" where
  "init img =
     (case img of
        None \<Rightarrow> Err (Exit 1)
      | Some m \<Rightarrow>
          let s = \<lparr>disk = m, dirs = [], inum = []\<rparr> in
          res_bind (bg_inode_bitmap s) (\<lambda>ib.
          res_bind (s_inodes_count s) (\<lambda>n.
          res_bind (used_inodes (block_addr ib) [0..<n] [1] s) (\<lambda>inums.
          res_bind (bg_inode_table s) (\<lambda>it.
          res_bind (dir_blocks (block_addr it) inums [] s) (\<lambda>ds.
            Ok (s\<lparr>inum := inums, dirs := ds\<rparr>)))))))"

definition round_up :: "nat \<Rightarrow> nat" where
  "round_up n = (let remainder = n mod 4 in n + (4 - remainder))"

text \<open>The search of \<open>find_free_block\<close> and \<open>find_free_inode\<close>: a clear bit not below \<open>low\<close>.\<close>

fun first_clear :: "nat \<Rightarrow> nat \<Rightarrow> nat list \<Rightarrow> fs \<Rightarrow> nat option res" where
  "first_clear bm low [] s = Ok None"
| "first_clear bm low (i # is) s =
     res_bind (ld_byte (bm + i div 8) s) (\<lambda>c.
       if \<not> bit c (i mod 8) \<and> i \<ge> low then Ok (Some i) else first_clear bm low is s)"

text \<open>What both do with the bit: set it and decrement the 16-bit counter at \<open>cnt\<close>.\<close>

definition take_bit_at :: "nat \<Rightarrow> nat \<Rightarrow> nat \<Rightarrow> fs \<Rightarrow> (nat \<times> fs) res" where
  "take_bit_at bm cnt i s =
     res_bind (ld_byte (bm + i div 8) s) (\<lambda>c.
     res_bind (st_byte (bm + i div 8) (c OR 2 ^ (i mod 8)) s) (\<lambda>s.
     res_bind (ld 2 cnt s) (\<lambda>n.
     res_bind (st 2 cnt (n + (2 ^ 16 - 1)) s) (\<lambda>s.
       Ok (i + 1, s)))))"

definition find_free_block :: "fs \<Rightarrow> (nat \<times> fs) res" where
  "find_free_block s =
     res_bind (bg_block_bitmap s) (\<lambda>b.
     res_bind (s_blocks_count s) (\<lambda>n.
     res_bind (first_clear (block_addr b) 0 [0..<n] s) (\<lambda>r. case r of
         None \<Rightarrow> Ok (0, s)
       | Some i \<Rightarrow> take_bit_at (block_addr b) bg_free_blocks_count i s)))"

definition find_free_inode :: "fs \<Rightarrow> (nat \<times> fs) res" where
  "find_free_inode s =
     res_bind (bg_inode_bitmap s) (\<lambda>b.
     res_bind (s_inodes_count s) (\<lambda>n.
     res_bind (first_clear (block_addr b) 11 [0..<n] s) (\<lambda>r. case r of
         None \<Rightarrow> Ok (0, s)
       | Some i \<Rightarrow> take_bit_at (block_addr b) bg_free_inodes_count i s)))"

text \<open>\<open>inum[i]\<close>: the array is zero beyond the entries made.\<close>

definition inum_at :: "nat \<Rightarrow> fs \<Rightarrow> nat res" where
  "inum_at i s =
     (if i \<ge> 32 then Err Out_of_bounds else Ok (if i < length (inum s) then inum s ! i else 0))"

text \<open>
  The loop of \<open>remove_link\<close>: it looks for an \<open>i\<close> whose bit is set and with \<open>inum[i] == inode - 1\<close>,
  and clears bit \<open>i\<close>.
\<close>

fun release_bit :: "nat \<Rightarrow> nat \<Rightarrow> nat list \<Rightarrow> fs \<Rightarrow> (bool \<times> fs) res" where
  "release_bit bmi inode [] s = Ok (False, s)"
| "release_bit bmi inode (i # is) s =
     res_bind (ld_byte (bmi + i div 8) s) (\<lambda>c.
     res_bind (if bit c (i mod 8) then res_bind (inum_at i s) (\<lambda>x. Ok (x = pred32 inode)) else Ok False) (\<lambda>b.
       if b then
         res_bind (st_byte (bmi + i div 8) (c AND NOT (2 ^ (i mod 8))) s) (\<lambda>s.
         res_bind (ld 2 bg_free_inodes_count s) (\<lambda>n.
         res_bind (st 2 bg_free_inodes_count (n + 1) s) (\<lambda>s. Ok (True, s))))
       else release_bit bmi inode is s))"

text \<open>The last loop of \<open>remove_link\<close> reads the block numbers and does nothing with them.\<close>

fun read_blocks :: "nat list \<Rightarrow> nat \<Rightarrow> fs \<Rightarrow> unit res" where
  "read_blocks [] p s = Ok ()"
| "read_blocks (k # ks) p s =
     res_bind (ld 4 (p + i_block k) s) (\<lambda>w. read_blocks ks p s)"

text \<open>\<open>in + inode - 1\<close> is a pointer computation: no wrap at 32 bits, but below the table for 0.\<close>

definition remove_link :: "nat \<Rightarrow> nat \<Rightarrow> fs \<Rightarrow> fs res" where
  "remove_link now inode s =
     res_bind (bg_inode_table s) (\<lambda>it.
       if block_addr it + INODE_SIZE * inode < INODE_SIZE then Err Out_of_bounds
       else
         let curr = block_addr it + INODE_SIZE * inode - INODE_SIZE in
         res_bind (ld 2 (curr + i_links_count) s) (\<lambda>links.
         res_bind
           (if links > 0 then
              res_bind (st 2 (curr + i_links_count) (links - 1) s) (\<lambda>s.
              res_bind
                (if links - 1 = 0 then
                   res_bind (bg_inode_bitmap s) (\<lambda>ib.
                   res_bind (s_inodes_count s) (\<lambda>n.
                     release_bit (block_addr ib) inode [0..<n] s))
                 else Ok (False, s)) (\<lambda>(freed, s).
                if freed then Ok (True, s)
                else res_bind (read_blocks [0..<12] curr s) (\<lambda>_. Ok (False, s))))
            else Ok (False, s)) (\<lambda>(returned, s).
           if returned then Ok s else st 4 (curr + i_dtime) now s)))"

end
