(* ===== verification/Ext2Dir.thy ===== *)
theory Ext2Dir
  imports Ext2Path Ext2Alloc
begin

section \<open>Directories (Assignment3/helper.c)\<close>

text \<open>
  The functions that walk and change directory blocks.  Their loops have one shape: read
  \<open>rec_len\<close>, look at the entry, go on by \<open>rec_len\<close> until the position is a multiple of the block
  size.  \<open>scan\<close> is that loop, with the look at the entry as a parameter; an entry of length 0 that
  is not at the end of a block is visited for ever.
\<close>

subsection \<open>Loops over entries\<close>

function scan :: "(nat \<Rightarrow> nat \<Rightarrow> fs \<Rightarrow> 'a option res) \<Rightarrow> nat \<Rightarrow> nat \<Rightarrow> fs \<Rightarrow> 'a option res" where
  "scan f pre_pos pos s =
     res_bind (de_rec_len pos s) (\<lambda>cur_len.
     res_bind (f pre_pos pos s) (\<lambda>r. case r of
         Some x \<Rightarrow> Ok (Some x)
       | None \<Rightarrow>
           if (pos + cur_len) mod EXT2_BLOCK_SIZE = 0 then Ok None
           else if cur_len = 0 then Err Diverges
           else scan f pos (pos + cur_len) s))"
  by pat_completeness auto
termination
  by (relation "measure (\<lambda>(f, pre, pos, s). DISK_SIZE - pos)")
    (auto simp: de_rec_len_def ld_def split: if_splits)

declare scan.simps [simp del]

definition named :: "cstr \<Rightarrow> nat \<Rightarrow> nat \<Rightarrow> fs \<Rightarrow> (nat \<times> nat) option res" where
  "named t pre_pos pos s =
     res_bind (has_name t pos s) (\<lambda>b. Ok (if b then Some (pre_pos, pos) else None))"

text \<open>Is this the block of directory \<open>inode\<close>: does it start with that inode's entry "."?\<close>

definition is_dir_block :: "nat \<Rightarrow> nat \<Rightarrow> fs \<Rightarrow> bool res" where
  "is_dir_block inode pos s =
     res_bind (de_inode pos s) (\<lambda>i.
       if inode = i then strcmp_eq dot (de_name pos) s else Ok False)"

fun dir_block_of :: "nat \<Rightarrow> nat list \<Rightarrow> fs \<Rightarrow> nat option res" where
  "dir_block_of inode [] s = Ok None"
| "dir_block_of inode (b # bs) s =
     res_bind (is_dir_block inode (block_addr b) s) (\<lambda>c.
       if c then Ok (Some (block_addr b)) else dir_block_of inode bs s)"

definition find_dir_block_pos :: "nat \<Rightarrow> fs \<Rightarrow> nat option res" where
  "find_dir_block_pos inode s = dir_block_of inode (dirs s) s"

subsection \<open>Lookups\<close>

text \<open>The first entry with a name in any directory: neither function looks at its \<open>inode\<close>.\<close>

fun search_dirs :: "cstr \<Rightarrow> nat list \<Rightarrow> fs \<Rightarrow> (nat \<times> nat) option res" where
  "search_dirs t [] s = Ok None"
| "search_dirs t (b # bs) s =
     res_bind (scan (named t) (block_addr b) (block_addr b) s) (\<lambda>r. case r of
         Some x \<Rightarrow> Ok (Some x)
       | None \<Rightarrow> search_dirs t bs s)"

definition find_pre_pos :: "nat \<Rightarrow> cstr \<Rightarrow> fs \<Rightarrow> nat option res" where
  "find_pre_pos inode filename s =
     res_bind (search_dirs filename (dirs s) s) (\<lambda>r. Ok (map_option fst r))"

definition find_dir_entry :: "nat \<Rightarrow> cstr \<Rightarrow> fs \<Rightarrow> nat option res" where
  "find_dir_entry inode filename s =
     res_bind (search_dirs filename (dirs s) s) (\<lambda>r. Ok (map_option snd r))"

text \<open>One step of \<open>traverse\<close>: the entry \<open>cur\<close> in the blocks that start with ".", inode \<open>inode\<close>.\<close>

fun step_in :: "nat \<Rightarrow> cstr \<Rightarrow> nat list \<Rightarrow> fs \<Rightarrow> nat option res" where
  "step_in inode cur [] s = Ok None"
| "step_in inode cur (b # bs) s =
     res_bind (is_dir_block inode (block_addr b) s) (\<lambda>c.
       if c then
         res_bind (scan (named cur) (block_addr b) (block_addr b) s) (\<lambda>r. case r of
             Some (pre_pos, pos) \<Rightarrow> Ok (Some pos)
           | None \<Rightarrow> step_in inode cur bs s)
       else step_in inode cur bs s)"

text \<open>
  \<open>traverse\<close>: \<open>toks\<close> is \<open>cur\<close> with what \<open>strtok\<close> still holds; the empty list is \<open>cur == NULL\<close>, which
  \<open>strncmp\<close> dereferences at the first entry it meets.
\<close>

fun traverse :: "nat \<Rightarrow> cstr list \<Rightarrow> cstr \<Rightarrow> fs \<Rightarrow> nat res" where
  "traverse inode [] filename s =
     (if filename = [slash] then Ok EXT2_ROOT_INO
      else res_bind (find_dir_block_pos inode s) (\<lambda>r. case r of
          None \<Rightarrow> Ok 0 | Some pos \<Rightarrow> Err Null_deref))"
| "traverse inode (cur # toks) filename s =
     (if filename = [slash] then Ok EXT2_ROOT_INO
      else res_bind (step_in inode cur (dirs s) s) (\<lambda>r. case r of
          None \<Rightarrow> Ok 0
        | Some pos \<Rightarrow>
            res_bind (has_name filename pos s) (\<lambda>b.
            res_bind (de_inode pos s) (\<lambda>i.
              if b then Ok i else traverse i toks filename s))))"

subsection \<open>Changes\<close>

definition FT_SIZE :: nat where "FT_SIZE = 4"
definition PTR_SIZE :: nat where "PTR_SIZE = 8"

text \<open>The sizes \<open>create_link\<close> computes: \<open>sizeof(name)\<close> is that of a pointer, \<open>sizeof\<close> of a file type
  constant that of an \<open>int\<close>.\<close>

definition total_size_for :: "cstr \<Rightarrow> nat \<Rightarrow> nat" where
  "total_size_for name mode =
     (if mode = EXT2_FT_SYMLINK then length name
      else round_up (4 + 2 + PTR_SIZE + length name + FT_SIZE))"

definition dir_size_for :: "nat \<Rightarrow> nat" where
  "dir_size_for name_len = round_up (4 + 2 + 1 + name_len + 1)"

text \<open>The test for room: the entry, its length and the part of it in use.\<close>

definition has_room :: "nat \<Rightarrow> nat \<Rightarrow> nat \<Rightarrow> fs \<Rightarrow> (nat \<times> nat \<times> nat) option res" where
  "has_room total_size pre_pos pos s =
     res_bind (de_rec_len pos s) (\<lambda>cur_len.
     res_bind (de_name_len pos s) (\<lambda>n.
       let dir_size = dir_size_for n in
       Ok (if dir_size + total_size \<le> cur_len then Some (pos, cur_len, dir_size) else None)))"

definition split_entry :: "nat \<Rightarrow> nat \<Rightarrow> nat \<Rightarrow> nat \<Rightarrow> cstr \<Rightarrow> nat \<Rightarrow> fs \<Rightarrow> fs res" where
  "split_entry pos cur_len dir_size inode name mode s =
     res_bind (st 2 (pos + 4) dir_size s) (\<lambda>s.
     res_bind (de_rec_len pos s) (\<lambda>l.
       let dir = pos + l in
       res_bind (st 1 (dir + 7) mode s) (\<lambda>s.
       res_bind (strcpy_to (de_name dir) name s) (\<lambda>s.
       res_bind (st 1 (dir + 6) (length name) s) (\<lambda>s.
       res_bind (st 2 (dir + 4) (cur_len - dir_size) s) (\<lambda>s.
         st 4 dir inode s))))))"

definition create_link :: "nat \<Rightarrow> nat \<Rightarrow> cstr \<Rightarrow> nat \<Rightarrow> fs \<Rightarrow> (nat \<times> fs) res" where
  "create_link parent_inode inode name mode s =
     (let total_size = total_size_for name mode in
      res_bind (find_dir_block_pos parent_inode s) (\<lambda>r. case r of
          None \<Rightarrow> Err Null_deref
        | Some pos \<Rightarrow>
            res_bind (scan (has_room total_size) pos pos s) (\<lambda>r. case r of
                None \<Rightarrow> Ok (0, s)
              | Some (pos, cur_len, dir_size) \<Rightarrow>
                  res_bind (split_entry pos cur_len dir_size inode name mode s) (\<lambda>s. Ok (1, s)))))"

text \<open>The entries "." and ".." of a new directory, at the start of its block.\<close>

definition new_dir_block :: "nat \<Rightarrow> nat \<Rightarrow> nat \<Rightarrow> fs \<Rightarrow> fs res" where
  "new_dir_block pos inode parent_inode s =
     res_bind (st 2 (pos + 4) 12 s) (\<lambda>s.
     res_bind (strcpy_to (de_name pos) dot s) (\<lambda>s.
     res_bind (st 1 (pos + 6) 1 s) (\<lambda>s.
     res_bind (st 1 (pos + 7) EXT2_FT_DIR s) (\<lambda>s.
     res_bind (st 4 pos inode s) (\<lambda>s.
     res_bind (de_rec_len pos s) (\<lambda>l.
       let pos = pos + l in
       res_bind (st 2 (pos + 4) 1012 s) (\<lambda>s.
       res_bind (strcpy_to (de_name pos) dotdot s) (\<lambda>s.
       res_bind (st 1 (pos + 6) 2 s) (\<lambda>s.
       res_bind (st 1 (pos + 7) EXT2_FT_DIR s) (\<lambda>s.
         st 4 pos parent_inode s))))))))))"

text \<open>\<open>in + (inode - 1)\<close>, where \<open>inode - 1\<close> is a 32-bit number.\<close>

definition inode_ptr :: "nat \<Rightarrow> nat \<Rightarrow> nat" where
  "inode_ptr it inode = block_addr it + INODE_SIZE * pred32 inode"

definition add_link_count :: "nat \<Rightarrow> fs \<Rightarrow> fs res" where
  "add_link_count p s =
     res_bind (ld 2 (p + i_links_count) s) (\<lambda>l. st 2 (p + i_links_count) (l + 1) s)"

definition allocate :: "nat \<Rightarrow> nat \<Rightarrow> nat \<Rightarrow> cstr option \<Rightarrow> fs \<Rightarrow> fs res" where
  "allocate inode parent_inode mode path s =
     res_bind (bg_inode_table s) (\<lambda>it.
       let new = inode_ptr it inode in
       res_bind (st 2 (new + i_mode) mode s) (\<lambda>s.
         if S_ISREG mode then add_link_count new s
         else if S_ISLNK mode then
           res_bind (find_free_block s) (\<lambda>(blocknum, s). case path of
               None \<Rightarrow> Err Null_deref
             | Some path \<Rightarrow>
                 res_bind (strcpy_to (block_addr blocknum) path s) (\<lambda>s.
                 res_bind (st 4 (new + i_block 0) blocknum s) (\<lambda>s.
                   st 4 (new + i_size) (length path) s)))
         else if S_ISDIR mode then
           res_bind (st 2 (new + i_links_count) 2 s) (\<lambda>s.
           res_bind (st 4 (new + i_blocks) 2 s) (\<lambda>s.
           res_bind (st 4 (new + i_size) EXT2_BLOCK_SIZE s) (\<lambda>s.
           res_bind (find_free_block s) (\<lambda>(block, s).
           res_bind (st 4 (new + i_block 0) block s) (\<lambda>s.
           res_bind (new_dir_block (block_addr block) inode parent_inode s) (\<lambda>s.
             add_link_count (inode_ptr it parent_inode) s))))))
         else Ok s))"

end
