(* ===== verification/Ext2Bits.thy ===== *)
theory Ext2Bits
  imports Ext2Alloc Bitmap
begin

section \<open>Allocation from a bitmap\<close>

text \<open>
  The layout of an image, the bitmaps as sets, and what the searches for a free block and a free
  inode do to them.  The locale \<open>slot_allocator\<close> is the contract these searches share with
  \<open>bitmap_alloc\<close> of the paging simulator: the lowest free candidate is taken.
\<close>

subsection \<open>Layout\<close>

definition bbm :: "mem \<Rightarrow> nat" where "bbm m = block_addr (rd 4 m BGD)"
definition ibm :: "mem \<Rightarrow> nat" where "ibm m = block_addr (rd 4 m (BGD + 4))"
definition itab :: "mem \<Rightarrow> nat" where "itab m = block_addr (rd 4 m (BGD + 8))"
definition n_inodes :: "mem \<Rightarrow> nat" where "n_inodes m = rd 4 m SB"
definition n_blocks :: "mem \<Rightarrow> nat" where "n_blocks m = rd 4 m (SB + 4)"

definition data_start :: "mem \<Rightarrow> nat" where
  "data_start m = itab m + INODE_SIZE * n_inodes m"

text \<open>Super block, group descriptor, block bitmap, inode bitmap, inode table, data, in this order.\<close>

definition layout :: "mem \<Rightarrow> bool" where
  "layout m \<longleftrightarrow> n_inodes m \<le> 1024 \<and> n_blocks m \<le> 1024 \<and> 2080 \<le> bbm m \<and> bbm m + 128 \<le> ibm m \<and>
     ibm m + 128 \<le> itab m \<and> data_start m \<le> DISK_SIZE"

definition same_header :: "mem \<Rightarrow> mem \<Rightarrow> bool" where
  "same_header m m' \<longleftrightarrow> n_inodes m' = n_inodes m \<and> n_blocks m' = n_blocks m \<and> bbm m' = bbm m \<and>
     ibm m' = ibm m \<and> itab m' = itab m"

lemma same_header_refl [simp]: "same_header m m"
  by (simp add: same_header_def)

lemma same_header_trans: "same_header m m' \<Longrightarrow> same_header m' m'' \<Longrightarrow> same_header m m''"
  by (simp add: same_header_def)

lemma same_header_layout: "same_header m m' \<Longrightarrow> layout m' = layout m \<and> data_start m' = data_start m"
  by (simp add: same_header_def layout_def data_start_def)

text \<open>Memory that agrees on the fields of the header has the same layout.\<close>

lemma same_headerI:
  assumes "\<And>x. 1024 \<le> x \<Longrightarrow> x < 1032 \<Longrightarrow> m' x = m x" and "\<And>x. 2048 \<le> x \<Longrightarrow> x < 2060 \<Longrightarrow> m' x = m x"
  shows "same_header m m'"
proof -
  have "rd 4 m' 1024 = rd 4 m 1024" "rd 4 m' 1028 = rd 4 m 1028" "rd 4 m' 2048 = rd 4 m 2048"
    "rd 4 m' 2052 = rd 4 m 2052" "rd 4 m' 2056 = rd 4 m 2056"
    by (rule rd_cong; use assms in simp)+
  then show ?thesis
    by (simp add: same_header_def n_inodes_def n_blocks_def bbm_def ibm_def itab_def SB_def BGD_def)
qed

lemma header_loads:
  "s_inodes_count s = Ok (n_inodes (disk s))" "s_blocks_count s = Ok (n_blocks (disk s))"
  "bg_block_bitmap s = Ok (rd 4 (disk s) BGD)" "bg_inode_bitmap s = Ok (rd 4 (disk s) (BGD + 4))"
  "bg_inode_table s = Ok (rd 4 (disk s) (BGD + 8))"
  by (simp_all add: s_inodes_count_def s_blocks_count_def bg_block_bitmap_def bg_inode_bitmap_def
      bg_inode_table_def fs_simps SB_def BGD_def DISK_SIZE_def n_inodes_def n_blocks_def)

lemmas header_addrs = bbm_def [symmetric] ibm_def [symmetric] itab_def [symmetric]

subsection \<open>Bits\<close>

definition used_bits :: "mem \<Rightarrow> nat \<Rightarrow> nat set" where
  "used_bits m bm = {i. bit (m (bm + i div 8)) (i mod 8)}"

lemma used_bits_cong:
  "(\<And>x. bm \<le> x \<Longrightarrow> x < bm + 128 \<Longrightarrow> m' x = m x) \<Longrightarrow> i < 1024 \<Longrightarrow> i \<in> used_bits m' bm \<longleftrightarrow> i \<in> used_bits m bm"
  by (simp add: used_bits_def div_less_iff_less_mult)

lemma first_clear_find:
  assumes "\<And>i. i \<in> set is \<Longrightarrow> bm + i div 8 < DISK_SIZE"
  shows "first_clear bm low is s = Ok (find (\<lambda>i. i \<notin> used_bits (disk s) bm \<and> low \<le> i) is)"
  using assms by (induction "is") (auto simp: fs_simps used_bits_def)

lemma find_append: "find P (xs @ ys) = (case find P xs of None \<Rightarrow> find P ys | Some x \<Rightarrow> Some x)"
  by (induction xs) auto

lemma find_least:
  "find P [0..<n] = (if \<exists>i < n. P i then Some (LEAST i. P i) else None)"
proof (induction n)
  case (Suc n)
  show ?case
  proof (cases "\<exists>i < n. P i")
    case True
    then have "\<exists>i < Suc n. P i" using less_SucI by blast
    with True Suc show ?thesis by (auto simp: find_append split: option.splits)
  next
    case no: False
    show ?thesis
    proof (cases "P n")
      case True
      have "(LEAST i. P i) = n"
        using True no by (intro Least_equality) (auto simp: not_less [symmetric])
      with True no Suc show ?thesis by (auto simp: find_append)
    next
      case False
      with no Suc show ?thesis by (auto simp: find_append less_Suc_eq)
    qed
  qed
qed simp

lemma find_upt_Some:
  "find P [0..<n] = Some i \<longleftrightarrow> i < n \<and> P i \<and> (\<forall>j < i. \<not> P j)"
proof
  assume f: "find P [0..<n] = Some i"
  then have "\<exists>i < n. P i" "i = (LEAST i. P i)" by (auto simp: find_least split: if_splits)
  then show "i < n \<and> P i \<and> (\<forall>j < i. \<not> P j)"
    by (metis LeastI_ex Least_le le_less_trans not_less_Least)
next
  assume i: "i < n \<and> P i \<and> (\<forall>j < i. \<not> P j)"
  then have "(LEAST i. P i) = i" by (intro Least_equality) (auto simp: not_less [symmetric])
  with i show "find P [0..<n] = Some i" by (auto simp: find_least)
qed

text \<open>The memory after a bit was taken.\<close>

definition taken :: "nat \<Rightarrow> nat \<Rightarrow> nat \<Rightarrow> mem \<Rightarrow> mem" where
  "taken bm cnt i m =
     (let m = m(bm + i div 8 := m (bm + i div 8) OR 2 ^ (i mod 8)) in
      wr 2 cnt (rd 2 m cnt + (2 ^ 16 - 1)) m)"

lemma take_bit_at_Ok:
  "bm + i div 8 < DISK_SIZE \<Longrightarrow> cnt + 2 \<le> DISK_SIZE \<Longrightarrow>
    take_bit_at bm cnt i s = Ok (i + 1, s\<lparr>disk := taken bm cnt i (disk s)\<rparr>)"
  by (simp add: take_bit_at_def fs_simps taken_def Let_def)

lemma taken_other:
  "x \<noteq> bm + i div 8 \<Longrightarrow> x < cnt \<or> cnt + 2 \<le> x \<Longrightarrow> taken bm cnt i m x = m x"
  by (auto simp: taken_def Let_def wr_other)

lemma used_bits_taken:
  assumes "cnt + 2 \<le> bm" and "i < 1024"
  shows "used_bits (taken bm cnt i m) bm = insert i (used_bits m bm)"
proof -
  have "bit (taken bm cnt i m (bm + j div 8)) (j mod 8) \<longleftrightarrow> j = i \<or> bit (m (bm + j div 8)) (j mod 8)" for j
  proof -
    have "taken bm cnt i m (bm + j div 8) =
        (if j div 8 = i div 8 then m (bm + j div 8) OR 2 ^ (i mod 8) else m (bm + j div 8))"
      using assms(1) by (auto simp: taken_def Let_def wr_other)
    moreover have "j = i \<longleftrightarrow> j div 8 = i div 8 \<and> j mod 8 = i mod 8"
      by (metis div_mult_mod_eq)
    ultimately show ?thesis by (auto simp: bit_or_mask)
  qed
  then show ?thesis by (auto simp: used_bits_def)
qed

lemma taken_count: "cnt + 2 \<le> bm \<Longrightarrow> rd 2 (taken bm cnt i m) cnt = (rd 2 m cnt + (2 ^ 16 - 1)) mod 2 ^ 16"
proof -
  assume "cnt + 2 \<le> bm"
  then have "rd 2 (m(bm + i div 8 := m (bm + i div 8) OR 2 ^ (i mod 8))) cnt = rd 2 m cnt"
    by (intro rd_cong) auto
  then show ?thesis by (simp add: taken_def Let_def rd_wr_same)
qed

subsection \<open>Free blocks and inodes\<close>

definition free_block :: "mem \<Rightarrow> nat option" where
  "free_block m = find (\<lambda>i. i \<notin> used_bits m (bbm m)) [0..<n_blocks m]"

definition free_inode :: "mem \<Rightarrow> nat option" where
  "free_inode m = find (\<lambda>i. i \<notin> used_bits m (ibm m) \<and> 11 \<le> i) [0..<n_inodes m]"

lemma find_free_block_eq:
  assumes "layout (disk s)"
  shows "find_free_block s = Ok (case free_block (disk s) of
      None \<Rightarrow> (0, s)
    | Some i \<Rightarrow> (i + 1, s\<lparr>disk := taken (bbm (disk s)) bg_free_blocks_count i (disk s)\<rparr>))"
proof -
  have b: "bbm (disk s) + i div 8 < DISK_SIZE" if "i < n_blocks (disk s)" for i
    using assms that by (auto simp: layout_def data_start_def less_mult_imp_div_less)
  have f: "first_clear (bbm (disk s)) 0 [0..<n_blocks (disk s)] s = Ok (free_block (disk s))"
    using b by (subst first_clear_find) (auto simp: free_block_def)
  have n: "free_block (disk s) = Some i \<Longrightarrow> i < n_blocks (disk s)" for i
    by (simp add: free_block_def find_upt_Some)
  have t: "take_bit_at (bbm (disk s)) bg_free_blocks_count i s =
      Ok (i + 1, s\<lparr>disk := taken (bbm (disk s)) bg_free_blocks_count i (disk s)\<rparr>)"
    if "i < n_blocks (disk s)" for i
    using b [OF that] by (simp add: take_bit_at_Ok bg_free_blocks_count_def BGD_def DISK_SIZE_def)
  show ?thesis
    using n t by (auto simp: find_free_block_def header_loads header_addrs f split: option.splits)
qed

lemma find_free_inode_eq:
  assumes "layout (disk s)"
  shows "find_free_inode s = Ok (case free_inode (disk s) of
      None \<Rightarrow> (0, s)
    | Some i \<Rightarrow> (i + 1, s\<lparr>disk := taken (ibm (disk s)) bg_free_inodes_count i (disk s)\<rparr>))"
proof -
  have b: "ibm (disk s) + i div 8 < DISK_SIZE" if "i < n_inodes (disk s)" for i
    using assms that by (auto simp: layout_def data_start_def less_mult_imp_div_less)
  have f: "first_clear (ibm (disk s)) 11 [0..<n_inodes (disk s)] s = Ok (free_inode (disk s))"
    using b by (subst first_clear_find) (auto simp: free_inode_def)
  have n: "free_inode (disk s) = Some i \<Longrightarrow> i < n_inodes (disk s)" for i
    by (simp add: free_inode_def find_upt_Some)
  have t: "take_bit_at (ibm (disk s)) bg_free_inodes_count i s =
      Ok (i + 1, s\<lparr>disk := taken (ibm (disk s)) bg_free_inodes_count i (disk s)\<rparr>)"
    if "i < n_inodes (disk s)" for i
    using b [OF that] by (simp add: take_bit_at_Ok bg_free_inodes_count_def BGD_def DISK_SIZE_def)
  show ?thesis
    using n t by (auto simp: find_free_inode_def header_loads header_addrs f split: option.splits)
qed

lemma same_header_taken:
  assumes "cnt = bg_free_blocks_count \<or> cnt = bg_free_inodes_count" and "2080 \<le> bm"
  shows "same_header m (taken bm cnt i m)"
  using assms by (intro same_headerI taken_other)
    (auto simp: bg_free_blocks_count_def bg_free_inodes_count_def BGD_def)

subsection \<open>The contract\<close>

text \<open>Results as slots: the functions return a number from 1, and 0 for none.\<close>

definition as_slot :: "(nat \<times> fs) res \<Rightarrow> (nat option \<times> fs) res" where
  "as_slot r = res_bind r (\<lambda>(n, s). Ok (if n = 0 then None else Some (n - 1), s))"

definition blocks_in_use :: "fs \<Rightarrow> nat set" where
  "blocks_in_use s = used_bits (disk s) (bbm (disk s))"

text \<open>The first eleven inodes are never given out.\<close>

definition inodes_in_use :: "fs \<Rightarrow> nat set" where
  "inodes_in_use s = used_bits (disk s) (ibm (disk s)) \<union> {..<11}"

lemma free_block_Some:
  "free_block m = Some i \<longleftrightarrow> i < n_blocks m \<and> i \<notin> used_bits m (bbm m) \<and> (\<forall>j < i. j \<in> used_bits m (bbm m))"
  by (simp add: free_block_def find_upt_Some)

lemma free_inode_Some:
  "free_inode m = Some i \<longleftrightarrow> i < n_inodes m \<and> 11 \<le> i \<and> i \<notin> used_bits m (ibm m) \<and>
     (\<forall>j < i. 11 \<le> j \<longrightarrow> j \<in> used_bits m (ibm m))"
  by (auto simp: free_inode_def find_upt_Some)

lemma find_upt_None: "find P [0..<n] = None \<longleftrightarrow> (\<forall>i < n. \<not> P i)"
  by (auto simp: find_None_iff)

lemma layout_bounds:
  assumes "layout m"
  shows "i < n_blocks m \<Longrightarrow> i < 1024" "i < n_inodes m \<Longrightarrow> i < 1024" "bg_free_blocks_count + 2 \<le> bbm m"
    "bg_free_inodes_count + 2 \<le> ibm m" "2080 \<le> bbm m" "2080 \<le> ibm m" "bbm m + 128 \<le> ibm m"
    "ibm m + 128 \<le> itab m" "data_start m \<le> DISK_SIZE" "itab m \<le> data_start m"
  using assms by (auto simp: layout_def bg_free_blocks_count_def bg_free_inodes_count_def BGD_def data_start_def)

lemma taken_block:
  assumes "layout m" and "i < n_blocks m"
  shows "same_header m (taken (bbm m) bg_free_blocks_count i m)"
    and "used_bits (taken (bbm m) bg_free_blocks_count i m) (bbm m) = insert i (used_bits m (bbm m))"
proof -
  show "same_header m (taken (bbm m) bg_free_blocks_count i m)"
    by (rule same_header_taken [OF _ layout_bounds(5) [OF assms(1)]]) simp
  show "used_bits (taken (bbm m) bg_free_blocks_count i m) (bbm m) = insert i (used_bits m (bbm m))"
    by (rule used_bits_taken [OF layout_bounds(3) [OF assms(1)] layout_bounds(1) [OF assms]])
qed

lemma taken_inode:
  assumes "layout m" and "i < n_inodes m"
  shows "same_header m (taken (ibm m) bg_free_inodes_count i m)"
    and "used_bits (taken (ibm m) bg_free_inodes_count i m) (ibm m) = insert i (used_bits m (ibm m))"
proof -
  show "same_header m (taken (ibm m) bg_free_inodes_count i m)"
    by (rule same_header_taken [OF _ layout_bounds(6) [OF assms(1)]]) simp
  show "used_bits (taken (ibm m) bg_free_inodes_count i m) (ibm m) = insert i (used_bits m (ibm m))"
    by (rule used_bits_taken [OF layout_bounds(4) [OF assms(1)] layout_bounds(2) [OF assms]])
qed

interpretation free_blocks: slot_allocator "\<lambda>s. as_slot (find_free_block s)" blocks_in_use
    "\<lambda>s. n_blocks (disk s)" "\<lambda>s. layout (disk s)"
proof
  fix s s' i
  assume l: "layout (disk s)" and a: "as_slot (find_free_block s) = Ok (Some i, s')"
  then have i: "free_block (disk s) = Some i"
    and s': "s' = s\<lparr>disk := taken (bbm (disk s)) bg_free_blocks_count i (disk s)\<rparr>"
    by (auto simp: as_slot_def find_free_block_eq split: option.splits)
  show "i \<notin> blocks_in_use s \<and> i < n_blocks (disk s) \<and> blocks_in_use s' = insert i (blocks_in_use s) \<and>
      layout (disk s') \<and> n_blocks (disk s') = n_blocks (disk s)"
    using i taken_block [OF l, of i] same_header_layout [OF taken_block(1) [OF l, of i]] l
    by (auto simp: free_block_Some s' blocks_in_use_def same_header_def)
next
  fix s s'
  assume l: "layout (disk s)" and "as_slot (find_free_block s) = Ok (None, s')"
  then show "{..<n_blocks (disk s)} \<subseteq> blocks_in_use s \<and> s' = s"
    by (auto simp: as_slot_def find_free_block_eq free_block_def find_upt_None blocks_in_use_def
        split: option.splits)
next
  fix s :: fs
  assume "layout (disk s)"
  then show "\<exists>r. as_slot (find_free_block s) = Ok r"
    by (auto simp: as_slot_def find_free_block_eq split: option.splits)
qed

interpretation free_inodes: slot_allocator "\<lambda>s. as_slot (find_free_inode s)" inodes_in_use
    "\<lambda>s. n_inodes (disk s)" "\<lambda>s. layout (disk s)"
proof
  fix s s' i
  assume l: "layout (disk s)" and a: "as_slot (find_free_inode s) = Ok (Some i, s')"
  then have i: "free_inode (disk s) = Some i"
    and s': "s' = s\<lparr>disk := taken (ibm (disk s)) bg_free_inodes_count i (disk s)\<rparr>"
    by (auto simp: as_slot_def find_free_inode_eq split: option.splits)
  show "i \<notin> inodes_in_use s \<and> i < n_inodes (disk s) \<and> inodes_in_use s' = insert i (inodes_in_use s) \<and>
      layout (disk s') \<and> n_inodes (disk s') = n_inodes (disk s)"
    using i taken_inode [OF l, of i] same_header_layout [OF taken_inode(1) [OF l, of i]] l
    by (auto simp: free_inode_Some s' inodes_in_use_def same_header_def)
next
  fix s s'
  assume l: "layout (disk s)" and "as_slot (find_free_inode s) = Ok (None, s')"
  then show "{..<n_inodes (disk s)} \<subseteq> inodes_in_use s \<and> s' = s"
    by (auto simp: as_slot_def find_free_inode_eq free_inode_def find_upt_None inodes_in_use_def
        not_le split: option.splits)
next
  fix s :: fs
  assume "layout (disk s)"
  then show "\<exists>r. as_slot (find_free_inode s) = Ok r"
    by (auto simp: as_slot_def find_free_inode_eq split: option.splits)
qed

end
