(* ===== verification/Ext2WF.thy ===== *)
theory Ext2WF
  imports Ext2Dir Ext2Bits
begin

section \<open>Well-formed directories and the resolution of paths\<close>

text \<open>
  A directory block is well formed when its entries tile it.  On such blocks the loops of
  \<open>helper.c\<close> are searches in the list of entries, so they end without a fault, and \<open>traverse\<close> is
  the resolution of a path in the tree the directories describe.
\<close>

subsection \<open>Tiled blocks\<close>

fun tiles :: "mem \<Rightarrow> nat \<Rightarrow> nat \<Rightarrow> nat list \<Rightarrow> bool" where
  "tiles m fin p [] \<longleftrightarrow> p = fin"
| "tiles m fin p (q # qs) \<longleftrightarrow> q = p \<and> 8 + name_len_at m p \<le> rec_len_at m p \<and>
     p + rec_len_at m p \<le> fin \<and> tiles m fin (p + rec_len_at m p) qs"

text \<open>The positions of the entries from \<open>p\<close>; a block has at most 128.\<close>

fun positions :: "nat \<Rightarrow> mem \<Rightarrow> nat \<Rightarrow> nat \<Rightarrow> nat list" where
  "positions 0 m fin p = []"
| "positions (Suc k) m fin p = (if p \<ge> fin then [] else p # positions k m fin (p + rec_len_at m p))"

definition entries :: "mem \<Rightarrow> nat \<Rightarrow> nat list" where
  "entries m a = positions 128 m (a + 1024) a"

definition block_ok :: "mem \<Rightarrow> nat \<Rightarrow> bool" where
  "block_ok m a \<longleftrightarrow> a mod 1024 = 0 \<and> a + 1024 \<le> DISK_SIZE \<and> tiles m (a + 1024) a (entries m a)"

lemma tiles_le: "tiles m fin p qs \<Longrightarrow> p \<le> fin"
  by (cases qs) auto

lemma tiles_positions: "tiles m fin p qs \<Longrightarrow> length qs \<le> k \<Longrightarrow> positions k m fin p = qs"
proof (induction k arbitrary: p qs)
  case (Suc k)
  show ?case
  proof (cases qs)
    case (Cons q rest)
    then show ?thesis using Suc.IH [of "p + rec_len_at m p" rest] Suc.prems by auto
  qed (use Suc.prems in auto)
qed auto

lemma tiles_length: "tiles m fin p qs \<Longrightarrow> 8 * length qs \<le> fin - p"
proof (induction qs arbitrary: p)
  case (Cons q qs)
  show ?case using Cons.IH [of "p + rec_len_at m p"] Cons.prems by auto
qed simp

lemma tiles_entries: "tiles m (a + 1024) a qs \<Longrightarrow> entries m a = qs"
  using tiles_positions [of m "a + 1024" a qs 128] tiles_length [of m "a + 1024" a qs]
  by (simp add: entries_def)

lemma block_okI:
  "a mod 1024 = 0 \<Longrightarrow> a + 1024 \<le> DISK_SIZE \<Longrightarrow> tiles m (a + 1024) a qs \<Longrightarrow> block_ok m a"
  using tiles_entries [of m a qs] by (simp add: block_ok_def)

lemma tiles_cong:
  "tiles m fin p qs \<Longrightarrow> (\<And>x. p \<le> x \<Longrightarrow> x < fin \<Longrightarrow> m' x = m x) \<Longrightarrow> tiles m' fin p qs"
proof (induction qs arbitrary: p)
  case (Cons q qs)
  then have "8 \<le> rec_len_at m p" "p + rec_len_at m p \<le> fin" by auto
  then have "name_len_at m' p = name_len_at m p" "rec_len_at m' p = rec_len_at m p"
    using entry_fields_cong [of p m' m] Cons.prems(2) by auto
  then show ?case using Cons.IH [of "p + rec_len_at m p"] Cons.prems by auto
qed simp

lemma block_ok_cong:
  assumes "block_ok m a" and "\<And>x. a \<le> x \<Longrightarrow> x < a + 1024 \<Longrightarrow> m' x = m x"
  shows "block_ok m' a \<and> entries m' a = entries m a"
proof -
  have "tiles m' (a + 1024) a (entries m a)"
    by (rule tiles_cong [of m]) (use assms in \<open>auto simp: block_ok_def\<close>)
  then show ?thesis
    using tiles_entries block_okI assms(1) unfolding block_ok_def by metis
qed

text \<open>Where an entry of a tiling lies.\<close>

lemma tiles_entry:
  "tiles m fin p qs \<Longrightarrow> q \<in> set qs \<Longrightarrow>
    p \<le> q \<and> 8 + name_len_at m q \<le> rec_len_at m q \<and> q + rec_len_at m q \<le> fin"
proof (induction qs arbitrary: p)
  case (Cons r qs)
  have "q = r \<or> q \<in> set qs" "r = p" "tiles m fin (p + rec_len_at m p) qs" "p + rec_len_at m p \<le> fin"
    "8 + name_len_at m p \<le> rec_len_at m p"
    using Cons.prems by auto
  then show ?case using Cons.IH [of "p + rec_len_at m p"] by force
qed simp

lemma block_entry:
  assumes "block_ok m a" and "q \<in> set (entries m a)"
  shows "a \<le> q" and "8 + name_len_at m q \<le> rec_len_at m q" and "q + rec_len_at m q \<le> a + 1024"
    and "q + 8 + name_len_at m q \<le> DISK_SIZE"
proof -
  have "tiles m (a + 1024) a (entries m a)" "a + 1024 \<le> DISK_SIZE"
    using assms(1) by (simp_all add: block_ok_def)
  then show "a \<le> q" "8 + name_len_at m q \<le> rec_len_at m q" "q + rec_len_at m q \<le> a + 1024"
    "q + 8 + name_len_at m q \<le> DISK_SIZE"
    using tiles_entry [of m "a + 1024" a "entries m a" q] assms(2) by auto
qed

lemma tiles_append:
  "tiles m fin p (qs @ rs) \<longleftrightarrow> (\<exists>mid \<le> fin. tiles m mid p qs \<and> tiles m fin mid rs)"
proof (induction qs arbitrary: p)
  case Nil
  then show ?case using tiles_le by auto
next
  case (Cons q qs)
  have le: "p + rec_len_at m p \<le> fin" if "mid \<le> fin" "tiles m mid (p + rec_len_at m p) qs" for mid
    using tiles_le [OF that(2)] that(1) by simp
  show ?case
    unfolding append_Cons tiles.simps Cons.IH using le tiles_le by (auto intro: order_trans)
qed

lemma tiles_at: "tiles m fin p (q # qs) \<Longrightarrow> tiles m fin (q + rec_len_at m q) qs"
  by simp

subsection \<open>The loop over entries as a list function\<close>

fun scan_list :: "(nat \<Rightarrow> nat \<Rightarrow> 'a option) \<Rightarrow> nat \<Rightarrow> nat list \<Rightarrow> 'a option" where
  "scan_list g pre [] = None"
| "scan_list g pre (q # qs) = (case g pre q of Some x \<Rightarrow> Some x | None \<Rightarrow> scan_list g q qs)"

lemma not_block_end: "a mod 1024 = 0 \<Longrightarrow> a < p \<Longrightarrow> p < a + 1024 \<Longrightarrow> p mod 1024 \<noteq> (0 :: nat)"
proof
  assume "a mod 1024 = 0" "a < p" "p < a + 1024" "p mod 1024 = 0"
  moreover from this obtain x y where "a = 1024 * x" "p = 1024 * y"
    by (metis mod_0_imp_dvd dvdE)
  ultimately show False by simp
qed

text \<open>
  The loops of the tools walk a block entry by entry and stop where the position is a multiple of
  the block size: the induction that follows such a walk on a tiled block.
\<close>

lemma walk_induct [consumes 4, case_names last more]:
  assumes "tiles m (a + 1024) p qs" and "qs \<noteq> []" and "a mod 1024 = 0" and "a \<le> p"
    and last: "\<And>q. a \<le> q \<Longrightarrow> 8 + name_len_at m q \<le> rec_len_at m q \<Longrightarrow> q + rec_len_at m q = a + 1024 \<Longrightarrow>
      (q + rec_len_at m q) mod EXT2_BLOCK_SIZE = 0 \<Longrightarrow> P q [q]"
    and more: "\<And>q qs. a \<le> q \<Longrightarrow> 8 + name_len_at m q \<le> rec_len_at m q \<Longrightarrow> q + rec_len_at m q < a + 1024 \<Longrightarrow>
      (q + rec_len_at m q) mod EXT2_BLOCK_SIZE \<noteq> 0 \<Longrightarrow> P (q + rec_len_at m q) qs \<Longrightarrow> P q (q # qs)"
  shows "P p qs"
  using assms(1,2,4)
proof (induction qs arbitrary: p)
  case (Cons q qs)
  let ?l = "rec_len_at m p"
  have q: "q = p" "8 + name_len_at m p \<le> ?l" "tiles m (a + 1024) (p + ?l) qs" using Cons.prems(1) by auto
  show ?case
  proof (cases qs)
    case Nil
    then show ?thesis using last [of p] q Cons.prems(3) assms(3) by (simp add: EXT2_BLOCK_SIZE_def)
  next
    case (Cons r rs)
    then have lt: "p + ?l < a + 1024" using q(3) tiles_entry [of m "a + 1024" "p + ?l" qs r] by auto
    moreover have "(p + ?l) mod 1024 \<noteq> 0" using not_block_end [of a "p + ?l"] lt q(2) Cons.prems(3) assms(3) by simp
    ultimately show ?thesis
      using more [of p qs] Cons.IH [of "p + ?l"] q Cons Cons.prems(3) by (auto simp: EXT2_BLOCK_SIZE_def)
  qed
qed simp

lemma scan_tiles:
  assumes "tiles (disk s) (a + 1024) p qs" and "qs \<noteq> []" and "a mod 1024 = 0" and "a \<le> p"
    and "a + 1024 \<le> DISK_SIZE" and "\<And>pre q. q \<in> set qs \<Longrightarrow> f pre q s = Ok (g pre q)"
  shows "scan f pre p s = Ok (scan_list g pre qs)"
  using assms(1-4,6)
proof (induction arbitrary: pre rule: walk_induct)
  case (last q)
  then show ?case using assms(5) by (auto simp: scan.simps fs_simps split: option.splits)
next
  case (more q qs)
  then show ?case using assms(5) by (auto simp: scan.simps [of f pre q] fs_simps split: option.splits)
qed

lemma entries_not_Nil: "block_ok m a \<Longrightarrow> \<exists>qs. entries m a = a # qs"
  by (cases "entries m a") (auto simp: block_ok_def)

lemma scan_block:
  assumes "block_ok (disk s) a" and "\<And>pre q. q \<in> set (entries (disk s) a) \<Longrightarrow> f pre q s = Ok (g pre q)"
  shows "scan f a a s = Ok (scan_list g a (entries (disk s) a))"
  using assms entries_not_Nil [OF assms(1)]
  by (intro scan_tiles [where a = a]) (auto simp: block_ok_def)

lemma scan_list_find:
  "scan_list (\<lambda>pre q. if P q then Some (pre, q) else None) pre qs = Some (r, q) \<Longrightarrow> find P qs = Some q"
  by (induction qs arbitrary: pre) (auto split: if_splits)

lemma scan_list_None:
  "scan_list (\<lambda>pre q. if P q then Some (pre, q) else None) pre qs = None \<longleftrightarrow> find P qs = None"
  by (induction qs arbitrary: pre) (auto split: if_splits)

text \<open>The search for a name in a block.\<close>

definition name_is :: "mem \<Rightarrow> cstr \<Rightarrow> nat \<Rightarrow> bool" where
  "name_is m t q \<longleftrightarrow> entry_name m q = t"

lemma scan_named:
  assumes "block_ok (disk s) a" and "0 \<notin> set t"
  shows "scan (named t) a a s =
    Ok (scan_list (\<lambda>pre q. if name_is (disk s) t q then Some (pre, q) else None) a (entries (disk s) a))"
  by (rule scan_block [OF assms(1)])
    (use block_entry(4) [OF assms(1)] in \<open>simp add: named_def has_name_spec assms(2) name_is_def\<close>)

subsection \<open>The tree\<close>

text \<open>The inode a block belongs to, by its first entry.\<close>

definition dir_of :: "mem \<Rightarrow> nat \<Rightarrow> nat option" where
  "dir_of m a = (if bytes_at 2 m (a + 8) = [46, 0] then Some (inode_at m a) else None)"

definition dir_entries :: "fs \<Rightarrow> nat \<Rightarrow> nat list" where
  "dir_entries s inode = concat (map (\<lambda>b. entries (disk s) (block_addr b))
     (filter (\<lambda>b. dir_of (disk s) (block_addr b) = Some inode) (dirs s)))"

definition lookup :: "fs \<Rightarrow> nat \<Rightarrow> cstr \<Rightarrow> nat option" where
  "lookup s inode t = map_option (inode_at (disk s)) (find (name_is (disk s) t) (dir_entries s inode))"

fun resolve :: "fs \<Rightarrow> nat \<Rightarrow> cstr list \<Rightarrow> nat option" where
  "resolve s inode [] = Some inode"
| "resolve s inode (t # ts) = (case lookup s inode t of None \<Rightarrow> None | Some i \<Rightarrow> resolve s i ts)"

definition dirs_ok :: "fs \<Rightarrow> bool" where
  "dirs_ok s \<longleftrightarrow> (\<forall>b \<in> set (dirs s). block_ok (disk s) (block_addr b))"

lemma is_dir_block_eq:
  assumes "a + 1024 \<le> DISK_SIZE"
  shows "is_dir_block inode a s = Ok (dir_of (disk s) a = Some inode)"
proof -
  have "strcmp_eq dot (a + 8) s = Ok (bytes_at 2 (disk s) (a + 8) = [46, 0])"
  proof -
    have "length dot + 1 = 2" "dot @ [0] = [46, 0]" "0 \<notin> set dot" by (simp_all add: dot_def)
    then show ?thesis using strcmp_eq_spec [of "a + 8" dot s] assms by (simp only:) simp
  qed
  then show ?thesis
    using assms by (auto simp: is_dir_block_def dir_of_def de_name_def fs_simps)
qed

text \<open>A search through the blocks of one directory; the blocks are the list \<open>bs\<close>.\<close>

lemma step_in_find:
  assumes "\<forall>b \<in> set bs. block_ok (disk s) (block_addr b)" and "0 \<notin> set t"
  shows "step_in inode t bs s = Ok (find (name_is (disk s) t) (concat (map (\<lambda>b. entries (disk s) (block_addr b))
     (filter (\<lambda>b. dir_of (disk s) (block_addr b) = Some inode) bs))))"
  using assms(1)
proof (induction bs)
  case (Cons b bs)
  have b: "block_ok (disk s) (block_addr b)" using Cons.prems by simp
  then have d: "is_dir_block inode (block_addr b) s = Ok (dir_of (disk s) (block_addr b) = Some inode)"
    by (intro is_dir_block_eq) (simp add: block_ok_def)
  show ?case
    using Cons d by (auto simp: scan_named [OF b assms(2)] find_append scan_list_None
        split: option.splits dest!: scan_list_find)
qed simp

lemma search_dirs_find:
  assumes "\<forall>b \<in> set bs. block_ok (disk s) (block_addr b)" and "0 \<notin> set t"
  shows "\<exists>r. search_dirs t bs s = Ok r \<and>
    map_option snd r = find (name_is (disk s) t) (concat (map (\<lambda>b. entries (disk s) (block_addr b)) bs))"
  using assms(1)
proof (induction bs)
  case (Cons b bs)
  have b: "block_ok (disk s) (block_addr b)" using Cons.prems by simp
  show ?case
    using Cons by (auto simp: scan_named [OF b assms(2)] find_append scan_list_None
        split: option.splits dest!: scan_list_find)
qed simp

lemma dir_block_of_find:
  assumes "\<forall>b \<in> set bs. block_ok (disk s) (block_addr b)"
  shows "dir_block_of inode bs s =
    Ok (map_option block_addr (find (\<lambda>b. dir_of (disk s) (block_addr b) = Some inode) bs))"
  using assms by (induction bs) (auto simp: is_dir_block_eq block_ok_def)

lemma find_Some_in: "find P xs = Some x \<Longrightarrow> x \<in> set xs \<and> P x"
  by (auto simp: find_Some_iff)

lemma dir_entries_block:
  assumes "dirs_ok s" and "q \<in> set (dir_entries s inode)"
  obtains b where "b \<in> set (dirs s)" and "block_ok (disk s) (block_addr b)"
    and "q \<in> set (entries (disk s) (block_addr b))"
  using assms by (auto simp: dir_entries_def dirs_ok_def)

subsection \<open>traverse\<close>

text \<open>
  \<open>traverse\<close> stops at the first component equal to the last one: it resolves the shortest prefix
  of the path that ends in \<open>filename\<close>.
\<close>

lemma traverse_resolve:
  assumes "dirs_ok s" and "f \<in> set toks" and "f \<noteq> [slash]" and "\<forall>t \<in> set toks. 0 \<notin> set t"
  shows "traverse inode toks f s =
    Ok (case resolve s inode (takeWhile (\<lambda>t. t \<noteq> f) toks @ [f]) of None \<Rightarrow> 0 | Some i \<Rightarrow> i)"
  using assms(2,4)
proof (induction toks arbitrary: inode)
  case (Cons t toks)
  have t0: "0 \<notin> set t" and f0: "0 \<notin> set f" using Cons.prems by auto
  have step: "step_in inode t (dirs s) s = Ok (find (name_is (disk s) t) (dir_entries s inode))"
    using step_in_find [of "dirs s" s t inode] assms(1) t0 by (simp add: dirs_ok_def dir_entries_def)
  show ?case
  proof (cases "find (name_is (disk s) t) (dir_entries s inode)")
    case None
    then have "lookup s inode t = None" by (simp add: lookup_def)
    then show ?thesis using None step assms(3) by (auto split: option.splits)
  next
    case (Some q)
    then have q: "q \<in> set (dir_entries s inode)" "entry_name (disk s) q = t"
      using find_Some_in [OF Some] by (auto simp: name_is_def)
    obtain b where b: "block_ok (disk s) (block_addr b)" "q \<in> set (entries (disk s) (block_addr b))"
      using dir_entries_block [OF assms(1) q(1)] by blast
    have "q + 8 + name_len_at (disk s) q \<le> DISK_SIZE" by (rule block_entry [OF b])
    then have "has_name f q s = Ok (t = f)" "de_inode q s = Ok (inode_at (disk s) q)"
      using has_name_spec [of q s f] f0 q(2) by (auto simp: fs_simps)
    moreover have "lookup s inode t = Some (inode_at (disk s) q)" using Some by (simp add: lookup_def)
    ultimately show ?thesis
      using Cons.IH [of "inode_at (disk s) q"] Cons.prems step Some assms(3) by auto
  qed
qed simp

end
