(* ===== verification/Ext2Link.thy ===== *)
theory Ext2Link
  imports Ext2WF
begin

section \<open>A new entry in a directory\<close>

text \<open>
  What \<open>create_link\<close> does to a well-formed directory: the first entry with room is split, the new
  entry follows it, and every name that was there is still found with its inode.
\<close>

subsection \<open>The memory after the split\<close>

definition split_mem :: "nat \<Rightarrow> nat \<Rightarrow> nat \<Rightarrow> nat \<Rightarrow> cstr \<Rightarrow> nat \<Rightarrow> mem \<Rightarrow> mem" where
  "split_mem q L D inode name mode m =
     wr 4 (q + D) inode (wr 2 (q + D + 4) (L - D) (wr 1 (q + D + 6) (length name)
       (blit (name @ [0]) (q + D + 8) (wr 1 (q + D + 7) mode (wr 2 (q + 4) D m)))))"

lemma split_entry_eq:
  assumes "D < 65536" and "q + 8 \<le> DISK_SIZE" and "q + D + 9 + length name \<le> DISK_SIZE"
  shows "split_entry q L D inode name mode s = Ok (s\<lparr>disk := split_mem q L D inode name mode (disk s)\<rparr>)"
proof -
  have "rec_len_at (wr 2 (q + 4) D (disk s)) q = D"
    using assms(1) by (simp add: rec_len_at_def rd_wr_same)
  then show ?thesis
    using assms by (simp add: split_entry_def split_mem_def fs_simps de_name_def add.assoc)
qed

lemma split_mem_other:
  "x < q + 4 \<or> q + 6 \<le> x \<and> x < q + D \<or> q + D + 9 + length name \<le> x \<Longrightarrow> 6 \<le> D \<Longrightarrow>
    split_mem q L D inode name mode m x = m x"
  by (auto simp: split_mem_def wr_other blit_other)

text \<open>The fields of the entry that was split and of the new one.\<close>

lemma rd_blit_other: "a + n \<le> b \<or> b + length bs \<le> a \<Longrightarrow> rd n (blit bs b m) a = rd n m a"
  by (rule rd_cong) (auto simp: blit_other)

lemma split_mem_old:
  assumes "8 \<le> D" and "D < 65536"
  shows "rec_len_at (split_mem q L D inode name mode m) q = D"
    and "name_len_at (split_mem q L D inode name mode m) q = name_len_at m q"
    and "inode_at (split_mem q L D inode name mode m) q = inode_at m q"
  using assms by (simp_all add: entry_fields split_mem_def rd_wr_other rd_wr_same rd_blit_other del: One_nat_def)

lemma split_mem_new:
  assumes "8 \<le> D" and "L < 65536" and "length name < 256"
  shows "inode_at (split_mem q L D inode name mode m) (q + D) = inode mod 2 ^ 32"
    and "rec_len_at (split_mem q L D inode name mode m) (q + D) = L - D"
    and "name_len_at (split_mem q L D inode name mode m) (q + D) = length name"
    and "file_type_at (split_mem q L D inode name mode m) (q + D) = mode mod 256"
    and "entry_name (split_mem q L D inode name mode m) (q + D) = name"
proof -
  let ?m = "split_mem q L D inode name mode m"
  show "inode_at ?m (q + D) = inode mod 2 ^ 32" "rec_len_at ?m (q + D) = L - D"
    "file_type_at ?m (q + D) = mode mod 256"
    using assms by (simp_all add: entry_fields split_mem_def rd_wr_other rd_wr_same rd_blit_other del: One_nat_def)
  show n: "name_len_at ?m (q + D) = length name"
    using assms by (simp add: entry_fields split_mem_def rd_wr_other rd_wr_same del: One_nat_def)
  have "bytes_at (length name) ?m (q + D + 8) =
      bytes_at (length name) (blit (name @ [0]) (q + D + 8) (wr 1 (q + D + 7) mode (wr 2 (q + 4) D m))) (q + D + 8)"
    unfolding split_mem_def by (rule bytes_at_cong) (simp add: wr_other)
  also have "\<dots> = name"
    by (rule nth_equalityI) (auto simp: bytes_at_def blit_def nth_append)
  finally show "entry_name ?m (q + D) = name" by (simp add: entry_name_def n)
qed

lemma round_up_bounds: "n < round_up n" "round_up n \<le> n + 4" "round_up n mod 4 = 0"
  unfolding round_up_def Let_def by presburger+

lemma dir_size_bounds: "12 \<le> dir_size_for n" "8 + n < dir_size_for n" "dir_size_for n \<le> n + 12"
  using round_up_bounds [of "4 + 2 + 1 + n + 1"] by (simp_all add: dir_size_for_def) presburger

subsection \<open>The block after the split\<close>

definition room :: "mem \<Rightarrow> nat \<Rightarrow> nat \<Rightarrow> bool" where
  "room m T q \<longleftrightarrow> dir_size_for (name_len_at m q) + T \<le> rec_len_at m q"

lemma scan_has_room:
  assumes "block_ok (disk s) a"
  shows "scan (has_room T) a a s = Ok (map_option
    (\<lambda>q. (q, rec_len_at (disk s) q, dir_size_for (name_len_at (disk s) q)))
    (find (room (disk s) T) (entries (disk s) a)))"
proof -
  let ?g = "\<lambda>pre q. if room (disk s) T q
      then Some (q, rec_len_at (disk s) q, dir_size_for (name_len_at (disk s) q)) else None"
  have "scan (has_room T) a a s = Ok (scan_list ?g a (entries (disk s) a))"
  proof (rule scan_block [OF assms])
    fix pre q assume "q \<in> set (entries (disk s) a)"
    then have "q + 8 \<le> DISK_SIZE" using block_entry(4) [OF assms, of q] by simp
    then show "has_room T pre q s = Ok (?g pre q)" by (simp add: has_room_def room_def fs_simps)
  qed
  moreover have "scan_list ?g pre qs = map_option
      (\<lambda>q. (q, rec_len_at (disk s) q, dir_size_for (name_len_at (disk s) q))) (find (room (disk s) T) qs)"
    for pre qs by (induction qs arbitrary: pre) auto
  ultimately show ?thesis by simp
qed

text \<open>
  The assumptions of this subsection: \<open>q\<close> is an entry with room for the new one, whose bytes with
  the final zero of the name fit in \<open>T\<close>.
\<close>

definition splits :: "mem \<Rightarrow> nat \<Rightarrow> nat \<Rightarrow> nat \<Rightarrow> cstr \<Rightarrow> bool" where
  "splits m a q T name \<longleftrightarrow> block_ok m a \<and> q \<in> set (entries m a) \<and> room m T q \<and>
     9 + length name \<le> T \<and> length name < 256"

abbreviation linked :: "nat \<Rightarrow> nat \<Rightarrow> cstr \<Rightarrow> nat \<Rightarrow> mem \<Rightarrow> mem" where
  "linked q inode name mode m \<equiv>
     split_mem q (rec_len_at m q) (dir_size_for (name_len_at m q)) inode name mode m"

lemma splits_bounds:
  assumes "splits m a q T name"
  defines "D \<equiv> dir_size_for (name_len_at m q)" and "L \<equiv> rec_len_at m q"
  shows "a \<le> q" and "q + L \<le> a + 1024" and "12 \<le> D" and "8 + name_len_at m q < D" and "D < 65536"
    and "D + 9 + length name \<le> L" and "L < 65536" and "a + 1024 \<le> DISK_SIZE" and "L \<le> 1024"
proof -
  have b: "block_ok m a" "q \<in> set (entries m a)" "D + T \<le> L" "9 + length name \<le> T"
    using assms by (auto simp: splits_def room_def)
  show "a \<le> q" "q + L \<le> a + 1024"
    using block_entry [OF b(1,2)] by (simp_all add: L_def)
  then show "L \<le> 1024" "L < 65536" by auto
  then show "D < 65536" using b(3) by simp
  show "12 \<le> D" "8 + name_len_at m q < D" by (simp_all add: D_def dir_size_bounds)
  show "D + 9 + length name \<le> L" using b by simp
  show "a + 1024 \<le> DISK_SIZE" using b(1) by (simp add: block_ok_def)
qed

lemma linked_other:
  assumes "splits m a q T name" and "x < q + 4 \<or> q + 6 \<le> x \<and> x < q + dir_size_for (name_len_at m q) \<or>
    q + rec_len_at m q \<le> x"
  shows "linked q inode name mode m x = m x"
  using assms(2) splits_bounds [OF assms(1)] by (intro split_mem_other) auto

text \<open>Entries other than the split one keep all their bytes; the split one keeps name and inode.\<close>

lemma linked_entry:
  assumes s: "splits m a q T name" and r: "r \<in> set (entries m a)"
  shows "entry_name (linked q inode name mode m) r = entry_name m r \<and>
    inode_at (linked q inode name mode m) r = inode_at m r"
proof (cases "r = q")
  case True
  note b = splits_bounds [OF s]
  have "name_len_at (linked q inode name mode m) q = name_len_at m q"
    using b by (simp add: split_mem_old)
  then have "entry_name (linked q inode name mode m) q = entry_name m q"
    unfolding entry_name_def
    by (simp only:) (rule bytes_at_cong, rule linked_other [OF s], use b in auto)
  then show ?thesis using True b by (simp add: split_mem_old)
next
  case False
  have t: "tiles m (a + 1024) a (entries m a)" and q: "q \<in> set (entries m a)"
    using s by (auto simp: splits_def block_ok_def)
  have apart: "r + rec_len_at m r \<le> q \<or> q + rec_len_at m q \<le> r"
    if "tiles m fin p qs" "q \<in> set qs" "r \<in> set qs" for p qs fin
    using that
  proof (induction qs arbitrary: p)
    case (Cons x xs)
    then show ?case
      using False tiles_entry [of m fin "p + rec_len_at m p" xs q]
        tiles_entry [of m fin "p + rec_len_at m p" xs r] by auto
  qed simp
  have "8 + name_len_at m r \<le> rec_len_at m r" using s r by (auto simp: splits_def dest: block_entry(2))
  then have same: "linked q inode name mode m x = m x" if "r \<le> x" "x < r + 8 + name_len_at m r" for x
    using apart [OF t q r] that by (intro linked_other [OF s]) auto
  then have "entry_name (linked q inode name mode m) r = entry_name m r"
    by (rule entry_name_cong) auto
  moreover have "inode_at (linked q inode name mode m) r = inode_at m r"
    using entry_fields_cong [of r "linked q inode name mode m" m] same by simp
  ultimately show ?thesis by simp
qed

lemma linked_entries:
  assumes s: "splits m a q T name"
  defines "D \<equiv> dir_size_for (name_len_at m q)"
  obtains ps1 ps2 where "entries m a = ps1 @ q # ps2"
    and "entries (linked q inode name mode m) a = ps1 @ q # (q + D) # ps2"
    and "block_ok (linked q inode name mode m) a"
proof -
  let ?m = "linked q inode name mode m"
  note b = splits_bounds [OF s, folded D_def]
  obtain ps1 ps2 where ps: "entries m a = ps1 @ q # ps2"
    using s by (auto simp: splits_def dest: split_list)
  have t: "tiles m (a + 1024) a (ps1 @ q # ps2)" and a: "a mod 1024 = 0"
    using s ps by (auto simp: splits_def block_ok_def)
  then obtain mid where mid: "tiles m mid a ps1" "tiles m (a + 1024) mid (q # ps2)" "mid \<le> a + 1024"
    by (auto simp: tiles_append)
  then have [simp]: "mid = q" by simp
  have "tiles m q a ps1" using mid(1) by simp
  then have before: "tiles ?m q a ps1"
    by (rule tiles_cong) (rule linked_other [OF s], simp)
  have "tiles m (a + 1024) (q + rec_len_at m q) ps2" using mid(2) by simp
  then have after: "tiles ?m (a + 1024) (q + rec_len_at m q) ps2"
    by (rule tiles_cong) (rule linked_other [OF s], simp)
  have "rec_len_at ?m q = D" "name_len_at ?m q = name_len_at m q"
    "rec_len_at ?m (q + D) = rec_len_at m q - D" "name_len_at ?m (q + D) = length name"
    using b s by (simp_all add: split_mem_old split_mem_new D_def splits_def)
  then have "tiles ?m (a + 1024) q (q # (q + D) # ps2)"
    using b after by simp
  then have new: "tiles ?m (a + 1024) a (ps1 @ q # (q + D) # ps2)"
    unfolding tiles_append using before mid(3) by auto
  show ?thesis
    by (rule that [OF ps tiles_entries [OF new] block_okI [OF a b(8) new]])
qed

lemma dir_of_linked:
  assumes "splits m a q T name"
  shows "dir_of (linked q inode name mode m) a = dir_of m a"
proof -
  have "q = a \<or> a + 8 \<le> q"
  proof -
    obtain qs where qs: "entries m a = a # qs" "tiles m (a + 1024) (a + rec_len_at m a) qs" "8 \<le> rec_len_at m a"
      using assms entries_not_Nil [of m a] by (auto simp: splits_def block_ok_def)
    have "q \<in> set (a # qs)" using assms qs(1) by (simp add: splits_def)
    then show ?thesis using tiles_entry [OF qs(2), of q] qs(3) by auto
  qed
  then have same: "linked q inode name mode m x = m x" if "a \<le> x" "x < a + 4 \<or> a + 8 \<le> x \<and> x < a + 10" for x
    using that splits_bounds [OF assms] by (intro linked_other [OF assms]) auto
  have "bytes_at 2 (linked q inode name mode m) (a + 8) = bytes_at 2 m (a + 8)"
    by (rule bytes_at_cong) (auto intro: same)
  moreover have "rd 4 (linked q inode name mode m) a = rd 4 m a"
    by (rule rd_cong) (auto intro: same)
  ultimately show ?thesis by (simp add: dir_of_def inode_at_def)
qed

subsection \<open>Lookups after the change of a block\<close>

text \<open>A block that reads as before, and one that reads as before but for a new entry \<open>r\<close>.\<close>

definition same_names :: "mem \<Rightarrow> mem \<Rightarrow> nat \<Rightarrow> bool" where
  "same_names m m' a \<longleftrightarrow> dir_of m' a = dir_of m a \<and> (\<forall>q \<in> set (entries m a).
     entry_name m' q = entry_name m q \<and> inode_at m' q = inode_at m q)"

definition same_block :: "mem \<Rightarrow> mem \<Rightarrow> nat \<Rightarrow> bool" where
  "same_block m m' a \<longleftrightarrow> same_names m m' a \<and> block_ok m' a \<and> entries m' a = entries m a"

definition grown_block :: "mem \<Rightarrow> mem \<Rightarrow> nat \<Rightarrow> nat \<Rightarrow> bool" where
  "grown_block m m' a r \<longleftrightarrow> same_names m m' a \<and> block_ok m' a \<and>
     (\<exists>ps1 ps2. entries m a = ps1 @ ps2 \<and> entries m' a = ps1 @ r # ps2)"

lemma same_blockI:
  assumes "block_ok m a" and "\<And>x. a \<le> x \<Longrightarrow> x < a + 1024 \<Longrightarrow> m' x = m x"
  shows "same_block m m' a"
proof -
  have "entry_name m' q = entry_name m q \<and> inode_at m' q = inode_at m q" if q: "q \<in> set (entries m a)" for q
  proof -
    note b = block_entry [OF assms(1) q]
    have "\<And>x. q \<le> x \<Longrightarrow> x < q + 8 + name_len_at m q \<Longrightarrow> m' x = m x"
      using b by (intro assms(2)) auto
    then show ?thesis
      using entry_name_cong [of q m m'] entry_fields_cong [of q m' m] by simp
  qed
  moreover have "bytes_at 2 m' (a + 8) = bytes_at 2 m (a + 8)"
    by (rule bytes_at_cong) (simp add: assms(2))
  moreover have "inode_at m' a = inode_at m a"
    using entry_fields_cong [of a m' m] assms(2) by simp
  ultimately show ?thesis
    using block_ok_cong [OF assms] by (simp add: same_block_def same_names_def dir_of_def)
qed

lemma linked_grown:
  assumes "splits m a q T name"
  shows "grown_block m (linked q inode name mode m) a (q + dir_size_for (name_len_at m q))"
proof -
  obtain ps1 ps2 where "entries m a = (ps1 @ [q]) @ ps2"
    "entries (linked q inode name mode m) a = (ps1 @ [q]) @ (q + dir_size_for (name_len_at m q)) # ps2"
    "block_ok (linked q inode name mode m) a"
    using linked_entries [OF assms, of inode mode] by (metis append.assoc append_Cons append_Nil)
  then show ?thesis
    using linked_entry [OF assms] dir_of_linked [OF assms] unfolding grown_block_def same_names_def by blast
qed

definition matches :: "mem \<Rightarrow> cstr \<Rightarrow> nat \<Rightarrow> nat list" where
  "matches m t a = filter (name_is m t) (entries m a)"

lemma matches_same: "same_block m m' a \<Longrightarrow> matches m' t a = matches m t a"
  by (auto simp: matches_def same_block_def same_names_def name_is_def intro!: filter_cong)

lemma matches_grown:
  assumes "grown_block m m' a r"
  shows "entry_name m' r \<noteq> t \<Longrightarrow> matches m' t a = matches m t a"
    and "entry_name m' r = t \<Longrightarrow> matches m t a = [] \<Longrightarrow> matches m' t a = [r]"
proof -
  obtain ps1 ps2 where ps: "entries m a = ps1 @ ps2" "entries m' a = ps1 @ r # ps2"
    using assms by (auto simp: grown_block_def)
  have "filter (name_is m' t) ps1 = filter (name_is m t) ps1" "filter (name_is m' t) ps2 = filter (name_is m t) ps2"
    using assms ps by (auto simp: grown_block_def same_names_def name_is_def intro!: filter_cong)
  then show "entry_name m' r \<noteq> t \<Longrightarrow> matches m' t a = matches m t a"
    "entry_name m' r = t \<Longrightarrow> matches m t a = [] \<Longrightarrow> matches m' t a = [r]"
    using ps by (auto simp: matches_def name_is_def)
qed

definition first_inode :: "mem \<Rightarrow> nat list \<Rightarrow> nat option" where
  "first_inode m qs = (case qs of [] \<Rightarrow> None | q # _ \<Rightarrow> Some (inode_at m q))"

lemma first_inode_simps [simp]:
  "first_inode m [] = None" "first_inode m (q # qs) = Some (inode_at m q)"
  by (simp_all add: first_inode_def)

lemma first_inode_None [simp]: "first_inode m qs = None \<longleftrightarrow> qs = []"
  by (cases qs) auto

lemma first_inode_cong: "(\<And>q. q \<in> set qs \<Longrightarrow> inode_at m' q = inode_at m q) \<Longrightarrow> first_inode m' qs = first_inode m qs"
  by (cases qs) auto

lemma find_first_inode: "map_option (inode_at m) (find P qs) = first_inode m (filter P qs)"
  by (induction qs) auto

text \<open>The entries with a name in the blocks of a directory.\<close>

definition found :: "fs \<Rightarrow> nat \<Rightarrow> cstr \<Rightarrow> nat list" where
  "found s i t = concat (map (\<lambda>b. matches (disk s) t (block_addr b))
     (filter (\<lambda>b. dir_of (disk s) (block_addr b) = Some i) (dirs s)))"

lemma lookup_found: "lookup s i t = first_inode (disk s) (found s i t)"
  by (simp only: lookup_def find_first_inode dir_entries_def filter_concat found_def matches_def map_map comp_def)

text \<open>One block grows by the entry \<open>r\<close>, the others read as before.\<close>

definition grows :: "fs \<Rightarrow> fs \<Rightarrow> nat \<Rightarrow> nat \<Rightarrow> bool" where
  "grows s s' a r \<longleftrightarrow> dirs s' = dirs s \<and> (\<forall>b \<in> set (dirs s).
     if block_addr b = a then grown_block (disk s) (disk s') a r
     else same_block (disk s) (disk s') (block_addr b))"

lemma grows_dirs_ok: "grows s s' a r \<Longrightarrow> dirs_ok s'"
  by (auto simp: grows_def dirs_ok_def grown_block_def same_block_def split: if_splits)

lemma grows_names:
  assumes "grows s s' a r" and "b \<in> set (dirs s)"
  shows "dir_of (disk s') (block_addr b) = dir_of (disk s) (block_addr b)"
    and "q \<in> set (entries (disk s) (block_addr b)) \<Longrightarrow> inode_at (disk s') q = inode_at (disk s) q"
  using assms by (auto simp: grows_def grown_block_def same_block_def same_names_def split: if_splits)

lemma grows_matches:
  assumes "grows s s' a r" and "b \<in> set (dirs s)" and "block_addr b \<noteq> a \<or> entry_name (disk s') r \<noteq> t"
  shows "matches (disk s') t (block_addr b) = matches (disk s) t (block_addr b)"
  using assms by (cases "block_addr b = a") (auto simp: grows_def matches_same matches_grown)

lemma matches_entries: "q \<in> set (matches m t a) \<Longrightarrow> q \<in> set (entries m a)"
  by (simp add: matches_def)

lemma grows_dir_filter:
  assumes "grows s s' a r"
  shows "filter (\<lambda>b. dir_of (disk s') (block_addr b) = Some i) (dirs s') =
    filter (\<lambda>b. dir_of (disk s) (block_addr b) = Some i) (dirs s)"
  using assms grows_names(1) [OF assms] by (auto simp: grows_def intro!: filter_cong)

lemma lookup_grows_other:
  assumes g: "grows s s' a r" and other: "dir_of (disk s) a \<noteq> Some i \<or> entry_name (disk s') r \<noteq> t"
  shows "lookup s' i t = lookup s i t"
proof -
  have "matches (disk s') t (block_addr b) = matches (disk s) t (block_addr b)"
    if "b \<in> set (dirs s)" "dir_of (disk s) (block_addr b) = Some i" for b
    using that other by (intro grows_matches [OF g]) auto
  then have "found s' i t = found s i t"
    unfolding found_def grows_dir_filter [OF g] by (intro arg_cong [where f = concat] map_cong) auto
  moreover have "inode_at (disk s') q = inode_at (disk s) q" if "q \<in> set (found s i t)" for q
    using that by (auto simp: found_def dest!: matches_entries intro: grows_names(2) [OF g])
  ultimately show ?thesis
    unfolding lookup_found by (auto intro: first_inode_cong)
qed

lemma lookup_grows_new:
  assumes g: "grows s s' a r" and a: "b0 \<in> set (dirs s)" "block_addr b0 = a" "dir_of (disk s) a = Some i"
    and none: "lookup s i (entry_name (disk s') r) = None"
  shows "lookup s' i (entry_name (disk s') r) = Some (inode_at (disk s') r)"
proof -
  let ?t = "entry_name (disk s') r"
  let ?bs = "filter (\<lambda>b. dir_of (disk s) (block_addr b) = Some i) (dirs s)"
  have found: "found s' i ?t = concat (map (\<lambda>b. matches (disk s') ?t (block_addr b)) ?bs)"
    unfolding found_def grows_dir_filter [OF g] ..
  have old: "matches (disk s) ?t (block_addr b) = []" if "b \<in> set ?bs" for b
    using none that by (auto simp: lookup_found found_def)
  have each: "matches (disk s') ?t (block_addr b) = (if block_addr b = a then [r] else [])" if "b \<in> set ?bs" for b
  proof (cases "block_addr b = a")
    case True
    then have "grown_block (disk s) (disk s') a r" using g that by (auto simp: grows_def)
    then show ?thesis using True old [OF that] matches_grown(2) by simp
  next
    case False
    then show ?thesis using grows_matches [OF g, of b ?t] old [OF that] that by simp
  qed
  have "set (found s' i ?t) \<subseteq> {r}" unfolding found using each by (auto split: if_splits)
  moreover have "r \<in> set (found s' i ?t)" unfolding found using each [of b0] a by auto
  ultimately obtain c where "found s' i ?t = r # c" by (cases "found s' i ?t") auto
  then show ?thesis by (simp add: lookup_found)
qed

subsection \<open>create_link\<close>

text \<open>The block of a directory that \<open>create_link\<close> works on: its first.\<close>

definition dir_addr :: "fs \<Rightarrow> nat \<Rightarrow> nat option" where
  "dir_addr s inode = map_option block_addr (find (\<lambda>b. dir_of (disk s) (block_addr b) = Some inode) (dirs s))"

lemma dir_addr_Some:
  assumes "dir_addr s p = Some a"
  obtains b where "b \<in> set (dirs s)" and "a = block_addr b" and "dir_of (disk s) a = Some p"
  using assms find_Some_in by (force simp: dir_addr_def)

lemma total_size_bound: "mode \<noteq> EXT2_FT_SYMLINK \<Longrightarrow> 9 + length name \<le> total_size_for name mode"
  using round_up_bounds(1) [of "4 + 2 + PTR_SIZE + length name + FT_SIZE"]
  by (simp add: total_size_for_def PTR_SIZE_def FT_SIZE_def)

lemma create_link_eq:
  assumes "dirs_ok s" and "dir_addr s p = Some a" and "length name < 256" and "mode \<noteq> EXT2_FT_SYMLINK"
  shows "create_link p i name mode s =
    Ok (case find (room (disk s) (total_size_for name mode)) (entries (disk s) a) of
          None \<Rightarrow> (0, s)
        | Some q \<Rightarrow> (1, s\<lparr>disk := linked q i name mode (disk s)\<rparr>))"
proof -
  let ?T = "total_size_for name mode"
  obtain b where b: "b \<in> set (dirs s)" "a = block_addr b" using dir_addr_Some [OF assms(2)] by blast
  then have ok: "block_ok (disk s) a" using assms(1) by (simp add: dirs_ok_def)
  have pos: "find_dir_block_pos p s = Ok (Some a)"
    using dir_block_of_find [of "dirs s" s p] assms(1,2) by (simp add: find_dir_block_pos_def dirs_ok_def dir_addr_def)
  show ?thesis
  proof (cases "find (room (disk s) ?T) (entries (disk s) a)")
    case None
    then show ?thesis by (simp add: create_link_def pos scan_has_room [OF ok])
  next
    case (Some q)
    then have s: "splits (disk s) a q ?T name"
      using find_Some_in [OF Some] ok assms(3) total_size_bound [OF assms(4)] by (simp add: splits_def)
    note b = splits_bounds [OF s]
    have "split_entry q (rec_len_at (disk s) q) (dir_size_for (name_len_at (disk s) q)) i name mode s =
        Ok (s\<lparr>disk := linked q i name mode (disk s)\<rparr>)"
      by (rule split_entry_eq) (use b in auto)
    then show ?thesis using Some by (simp add: create_link_def pos scan_has_room [OF ok])
  qed
qed

text \<open>Blocks of the disk do not overlap.\<close>

lemma blocks_apart: "block_ok m a \<Longrightarrow> block_ok m' b \<Longrightarrow> a \<noteq> b \<Longrightarrow> a + 1024 \<le> b \<or> b + 1024 \<le> a"
proof -
  assume "block_ok m a" "block_ok m' b" "a \<noteq> b"
  moreover from this obtain x y where "a = 1024 * x" "b = 1024 * y"
    by (auto simp: block_ok_def elim!: dvdE dest!: mod_0_imp_dvd)
  ultimately show ?thesis by auto
qed

lemma linked_grows:
  assumes "dirs_ok s" and "splits (disk s) a q T name"
  shows "grows s (s\<lparr>disk := linked q i name mode (disk s)\<rparr>) a (q + dir_size_for (name_len_at (disk s) q))"
  unfolding grows_def
proof (intro conjI ballI)
  fix b assume b: "b \<in> set (dirs s)"
  show "if block_addr b = a then grown_block (disk s) (disk (s\<lparr>disk := linked q i name mode (disk s)\<rparr>)) a
          (q + dir_size_for (name_len_at (disk s) q))
        else same_block (disk s) (disk (s\<lparr>disk := linked q i name mode (disk s)\<rparr>)) (block_addr b)"
  proof (cases "block_addr b = a")
    case True
    then show ?thesis using linked_grown [OF assms(2)] by simp
  next
    case False
    have ok: "block_ok (disk s) (block_addr b)" using assms(1) b by (simp add: dirs_ok_def)
    moreover have "block_ok (disk s) a" using assms(2) by (simp add: splits_def)
    ultimately have apart: "a + 1024 \<le> block_addr b \<or> block_addr b + 1024 \<le> a"
      using blocks_apart False by blast
    have "same_block (disk s) (linked q i name mode (disk s)) (block_addr b)"
      by (rule same_blockI [OF ok], rule linked_other [OF assms(2)])
        (use apart splits_bounds [OF assms(2)] in auto)
    then show ?thesis using False by simp
  qed
qed simp

text \<open>The effect of \<open>create_link\<close> on the names: a new one in the directory, or nothing for want of room.\<close>

definition has_room_in :: "mem \<Rightarrow> nat \<Rightarrow> cstr \<Rightarrow> nat \<Rightarrow> bool" where
  "has_room_in m a name mode \<longleftrightarrow> (\<exists>q \<in> set (entries m a). room m (total_size_for name mode) q)"

lemma has_room_in_cong:
  assumes "block_ok m a" and same: "\<And>x. a \<le> x \<Longrightarrow> m' x = m x" and "has_room_in m a name mode"
  shows "has_room_in m' a name mode"
proof -
  have "room m' T q \<longleftrightarrow> room m T q" if "a \<le> q" for T q
    using entry_fields_cong [of q m' m] same that by (simp add: room_def)
  then show ?thesis
    using assms(3) block_ok_cong [OF assms(1) same] block_entry(1) [OF assms(1)] by (auto simp: has_room_in_def)
qed

lemma create_link_lookup:
  assumes ok: "dirs_ok s" and a: "dir_addr s p = Some a" and name: "length name < 256" "mode \<noteq> EXT2_FT_SYMLINK"
    and i: "i < 2 ^ 32" and none: "lookup s p name = None"
  shows "if has_room_in (disk s) a name mode
    then \<exists>s'. create_link p i name mode s = Ok (1, s') \<and> dirs_ok s' \<and> dirs s' = dirs s \<and> inum s' = inum s \<and>
      (\<forall>x. x < a \<or> a + 1024 \<le> x \<longrightarrow> disk s' x = disk s x) \<and>
      (\<forall>j t. lookup s' j t = (if j = p \<and> t = name then Some i else lookup s j t))
    else create_link p i name mode s = Ok (0, s)"
proof (cases "find (room (disk s) (total_size_for name mode)) (entries (disk s) a)")
  case None
  then have "\<not> has_room_in (disk s) a name mode" by (auto simp: has_room_in_def find_None_iff)
  then show ?thesis using create_link_eq [OF ok a name, of i] None by simp
next
  case (Some q)
  let ?s' = "s\<lparr>disk := linked q i name mode (disk s)\<rparr>" and ?r = "q + dir_size_for (name_len_at (disk s) q)"
  obtain b where b: "b \<in> set (dirs s)" "a = block_addr b" "dir_of (disk s) a = Some p"
    using dir_addr_Some [OF a] by blast
  have sp: "splits (disk s) a q (total_size_for name mode) name"
    using find_Some_in [OF Some] ok b name(1) total_size_bound [OF name(2)] by (simp add: splits_def dirs_ok_def)
  note g = linked_grows [OF ok sp, of i mode] and bs = splits_bounds [OF sp]
  have new: "entry_name (disk ?s') ?r = name" "inode_at (disk ?s') ?r = i"
    using split_mem_new [of "dir_size_for (name_len_at (disk s) q)" "rec_len_at (disk s) q" name q i mode "disk s"]
      bs name i by auto
  have "lookup ?s' j t = (if j = p \<and> t = name then Some i else lookup s j t)" for j t
    using lookup_grows_new [OF g b(1) b(2) [symmetric] b(3)] lookup_grows_other [OF g, of j t] none new b(3) by auto
  moreover have "disk ?s' x = disk s x" if "x < a \<or> a + 1024 \<le> x" for x
    using linked_other [OF sp, of x] bs that by auto
  moreover have "has_room_in (disk s) a name mode"
    using find_Some_in [OF Some] by (auto simp: has_room_in_def)
  ultimately show ?thesis
    using create_link_eq [OF ok a name, of i] Some grows_dirs_ok [OF g] by simp
qed

end
