(* ===== verification/Ext2Cmds.thy ===== *)
theory Ext2Cmds
  imports Ext2Dir
begin

section \<open>The commands (ext2_mkdir.c, ext2_ls.c, ext2_rm.c)\<close>

text \<open>
  The main functions as functions from the argument vector to the exit status, the lines printed
  and the image afterwards (\<open>None\<close> when it was not opened).  What they ask of the system is a
  record of parameters: the files that \<open>mmap\<close> can map, files of the host, the clock, and whether
  \<open>malloc\<close> succeeds.
\<close>

subsection \<open>Environment and outcomes\<close>

record cenv =
  image :: "cstr \<Rightarrow> mem option"
  host :: "cstr \<Rightarrow> byte list option"
  now :: nat
  malloc_ok :: bool

definition ENOENT :: nat where "ENOENT = 2"
definition EEXIST :: nat where "EEXIST = 17"
definition EISDIR :: nat where "EISDIR = 21"

datatype message = Dir_err | Dne_err | Exist_err | Usage | Flag_first | Flag_missing | Line cstr

type_synonym outcome = "nat \<times> message list \<times> mem option"

definition done_with :: "nat \<Rightarrow> message list \<Rightarrow> fs \<Rightarrow> outcome res" where
  "done_with code msgs s = Ok (code, msgs, Some (disk s))"

definition early_exit :: "nat \<Rightarrow> message list \<Rightarrow> outcome res" where
  "early_exit code msgs = Ok (code, msgs, None)"

subsection \<open>mkdir\<close>

text \<open>The new directory once the parent is known: the same lines in both branches.\<close>

definition make_dir :: "nat \<Rightarrow> cstr \<Rightarrow> fs \<Rightarrow> fs res" where
  "make_dir parent_inode dir_name s =
     res_bind (find_free_inode s) (\<lambda>(inode, s).
     res_bind (create_link parent_inode inode dir_name EXT2_FT_DIR s) (\<lambda>(succ, s).
       if succ \<noteq> 0 then allocate inode parent_inode EXT2_S_IFDIR None s else Ok s))"

definition mkdir_path :: "bool \<Rightarrow> cstr \<Rightarrow> fs \<Rightarrow> outcome res" where
  "mkdir_path ok path s =
     (if path = [slash] then done_with EEXIST [Exist_err] s
      else
        res_bind (count_item_in_path ok path) (\<lambda>count.
        res_bind (arr_names ok count path) (\<lambda>names.
          if count = 0 then done_with ENOENT [Dne_err] s
          else if count = 1 then
            res_bind (name_at names (count - 1)) (\<lambda>dir_name.
            res_bind (traverse 2 (tokens path) dir_name s) (\<lambda>dir_inode.
              if dir_inode \<noteq> 0 then done_with EEXIST [Exist_err] s
              else res_bind (make_dir 2 dir_name s) (\<lambda>s. done_with 0 [Dne_err] s)))
          else
            res_bind (name_at names (count - 1)) (\<lambda>dir_name.
            res_bind (name_at names (count - 2)) (\<lambda>parent_name.
            res_bind (get_parent_path ok count path) (\<lambda>parent_path.
            res_bind (traverse 2 (if parent_path = [slash] then [parent_path] else tokens parent_path)
                parent_name s) (\<lambda>parent_inode.
              if parent_inode \<noteq> 0 then
                res_bind (traverse 2 (tokens path) dir_name s) (\<lambda>dir_inode.
                  if dir_inode \<noteq> 0 then done_with EEXIST [Exist_err] s
                  else res_bind (make_dir parent_inode dir_name s) (\<lambda>s. done_with ENOENT [] s))
              else done_with ENOENT [] s)))))))"

definition ext2_mkdir :: "cenv \<Rightarrow> cstr list \<Rightarrow> outcome res" where
  "ext2_mkdir e argv =
     (if length argv \<noteq> 3 then early_exit 1 [Usage]
      else res_bind (init (image e (argv ! 1))) (mkdir_path (malloc_ok e) (argv ! 2)))"

subsection \<open>ls\<close>

text \<open>\<open>printf ("%.*s", n, p)\<close>: at most \<open>n\<close> bytes, up to a zero.\<close>

fun read_name :: "nat \<Rightarrow> nat \<Rightarrow> fs \<Rightarrow> cstr res" where
  "read_name 0 a s = Ok []"
| "read_name (Suc n) a s =
     res_bind (ld_byte a s) (\<lambda>c.
       if c = 0 then Ok [] else res_bind (read_name n (Suc a) s) (\<lambda>t. Ok (c # t)))"

definition print_entry :: "nat \<Rightarrow> fs \<Rightarrow> message list res" where
  "print_entry pos s =
     res_bind (de_name_len pos s) (\<lambda>n.
     res_bind (read_name n (de_name pos) s) (\<lambda>t. Ok [Line t]))"

definition listed_type :: "nat \<Rightarrow> bool" where
  "listed_type t \<longleftrightarrow> t = EXT2_FT_REG_FILE \<or> t = EXT2_FT_SYMLINK \<or> t = EXT2_FT_DIR"

definition ls_entry :: "bool \<Rightarrow> nat \<Rightarrow> fs \<Rightarrow> message list res" where
  "ls_entry aflag pos s =
     res_bind (de_file_type pos s) (\<lambda>t.
       if listed_type t then
         res_bind (ld_byte (de_name pos) s) (\<lambda>c.
           if c \<noteq> 46 \<or> aflag then print_entry pos s else Ok [])
       else Ok [])"

function ls_walk :: "bool \<Rightarrow> nat \<Rightarrow> fs \<Rightarrow> message list res" where
  "ls_walk aflag pos s =
     res_bind (de_rec_len pos s) (\<lambda>cur_len.
     res_bind (ls_entry aflag pos s) (\<lambda>out.
       if (pos + cur_len) mod EXT2_BLOCK_SIZE = 0 then Ok out
       else if cur_len = 0 then Err Diverges
       else res_bind (ls_walk aflag (pos + cur_len) s) (\<lambda>out'. Ok (out @ out'))))"
  by pat_completeness auto
termination
  by (relation "measure (\<lambda>(a, pos, s). DISK_SIZE - pos)")
    (auto simp: de_rec_len_def ld_def split: if_splits)

declare ls_walk.simps [simp del]

fun ls_blocks :: "bool \<Rightarrow> nat \<Rightarrow> nat list \<Rightarrow> fs \<Rightarrow> message list res" where
  "ls_blocks aflag new [] s = Ok []"
| "ls_blocks aflag new (index # is) s =
     res_bind (ld 4 (new + i_block index) s) (\<lambda>blocknum.
     res_bind (ls_walk aflag (block_addr blocknum) s) (\<lambda>out.
     res_bind (ls_blocks aflag new is s) (\<lambda>out'. Ok (out @ out'))))"

definition ls_block :: "nat \<Rightarrow> bool \<Rightarrow> fs \<Rightarrow> message list res" where
  "ls_block inode aflag s =
     res_bind (bg_inode_table s) (\<lambda>it.
       let new = inode_ptr it inode in
       res_bind (ld 4 (new + i_blocks) s) (\<lambda>n. ls_blocks aflag new [0..<n] s))"

text \<open>
  The flag of \<open>ls\<close> and \<open>rm\<close> among four arguments: the result is the path's index and whether the
  flag was there, or an early exit.  \<open>strncmp\<close> compares the first two bytes.
\<close>

definition has_flag :: "cstr \<Rightarrow> cstr \<Rightarrow> bool" where
  "has_flag flag arg \<longleftrightarrow> take 2 arg = flag"

definition parse_flag :: "cstr \<Rightarrow> cstr list \<Rightarrow> message + nat \<times> bool" where
  "parse_flag flag argv =
     (if length argv = 4 then
        if has_flag flag (argv ! 1) then Inl Flag_first
        else if has_flag flag (argv ! 2) then Inr (3, True)
        else if has_flag flag (argv ! 3) then Inr (2, True)
        else Inl Flag_missing
      else Inr (2, False))"

definition ls_path :: "cstr \<Rightarrow> cstr list \<Rightarrow> bool \<Rightarrow> fs \<Rightarrow> outcome res" where
  "ls_path path names aflag s =
     (if path = [slash] then res_bind (ls_block 2 aflag s) (\<lambda>out. done_with 0 out s)
      else if names = [] then Err Out_of_bounds
      else
        let filename = last names in
        if tokens path \<noteq> [] then
          res_bind (traverse 2 (tokens path) filename s) (\<lambda>file_inode.
            if file_inode \<noteq> 0 then
              res_bind (find_dir_entry file_inode filename s) (\<lambda>r. case r of
                  None \<Rightarrow> Err Null_deref
                | Some d \<Rightarrow>
                    res_bind (de_file_type d s) (\<lambda>t.
                    res_bind
                      (if t = EXT2_FT_SYMLINK \<or> t = EXT2_FT_REG_FILE then print_entry d s
                       else ls_block file_inode aflag s) (\<lambda>out. done_with 0 out s)))
            else done_with ENOENT [Dne_err] s)
        else done_with ENOENT [Dne_err] s)"

definition ext2_ls :: "cenv \<Rightarrow> cstr list \<Rightarrow> outcome res" where
  "ext2_ls e argv =
     (if length argv \<noteq> 3 \<and> length argv \<noteq> 4 then early_exit 1 [Usage]
      else case parse_flag [45, 97] argv of
        Inl m \<Rightarrow> early_exit 1 [m]
      | Inr (pathindex, aflag) \<Rightarrow>
          let path = argv ! pathindex in
          res_bind (count_item_in_path (malloc_ok e) path) (\<lambda>count.
          res_bind (arr_names (malloc_ok e) count path) (\<lambda>names.
          res_bind (init (image e (argv ! 1))) (ls_path path names aflag))))"

subsection \<open>rm\<close>

text \<open>What happens to an entry that is removed: the one before it takes its length over.\<close>

definition unlink_entry :: "nat \<Rightarrow> nat \<Rightarrow> nat \<Rightarrow> cstr \<Rightarrow> fs \<Rightarrow> fs res" where
  "unlink_entry time d inode filename s =
     res_bind (find_pre_pos inode filename s) (\<lambda>pre.
     res_bind (case pre of
         None \<Rightarrow> Ok s
       | Some pre_pos \<Rightarrow>
           res_bind (de_rec_len pre_pos s) (\<lambda>l.
           res_bind (de_rec_len d s) (\<lambda>l'. st 2 (pre_pos + 4) (l + l') s))) (\<lambda>s.
     res_bind (st 4 d 0 s) (\<lambda>s. remove_link time inode s)))"

definition rm_path :: "nat \<Rightarrow> cstr \<Rightarrow> fs \<Rightarrow> outcome res" where
  "rm_path time path s =
     (if path = [slash] then done_with 1 [Dir_err] s
      else
        let filename = basename path in
        if filename = dot \<or> filename = dotdot then done_with 1 [Dir_err] s
        else if tokens path \<noteq> [] then
          res_bind (traverse 2 (tokens path) filename s) (\<lambda>file_inode.
            if file_inode \<noteq> 0 then
              res_bind (find_dir_entry file_inode filename s) (\<lambda>r. case r of
                  None \<Rightarrow> Err Null_deref
                | Some d \<Rightarrow>
                    res_bind (de_file_type d s) (\<lambda>t.
                      if t = EXT2_FT_SYMLINK \<or> t = EXT2_FT_REG_FILE then
                        res_bind (unlink_entry time d file_inode filename s) (\<lambda>s. done_with 0 [] s)
                      else done_with EISDIR [Dir_err] s))
            else done_with ENOENT [Dne_err] s)
        else done_with ENOENT [Dne_err] s)"

definition ext2_rm :: "cenv \<Rightarrow> cstr list \<Rightarrow> outcome res" where
  "ext2_rm e argv =
     (if length argv \<noteq> 3 then early_exit 1 [Usage]
      else res_bind (init (image e (argv ! 1))) (rm_path (now e) (argv ! 2)))"

end
