(* ===== verification/Ext2Mkdir.thy ===== *)
theory Ext2Mkdir
  imports Ext2Link Ext2Cmds
begin

section \<open>mkdir from the path to the disk\<close>

text \<open>
  The well-formedness of an opened image, what \<open>allocate\<close> writes for a directory, and the effect of
  \<open>mkdir\<close>: the new name, the new block with its two entries, and nothing else changed for any lookup.
\<close>

subsection \<open>Well-formed images\<close>

definition fs_wf :: "fs \<Rightarrow> bool" where
  "fs_wf s \<longleftrightarrow> layout (disk s) \<and> dirs_ok s \<and>
     (\<forall>b \<in> set (dirs s). 0 < b \<and> b < 128 \<and> data_start (disk s) \<le> block_addr b \<and>
        b - 1 \<in> used_bits (disk s) (bbm (disk s))) \<and>
     (\<forall>i < n_blocks (disk s). i \<notin> used_bits (disk s) (bbm (disk s)) \<longrightarrow>
        i + 1 < 128 \<and> data_start (disk s) \<le> block_addr (i + 1))"

text \<open>The data area but for the bytes of \<open>W\<close> is as it was.\<close>

definition data_same :: "nat set \<Rightarrow> fs \<Rightarrow> fs \<Rightarrow> bool" where
  "data_same W s s' \<longleftrightarrow> dirs s' = dirs s \<and> same_header (disk s) (disk s') \<and>
     (\<forall>x. data_start (disk s) \<le> x \<longrightarrow> x \<notin> W \<longrightarrow> disk s' x = disk s x)"

lemma data_same_refl [simp]: "data_same W s s"
  by (simp add: data_same_def)

lemma data_same_trans: "data_same W s s' \<Longrightarrow> data_same W s' s'' \<Longrightarrow> data_same W s s''"
  using same_header_layout [of "disk s" "disk s'"] same_header_trans [of "disk s" "disk s'" "disk s''"]
  by (auto simp: data_same_def)

lemma data_same_mono: "data_same W s s' \<Longrightarrow> W \<subseteq> W' \<Longrightarrow> data_same W' s s'"
  by (auto simp: data_same_def)

definition keeps_dirs :: "fs \<Rightarrow> fs \<Rightarrow> bool" where
  "keeps_dirs s s' \<longleftrightarrow> dirs s' = dirs s \<and>
     (\<forall>b \<in> set (dirs s). same_block (disk s) (disk s') (block_addr b))"

lemma data_same_keeps:
  assumes "data_same W s s'" and "dirs_ok s"
    and "\<And>b. b \<in> set (dirs s) \<Longrightarrow> data_start (disk s) \<le> block_addr b \<and> W \<inter> {block_addr b..<block_addr b + 1024} = {}"
  shows "keeps_dirs s s'"
  unfolding keeps_dirs_def
proof (intro conjI ballI)
  show "dirs s' = dirs s" using assms(1) by (simp add: data_same_def)
  fix b assume b: "b \<in> set (dirs s)"
  show "same_block (disk s) (disk s') (block_addr b)"
  proof (rule same_blockI)
    show "block_ok (disk s) (block_addr b)" using assms(2) b by (simp add: dirs_ok_def)
    fix x assume x: "block_addr b \<le> x" "x < block_addr b + 1024"
    then have "x \<notin> W" "data_start (disk s) \<le> x" using assms(3) [OF b] by (auto simp: disjoint_iff)
    then show "disk s' x = disk s x" using assms(1) by (simp add: data_same_def)
  qed
qed

lemma keeps_dirs_lookup:
  assumes "keeps_dirs s s'"
  shows "lookup s' i t = lookup s i t" and "dirs_ok s'" and "dir_addr s' i = dir_addr s i"
proof -
  have k: "dirs s' = dirs s" "\<And>b. b \<in> set (dirs s) \<Longrightarrow> same_block (disk s) (disk s') (block_addr b)"
    using assms by (auto simp: keeps_dirs_def)
  have d: "dir_of (disk s') (block_addr b) = dir_of (disk s) (block_addr b)" if "b \<in> set (dirs s)" for b
    using k(2) [OF that] by (simp add: same_block_def same_names_def)
  have "filter (\<lambda>b. dir_of (disk s') (block_addr b) = Some i) (dirs s) =
      filter (\<lambda>b. dir_of (disk s) (block_addr b) = Some i) (dirs s)"
    using d by (intro filter_cong) auto
  then have f: "found s' i t = found s i t"
    unfolding found_def k(1) using k(2) by (auto intro!: arg_cong [where f = concat] matches_same)
  moreover have "inode_at (disk s') q = inode_at (disk s) q" if "q \<in> set (found s i t)" for q
    using that k(2) by (auto simp: found_def same_block_def same_names_def dest!: matches_entries)
  ultimately show "lookup s' i t = lookup s i t"
    unfolding lookup_found by (auto intro: first_inode_cong)
  show "dirs_ok s'" using k by (auto simp: dirs_ok_def same_block_def)
  have "find (\<lambda>b. dir_of (disk s') (block_addr b) = Some i) (dirs s) =
      find (\<lambda>b. dir_of (disk s) (block_addr b) = Some i) (dirs s)"
    using d by (intro find_cong) auto
  then show "dir_addr s' i = dir_addr s i" by (simp add: dir_addr_def k(1))
qed

subsection \<open>The block of a new directory\<close>

lemma bytes_at_wr_other: "a + n \<le> b \<or> b + k \<le> a \<Longrightarrow> bytes_at n (wr k b v m) a = bytes_at n m a"
  by (rule bytes_at_cong) (auto simp: wr_other)

definition dir_block_mem :: "nat \<Rightarrow> nat \<Rightarrow> nat \<Rightarrow> mem \<Rightarrow> mem" where
  "dir_block_mem a inode parent m =
     wr 4 (a + 12) parent (wr 1 (a + 19) EXT2_FT_DIR (wr 1 (a + 18) 2 (blit (dotdot @ [0]) (a + 20)
       (wr 2 (a + 16) 1012 (wr 4 a inode (wr 1 (a + 7) EXT2_FT_DIR (wr 1 (a + 6) 1
         (blit (dot @ [0]) (a + 8) (wr 2 (a + 4) 12 m)))))))))"

lemma new_dir_block_eq:
  assumes "a + 1024 \<le> DISK_SIZE"
  shows "new_dir_block a inode parent s = Ok (s\<lparr>disk := dir_block_mem a inode parent (disk s)\<rparr>)"
proof -
  let ?m = "wr 4 a inode (wr 1 (a + 7) EXT2_FT_DIR (wr 1 (a + 6) 1
         (blit (dot @ [0]) (a + 8) (wr 2 (a + 4) 12 (disk s)))))"
  have "rec_len_at ?m a = 12"
    by (simp add: rec_len_at_def rd_wr_other rd_wr_same rd_blit_other dot_def del: One_nat_def)
  then show ?thesis
    using assms by (simp add: new_dir_block_def dir_block_mem_def fs_simps de_name_def dot_def dotdot_def
        add.commute [of _ a] del: One_nat_def)
qed

lemma dir_block_mem_other:
  "x < a \<or> a + 23 \<le> x \<Longrightarrow> dir_block_mem a inode parent m x = m x"
  by (auto simp: dir_block_mem_def wr_other blit_other dot_def dotdot_def)

lemma dir_block_mem_fields:
  fixes a inode parent m
  defines "m' \<equiv> dir_block_mem a inode parent m"
  shows "inode_at m' a = inode mod 2 ^ 32" "rec_len_at m' a = 12" "name_len_at m' a = 1"
    "file_type_at m' a = EXT2_FT_DIR"
    "inode_at m' (a + 12) = parent mod 2 ^ 32" "rec_len_at m' (a + 12) = 1012" "name_len_at m' (a + 12) = 2"
    "file_type_at m' (a + 12) = EXT2_FT_DIR"
    "bytes_at 2 m' (a + 8) = [46, 0]" "bytes_at 2 m' (a + 20) = [46, 46]"
proof -
  show "inode_at m' a = inode mod 2 ^ 32" "rec_len_at m' a = 12" "name_len_at m' a = 1"
    "file_type_at m' a = EXT2_FT_DIR"
    "inode_at m' (a + 12) = parent mod 2 ^ 32" "rec_len_at m' (a + 12) = 1012" "name_len_at m' (a + 12) = 2"
    "file_type_at m' (a + 12) = EXT2_FT_DIR"
    by (simp_all add: entry_fields m'_def dir_block_mem_def rd_wr_other rd_wr_same rd_blit_other dot_def
        dotdot_def EXT2_FT_DIR_def add.commute [of _ a] del: One_nat_def)
  have "bytes_at 2 m' (a + 8) = bytes_at 2 (blit (dot @ [0]) (a + 8) (wr 2 (a + 4) 12 m)) (a + 8)"
    unfolding m'_def dir_block_mem_def by (rule bytes_at_cong) (simp add: wr_other blit_other dotdot_def)
  then show "bytes_at 2 m' (a + 8) = [46, 0]"
    by (simp add: bytes_at_def blit_def dot_def upt_rec numeral_2_eq_2)
  have "bytes_at 2 m' (a + 20) = bytes_at 2 (blit (dotdot @ [0]) (a + 20)
      (wr 2 (a + 16) 1012 (wr 4 a inode (wr 1 (a + 7) EXT2_FT_DIR (wr 1 (a + 6) 1
         (blit (dot @ [0]) (a + 8) (wr 2 (a + 4) 12 m))))))) (a + 20)"
    unfolding m'_def dir_block_mem_def by (rule bytes_at_cong) (simp add: wr_other)
  then show "bytes_at 2 m' (a + 20) = [46, 46]"
    by (simp add: bytes_at_def blit_def dotdot_def upt_rec numeral_2_eq_2)
qed

text \<open>The block lists exactly "." and "..".\<close>

definition fresh_dir :: "mem \<Rightarrow> nat \<Rightarrow> nat \<Rightarrow> nat \<Rightarrow> bool" where
  "fresh_dir m a inode parent \<longleftrightarrow> block_ok m a \<and> dir_of m a = Some inode \<and>
     map (\<lambda>q. (entry_name m q, inode_at m q)) (entries m a) = [(dot, inode), (dotdot, parent)]"

lemma dir_block_mem_fresh:
  assumes "a mod 1024 = 0" and "a + 1024 \<le> DISK_SIZE" and "inode < 2 ^ 32" and "parent < 2 ^ 32"
  shows "fresh_dir (dir_block_mem a inode parent m) a inode parent"
proof -
  let ?m = "dir_block_mem a inode parent m"
  note f = dir_block_mem_fields [of a inode parent m]
  have t: "tiles ?m (a + 1024) a [a, a + 12]" by (simp add: f)
  have "bytes_at 1 ?m (a + 8) = [46]"
    using f(9) by (simp add: bytes_at_def numeral_2_eq_2)
  then have "entry_name ?m a = dot" "entry_name ?m (a + 12) = dotdot"
    using f(10) by (simp_all add: entry_name_def f dot_def dotdot_def add.commute [of _ a] del: One_nat_def)
  then show ?thesis
    using assms f tiles_entries [OF t] block_okI [OF assms(1,2) t] by (simp add: fresh_dir_def dir_of_def)
qed

subsection \<open>allocate\<close>

text \<open>Address of an inode of the table.\<close>

definition inode_addr :: "mem \<Rightarrow> nat \<Rightarrow> nat" where
  "inode_addr m i = itab m + INODE_SIZE * (i - 1)"

lemma inode_ptr_addr:
  assumes "0 < i" and "i < 2 ^ 32"
  shows "inode_ptr (rd 4 m (BGD + 8)) i = inode_addr m i"
  using assms by (simp add: inode_ptr_def inode_addr_def itab_def pred32_pos)

lemma inode_addr_bounds:
  assumes "layout m" and "0 < i" and "i \<le> n_inodes m"
  shows "itab m \<le> inode_addr m i" and "inode_addr m i + 128 \<le> data_start m"
proof -
  have "INODE_SIZE * (i - 1) + 128 = INODE_SIZE * i"
    using assms(2) by (simp add: INODE_SIZE_def algebra_simps)
  also have "\<dots> \<le> INODE_SIZE * n_inodes m" using assms(3) by simp
  finally show "inode_addr m i + 128 \<le> data_start m" by (simp add: inode_addr_def data_start_def)
qed (simp add: inode_addr_def)

lemma layout_inode:
  assumes "layout m" and "0 < i" and "i \<le> n_inodes m"
  shows "2080 + 256 \<le> inode_addr m i" and "inode_addr m i + 128 \<le> DISK_SIZE" and "i < 2 ^ 32"
    and "bbm m + 256 \<le> inode_addr m i"
  using assms inode_addr_bounds [OF assms] layout_bounds [OF assms(1)] by (auto simp: layout_def)

text \<open>The memory after the inode's fields were set, before the search for a block.\<close>

definition new_dir_inode :: "nat \<Rightarrow> mem \<Rightarrow> mem" where
  "new_dir_inode p m = wr 4 (p + i_size) EXT2_BLOCK_SIZE (wr 4 (p + i_blocks) 2
     (wr 2 (p + i_links_count) 2 (wr 2 (p + i_mode) EXT2_S_IFDIR m)))"

lemma new_dir_inode_other: "x < p \<or> p + 128 \<le> x \<Longrightarrow> new_dir_inode p m x = m x"
  by (auto simp: new_dir_inode_def wr_other inode_fields)

definition bump_links :: "nat \<Rightarrow> mem \<Rightarrow> mem" where
  "bump_links p m = wr 2 (p + i_links_count) (rd 2 m (p + i_links_count) + 1) m"

lemma bump_links_other: "x < p \<or> p + 128 \<le> x \<Longrightarrow> bump_links p m x = m x"
  by (auto simp: bump_links_def wr_other inode_fields)

text \<open>All of \<open>allocate\<close> for a directory, when a block is free.\<close>

definition dir_alloc_mem :: "nat \<Rightarrow> nat \<Rightarrow> nat \<Rightarrow> mem \<Rightarrow> mem" where
  "dir_alloc_mem i p k m =
     bump_links (inode_addr m p) (dir_block_mem (block_addr (k + 1)) i p
       (wr 4 (inode_addr m i + i_block 0) (k + 1)
         (taken (bbm m) bg_free_blocks_count k (new_dir_inode (inode_addr m i) m))))"

lemma free_block_cong:
  assumes "layout m" and "same_header m m'" and "\<And>x. bbm m \<le> x \<Longrightarrow> x < bbm m + 128 \<Longrightarrow> m' x = m x"
  shows "free_block m' = free_block m"
proof -
  have "i \<in> used_bits m' (bbm m) \<longleftrightarrow> i \<in> used_bits m (bbm m)" if "i < n_blocks m" for i
    using layout_bounds(1) [OF assms(1) that] assms(3) by (intro used_bits_cong) auto
  then show ?thesis
    using assms(2) by (auto simp: free_block_def same_header_def intro!: find_cong)
qed

lemma new_dir_inode_header:
  assumes "layout m" and "2080 + 256 \<le> a" and "bbm m + 256 \<le> a"
  shows "same_header m (new_dir_inode a m)" and "free_block (new_dir_inode a m) = free_block m"
    and "x < bbm m + 256 \<Longrightarrow> new_dir_inode a m x = m x"
proof -
  show h: "same_header m (new_dir_inode a m)"
    by (rule same_headerI; rule new_dir_inode_other; use assms in simp)
  show "free_block (new_dir_inode a m) = free_block m"
    by (rule free_block_cong [OF assms(1) h], rule new_dir_inode_other) (use assms in simp)
  show "x < bbm m + 256 \<Longrightarrow> new_dir_inode a m x = m x"
    by (rule new_dir_inode_other) (use assms in simp)
qed

lemma allocate_dir_eq:
  assumes l: "layout (disk s)" and i: "0 < i" "i \<le> n_inodes (disk s)" and p: "0 < p" "p \<le> n_inodes (disk s)"
    and k: "free_block (disk s) = Some k" and A: "block_addr (k + 1) + 1024 \<le> DISK_SIZE"
  shows "allocate i p EXT2_S_IFDIR None s = Ok (s\<lparr>disk := dir_alloc_mem i p k (disk s)\<rparr>)"
proof -
  let ?m = "disk s"
  let ?a = "inode_addr ?m i" and ?b = "inode_addr ?m p"
  let ?m1 = "new_dir_inode ?a ?m"
  note bi = layout_inode [OF l i] and bp = layout_inode [OF l p]
  have ptr: "inode_ptr (rd 4 ?m (BGD + 8)) i = ?a" "inode_ptr (rd 4 ?m (BGD + 8)) p = ?b"
    using i p bi bp by (auto intro: inode_ptr_addr)
  note h = new_dir_inode_header [OF l bi(1,4)]
  have "layout ?m1" "bbm ?m1 = bbm ?m"
    using same_header_layout [OF h(1)] l h(1) by (auto simp: same_header_def)
  then have f: "find_free_block (s\<lparr>disk := ?m1\<rparr>) =
      Ok (k + 1, s\<lparr>disk := taken (bbm ?m) bg_free_blocks_count k ?m1\<rparr>)"
    using find_free_block_eq [of "s\<lparr>disk := ?m1\<rparr>"] h(2) k by simp
  have st: "st 4 (?a + i_size) EXT2_BLOCK_SIZE (s\<lparr>disk := wr 4 (?a + i_blocks) 2 (wr 2 (?a + i_links_count) 2
      (wr 2 (?a + i_mode) EXT2_S_IFDIR ?m))\<rparr>) = Ok (s\<lparr>disk := ?m1\<rparr>)"
    using bi by (simp add: fs_simps inode_fields new_dir_inode_def)
  show ?thesis
    using bi bp A f st unfolding allocate_def header_loads res_bind_Ok Let_def ptr
    by (simp add: fs_simps inode_fields new_dir_block_eq add_link_count_def bump_links_def dir_alloc_mem_def)
qed

text \<open>Different inodes have different places.\<close>

lemma inode_addr_apart:
  assumes "0 < i" and "0 < j" and "i \<noteq> j"
  shows "inode_addr m i + 128 \<le> inode_addr m j \<or> inode_addr m j + 128 \<le> inode_addr m i"
proof -
  have "i - 1 < j - 1 \<or> j - 1 < i - 1" using assms by auto
  then show ?thesis by (auto simp: inode_addr_def INODE_SIZE_def)
qed

text \<open>The effect of \<open>allocate\<close>.\<close>

lemma dir_alloc_effect:
  assumes l: "layout m" and i: "0 < i" "i \<le> n_inodes m" and p: "0 < p" "p \<le> n_inodes m"
    and k: "k < n_blocks m" and A: "data_start m \<le> block_addr (k + 1)" "block_addr (k + 1) + 1024 \<le> DISK_SIZE"
      "block_addr (k + 1) mod 1024 = 0"
  defines "m' \<equiv> dir_alloc_mem i p k m"
  shows "same_header m m'"
    and "data_start m \<le> x \<Longrightarrow> x < block_addr (k + 1) \<or> block_addr (k + 1) + 1024 \<le> x \<Longrightarrow> m' x = m x"
    and "j < 1024 \<Longrightarrow> j \<in> used_bits m' (bbm m) \<longleftrightarrow> j = k \<or> j \<in> used_bits m (bbm m)"
    and "fresh_dir m' (block_addr (k + 1)) i p"
    and "rd 2 m' (inode_addr m i + i_mode) = EXT2_S_IFDIR" and "rd 4 m' (inode_addr m i + i_block 0) = k + 1"
proof -
  let ?a = "inode_addr m i" and ?b = "inode_addr m p" and ?A = "block_addr (k + 1)"
  let ?m1 = "new_dir_inode ?a m"
  let ?m2 = "taken (bbm m) bg_free_blocks_count k ?m1"
  let ?m3 = "wr 4 (?a + i_block 0) (k + 1) ?m2"
  let ?m4 = "dir_block_mem ?A i p ?m3"
  have m': "m' = bump_links ?b ?m4" by (simp add: m'_def dir_alloc_mem_def)
  note bi = layout_inode [OF l i] inode_addr_bounds [OF l i] and bp = layout_inode [OF l p] inode_addr_bounds [OF l p]
  note L = layout_bounds [OF l]
  have k': "k div 8 < 128" using L(1) [OF k] by simp
  have far: "m' x = ?m2 x" if "x < bbm m + 256" for x
    unfolding m' using that bi bp A(1) by (simp add: bump_links_other dir_block_mem_other wr_other inode_fields)
  have m1: "?m1 x = m x" if "x < bbm m + 256" for x
    by (rule new_dir_inode_header(3) [OF l bi(1,4) that])
  have cnt: "bg_free_blocks_count = 2060" by (simp add: bg_free_blocks_count_def BGD_def)
  show "same_header m m'"
  proof (rule same_headerI)
    fix x :: nat assume "1024 \<le> x" "x < 1032"
    then show "m' x = m x" using L(5) far [of x] m1 [of x] by (simp add: taken_other cnt)
  next
    fix x :: nat assume "2048 \<le> x" "x < 2060"
    then show "m' x = m x" using L(5) far [of x] m1 [of x] by (simp add: taken_other cnt)
  qed
  show "m' x = m x" if "data_start m \<le> x" "x < ?A \<or> ?A + 1024 \<le> x"
    using that(2) unfolding m'
    by (elim disjE; use that(1) bi bp L k' cnt in
      \<open>simp add: bump_links_other dir_block_mem_other wr_other inode_fields taken_other new_dir_inode_other\<close>)
  show "j \<in> used_bits m' (bbm m) \<longleftrightarrow> j = k \<or> j \<in> used_bits m (bbm m)" if "j < 1024"
  proof -
    have "j \<in> used_bits m' (bbm m) \<longleftrightarrow> j \<in> used_bits ?m2 (bbm m)"
      by (rule used_bits_cong) (use far that in auto)
    also have "used_bits ?m2 (bbm m) = insert k (used_bits ?m1 (bbm m))"
      by (rule used_bits_taken [OF L(3) L(1) [OF k]])
    also have "j \<in> insert k (used_bits ?m1 (bbm m)) \<longleftrightarrow> j = k \<or> j \<in> used_bits m (bbm m)"
      using used_bits_cong [of "bbm m" ?m1 m j] m1 that by auto
    finally show ?thesis .
  qed
  have i32: "i < 2 ^ 32" "p < 2 ^ 32" using bi bp by auto
  have f4: "fresh_dir ?m4 ?A i p" by (rule dir_block_mem_fresh [OF A(3,2) i32])
  have "same_block ?m4 m' ?A"
    by (rule same_blockI) (use f4 bp A in \<open>auto simp: fresh_dir_def m' bump_links_other\<close>)
  then show "fresh_dir m' ?A i p"
    using f4 by (auto simp: fresh_dir_def same_block_def same_names_def)
  have top: "rd n m' (?a + f) = rd n ?m3 (?a + f)" if "f + n \<le> 26 \<or> 28 \<le> f" "f + n \<le> 128" for n f
  proof -
    have "?b + 128 \<le> ?a \<or> ?a + 128 \<le> ?b \<or> ?a = ?b"
      using inode_addr_apart [of i p m] i p by (cases "i = p") auto
    then have "rd n m' (?a + f) = rd n ?m4 (?a + f)"
      unfolding m' bump_links_def using that by (intro rd_wr_other) (auto simp: inode_fields)
    also have "\<dots> = rd n ?m3 (?a + f)"
      by (rule rd_cong, rule dir_block_mem_other) (use that bi A(1) in auto)
    finally show ?thesis .
  qed
  have "rd 2 m' (?a + i_mode) = rd 2 ?m2 (?a + i_mode)"
    using top [of i_mode 2] by (simp add: inode_fields rd_wr_other)
  also have "\<dots> = rd 2 ?m1 (?a + i_mode)"
    by (rule rd_cong, rule taken_other) (use bi L k' cnt in auto)
  also have "\<dots> = EXT2_S_IFDIR"
    by (simp add: new_dir_inode_def inode_fields rd_wr_other rd_wr_same EXT2_S_IFDIR_def)
  finally show "rd 2 m' (?a + i_mode) = EXT2_S_IFDIR" .
  have "k + 1 < 2 ^ 32" using L(1) [OF k] by simp
  then show "rd 4 m' (?a + i_block 0) = k + 1"
    using top [of "i_block 0" 4] by (simp add: inode_fields rd_wr_same)
qed

subsection \<open>The three steps together\<close>

lemma fs_wf_step:
  assumes wf: "fs_wf s" and d: "dirs s' = dirs s" and h: "same_header (disk s) (disk s')" and ok: "dirs_ok s'"
    and u: "\<And>j. j < 1024 \<Longrightarrow> j \<in> used_bits (disk s) (bbm (disk s)) \<Longrightarrow> j \<in> used_bits (disk s') (bbm (disk s))"
  shows "fs_wf s'"
proof -
  have h': "bbm (disk s') = bbm (disk s)" "n_blocks (disk s') = n_blocks (disk s)"
    "data_start (disk s') = data_start (disk s)" "layout (disk s')"
    using h same_header_layout [OF h] wf by (auto simp: same_header_def fs_wf_def)
  have n: "i < 1024" if "i < n_blocks (disk s)" for i
    using that wf by (auto simp: fs_wf_def layout_def)
  show ?thesis
    unfolding fs_wf_def h' d
  proof (intro conjI ballI allI impI)
    fix b assume "b \<in> set (dirs s)"
    then have b: "0 < b" "b < 128" "data_start (disk s) \<le> block_addr b" "b - 1 \<in> used_bits (disk s) (bbm (disk s))"
      using wf by (auto simp: fs_wf_def)
    then show "0 < b" "b < 128" "data_start (disk s) \<le> block_addr b" by auto
    show "b - 1 \<in> used_bits (disk s') (bbm (disk s))" by (rule u) (use b in auto)
  next
    fix i assume i: "i < n_blocks (disk s)" "i \<notin> used_bits (disk s') (bbm (disk s))"
    then have "i \<notin> used_bits (disk s) (bbm (disk s))" using u n by blast
    then show "i + 1 < 128" "data_start (disk s) \<le> block_addr (i + 1)" using i(1) wf by (auto simp: fs_wf_def)
  qed (use ok h' in auto)
qed

text \<open>Taking a free inode touches no directory and no block bit.\<close>

lemma take_inode_effect:
  assumes wf: "fs_wf s" and i: "free_inode (disk s) = Some i"
  defines "s' \<equiv> s\<lparr>disk := taken (ibm (disk s)) bg_free_inodes_count i (disk s)\<rparr>"
  shows "find_free_inode s = Ok (i + 1, s')" and "keeps_dirs s s'" and "fs_wf s'"
    and "free_block (disk s') = free_block (disk s)" and "same_header (disk s) (disk s')"
    and "i \<in> used_bits (disk s') (ibm (disk s))"
    and "data_start (disk s) \<le> x \<Longrightarrow> disk s' x = disk s x"
proof -
  let ?m = "disk s"
  have l: "layout ?m" and ok: "dirs_ok s" using wf by (auto simp: fs_wf_def)
  have n: "i < n_inodes ?m" using i by (simp add: free_inode_Some)
  note L = layout_bounds [OF l]
  show "find_free_inode s = Ok (i + 1, s')" using find_free_inode_eq [OF l] i by (simp add: s'_def)
  show h: "same_header ?m (disk s')" using taken_inode(1) [OF l n] by (simp add: s'_def)
  show "i \<in> used_bits (disk s') (ibm ?m)" using taken_inode(2) [OF l n] by (simp add: s'_def)
  have i8: "i div 8 < 128" using L(2) [OF n] by simp
  have cnt: "bg_free_inodes_count = 2062" by (simp add: bg_free_inodes_count_def BGD_def)
  have same: "disk s' x = disk s x" if "data_start ?m \<le> x \<or> bbm ?m \<le> x \<and> x < bbm ?m + 128" for x
    using that L i8 unfolding s'_def by (auto simp: cnt intro!: taken_other)
  then show "disk s' x = disk s x" if "data_start ?m \<le> x" using that by blast
  have "data_same {} s s'" using same h by (simp add: data_same_def s'_def)
  then show k: "keeps_dirs s s'" by (rule data_same_keeps [OF _ ok]) (use wf in \<open>auto simp: fs_wf_def\<close>)
  show "free_block (disk s') = free_block ?m" by (rule free_block_cong [OF l h]) (simp add: same)
  show "fs_wf s'"
  proof (rule fs_wf_step [OF wf])
    show "dirs s' = dirs s" by (simp add: s'_def)
    show "same_header (disk s) (disk s')" by (rule h)
    show "dirs_ok s'" by (rule keeps_dirs_lookup [OF k])
    fix j assume "j < 1024" "j \<in> used_bits ?m (bbm ?m)"
    then show "j \<in> used_bits (disk s') (bbm ?m)" using used_bits_cong [of "bbm ?m" "disk s'" ?m j] same by simp
  qed
qed

lemma block_addr_mod: "b < 128 \<Longrightarrow> block_addr b mod 1024 = 0 \<and> block_addr b + 1024 \<le> DISK_SIZE \<and> block_addr b = 1024 * b"
  by (simp add: block_addr_small DISK_SIZE_def)

text \<open>What \<open>mkdir\<close> promises: the name resolves to the new inode, whose block is a fresh directory.\<close>

definition dir_made :: "fs \<Rightarrow> fs \<Rightarrow> nat \<Rightarrow> cstr \<Rightarrow> nat \<Rightarrow> nat \<Rightarrow> bool" where
  "dir_made s s' p f i k \<longleftrightarrow> fs_wf s' \<and> dirs s' = dirs s \<and>
     (\<forall>j t. lookup s' j t = (if j = p \<and> t = f then Some (i + 1) else lookup s j t)) \<and>
     fresh_dir (disk s') (block_addr (k + 1)) (i + 1) p \<and>
     rd 2 (disk s') (inode_addr (disk s) (i + 1) + i_mode) = EXT2_S_IFDIR \<and>
     rd 4 (disk s') (inode_addr (disk s) (i + 1) + i_block 0) = k + 1 \<and>
     k \<in> used_bits (disk s') (bbm (disk s))"

text \<open>\<open>allocate\<close> for a directory: the new block is \<open>k + 1\<close>, and no lookup changes.\<close>

lemma allocate_dir_effect:
  assumes wf: "fs_wf s" and i: "0 < i" "i \<le> n_inodes (disk s)" and p: "0 < p" "p \<le> n_inodes (disk s)"
    and k: "free_block (disk s) = Some k"
  obtains s' where "allocate i p EXT2_S_IFDIR None s = Ok s'" and "fs_wf s'" and "dirs s' = dirs s"
    and "\<And>j t. lookup s' j t = lookup s j t" and "fresh_dir (disk s') (block_addr (k + 1)) i p"
    and "rd 2 (disk s') (inode_addr (disk s) i + i_mode) = EXT2_S_IFDIR"
    and "rd 4 (disk s') (inode_addr (disk s) i + i_block 0) = k + 1"
    and "k \<in> used_bits (disk s') (bbm (disk s))"
proof -
  have l: "layout (disk s)" and ok: "dirs_ok s" using wf by (auto simp: fs_wf_def)
  have kk: "k < n_blocks (disk s)" "k \<notin> used_bits (disk s) (bbm (disk s))"
    using k by (auto simp: free_block_Some)
  then have k128: "k + 1 < 128" "data_start (disk s) \<le> block_addr (k + 1)"
    using wf by (auto simp: fs_wf_def)
  note A = block_addr_mod [OF k128(1)]
  define m' where "m' = dir_alloc_mem i p k (disk s)"
  let ?s' = "s\<lparr>disk := m'\<rparr>" and ?B = "{block_addr (k + 1)..<block_addr (k + 1) + 1024}"
  have pre: "block_addr (k + 1) + 1024 \<le> DISK_SIZE" "block_addr (k + 1) mod 1024 = 0"
    using A by auto
  note e = dir_alloc_effect [OF l i p kk(1) k128(2) pre, folded m'_def]
  have "data_same ?B s ?s'"
    using e(1,2) by (auto simp: data_same_def)
  then have keep: "keeps_dirs s ?s'"
  proof (rule data_same_keeps [OF _ ok])
    fix b assume "b \<in> set (dirs s)"
    then have b: "b < 128" "data_start (disk s) \<le> block_addr b" "b - 1 \<in> used_bits (disk s) (bbm (disk s))" "0 < b"
      using wf by (auto simp: fs_wf_def)
    then have "b \<noteq> k + 1" using kk by auto
    then show "data_start (disk s) \<le> block_addr b \<and> ?B \<inter> {block_addr b..<block_addr b + 1024} = {}"
      using b A block_addr_mod [OF b(1)] by auto
  qed
  have "fs_wf ?s'"
    by (rule fs_wf_step [OF wf _ _ keeps_dirs_lookup(2) [OF keep]]) (use e(1,3) in auto)
  moreover have "allocate i p EXT2_S_IFDIR None s = Ok ?s'"
    unfolding m'_def by (rule allocate_dir_eq [OF l i p k pre(1)])
  moreover have "k \<in> used_bits m' (bbm (disk s))"
    using e(3) [of k] layout_bounds(1) [OF l kk(1)] by simp
  ultimately show ?thesis
    using that [of ?s'] keeps_dirs_lookup(1) [OF keep] e(4-6) by simp
qed

lemma make_dir_effect:
  assumes wf: "fs_wf s" and a: "dir_addr s p = Some a" and f: "length f < 256" "lookup s p f = None"
    and p: "0 < p" "p \<le> n_inodes (disk s)" and room: "has_room_in (disk s) a f EXT2_FT_DIR"
    and i: "free_inode (disk s) = Some i" and k: "free_block (disk s) = Some k"
  shows "\<exists>s'. make_dir p f s = Ok s' \<and> dir_made s s' p f i k"
proof -
  let ?m = "disk s"
  define s1 where "s1 = s\<lparr>disk := taken (ibm ?m) bg_free_inodes_count i ?m\<rparr>"
  note t = take_inode_effect [OF wf i, folded s1_def]
  note keep1 = keeps_dirs_lookup [OF t(2)]
  have wf1: "layout ?m" "layout (disk s1)" "dirs_ok s1" "data_start (disk s1) = data_start ?m"
    "bbm (disk s1) = bbm ?m" "n_inodes (disk s1) = n_inodes ?m" "n_blocks (disk s1) = n_blocks ?m"
    using wf t(3,5) same_header_layout [OF t(5)] by (auto simp: fs_wf_def same_header_def)
  have i1: "i + 1 \<le> n_inodes ?m" "i + 1 < 2 ^ 32"
    using i wf1(1) by (simp_all add: free_inode_Some layout_def)
  obtain b where b: "b \<in> set (dirs s)" "a = block_addr b"
    using dir_addr_Some [OF a] by blast
  have aok: "block_ok ?m a" "data_start ?m \<le> a"
    using wf b by (auto simp: fs_wf_def dirs_ok_def)
  have room1: "has_room_in (disk s1) a f EXT2_FT_DIR"
    by (rule has_room_in_cong [OF aok(1) _ room]) (use t(7) aok(2) in auto)
  have "dir_addr s1 p = Some a" "lookup s1 p f = None" using keep1 a f by auto
  then obtain s2 where s2: "create_link p (i + 1) f EXT2_FT_DIR s1 = Ok (1, s2)" "dirs_ok s2" "dirs s2 = dirs s1"
    "\<forall>x. x < a \<or> a + 1024 \<le> x \<longrightarrow> disk s2 x = disk s1 x"
    "\<forall>j t. lookup s2 j t = (if j = p \<and> t = f then Some (i + 1) else lookup s1 j t)"
    using create_link_lookup [OF wf1(3) _ f(1) _ i1(2), of p a EXT2_FT_DIR] room1 by (auto simp: ext2_types)
  have low: "disk s2 x = disk s1 x" if "x < data_start ?m" for x
    using s2(4) that aok(2) by auto
  note L = layout_bounds [OF wf1(1)]
  have h2: "same_header (disk s1) (disk s2)"
    by (rule same_headerI; rule low) (use L in auto)
  have l2: "bbm (disk s2) = bbm ?m" "n_inodes (disk s2) = n_inodes ?m" "inode_addr (disk s2) (i + 1) = inode_addr ?m (i + 1)"
    using h2 t(5) wf1 by (auto simp: same_header_def inode_addr_def)
  have u2: "j \<in> used_bits (disk s2) (bbm ?m) \<longleftrightarrow> j \<in> used_bits (disk s1) (bbm ?m)" if "j < 1024" for j
    by (rule used_bits_cong [OF low that]) (use L in auto)
  have wf2: "fs_wf s2"
    by (rule fs_wf_step [OF t(3) s2(3) h2 s2(2)]) (use u2 wf1 in auto)
  have "free_block (disk s2) = Some k"
    using free_block_cong [OF wf1(2) h2] low L t(4) k wf1(5) by auto
  then obtain s3 where s3: "allocate (i + 1) p EXT2_S_IFDIR None s2 = Ok s3" "fs_wf s3" "dirs s3 = dirs s2"
    "\<And>j t. lookup s3 j t = lookup s2 j t" "fresh_dir (disk s3) (block_addr (k + 1)) (i + 1) p"
    "rd 2 (disk s3) (inode_addr ?m (i + 1) + i_mode) = EXT2_S_IFDIR"
    "rd 4 (disk s3) (inode_addr ?m (i + 1) + i_block 0) = k + 1" "k \<in> used_bits (disk s3) (bbm ?m)"
    using allocate_dir_effect [OF wf2, of "i + 1" p k] i1(1) p l2 by auto
  have "dir_made s s3 p f i k"
    using s3(2-8) s2(3,5) keep1(1) by (simp add: dir_made_def s1_def)
  moreover have "make_dir p f s = Ok s3"
    using t(1) s2(1) s3(1) by (simp add: make_dir_def)
  ultimately show ?thesis by blast
qed

end
