(* ===== verification/Ext2Sample.thy ===== *)
theory Ext2Sample
  imports Ext2Mkdir
begin

section \<open>A small image\<close>

text \<open>
  An image with 16 inodes and 20 blocks whose root directory is empty: bitmaps in blocks 3 and 4,
  the inode table in blocks 5 and 6, the root directory in block 7.  The witnesses of the properties
  of Assignment3 run on it and on images made from it.
\<close>

definition header_mem :: mem where
  "header_mem = wr 4 1024 16 (wr 4 1028 20 (wr 4 2048 3 (wr 4 2052 4 (wr 4 2056 5 (\<lambda>_. 0)))))"

definition bitmaps_mem :: mem where
  "bitmaps_mem = header_mem(3072 := 127, 4096 := 255, 4097 := 7)"

text \<open>The root inode, number 2: a directory whose block is 7.\<close>

definition root_inode_mem :: mem where
  "root_inode_mem = wr 2 5248 EXT2_S_IFDIR (wr 4 5276 2 (wr 4 5288 7 bitmaps_mem))"

definition sample_disk :: mem where
  "sample_disk = dir_block_mem 7168 2 2 root_inode_mem"

definition sample_fs :: fs where
  "sample_fs = \<lparr>disk = sample_disk, dirs = [7], inum = [1]\<rparr>"

lemma sample_fields [simp]: "disk sample_fs = sample_disk" "dirs sample_fs = [7]" "inum sample_fs = [1]"
  by (simp_all add: sample_fs_def)

lemma sample_low: "x < 7168 \<Longrightarrow> sample_disk x = root_inode_mem x"
  by (simp add: sample_disk_def dir_block_mem_other)

lemma sample_rd: "a + n \<le> 7168 \<Longrightarrow> rd n sample_disk a = rd n root_inode_mem a"
  by (rule rd_cong) (simp add: sample_low)

lemma root_rd:
  assumes "a + n \<le> 3072"
  shows "rd n root_inode_mem a = rd n header_mem a"
proof (rule rd_cong)
  fix x assume "a \<le> x" "x < a + n"
  then have "x < 3072" using assms by simp
  then show "root_inode_mem x = header_mem x"
    by (simp add: root_inode_mem_def bitmaps_mem_def wr_other)
qed

lemma sample_header:
  "n_inodes sample_disk = 16" "n_blocks sample_disk = 20" "bbm sample_disk = 3072" "ibm sample_disk = 4096"
  "itab sample_disk = 5120" "data_start sample_disk = 7168"
proof -
  have "rd 4 sample_disk 1024 = 16" "rd 4 sample_disk 1028 = 20" "rd 4 sample_disk 2048 = 3"
    "rd 4 sample_disk 2052 = 4" "rd 4 sample_disk 2056 = 5"
    by (simp_all add: sample_rd root_rd header_mem_def rd_wr_same rd_wr_other)
  then show "n_inodes sample_disk = 16" "n_blocks sample_disk = 20" "bbm sample_disk = 3072" "ibm sample_disk = 4096"
    "itab sample_disk = 5120" "data_start sample_disk = 7168"
    by (simp_all add: n_inodes_def n_blocks_def bbm_def ibm_def itab_def data_start_def SB_def BGD_def
        block_addr_def EXT2_BLOCK_SIZE_def INODE_SIZE_def)
qed

lemma header_zero: "2060 \<le> x \<Longrightarrow> header_mem x = 0"
  by (simp add: header_mem_def wr_other)

lemma sample_bitmap_byte:
  "sample_disk 3072 = 127" "sample_disk 4096 = 255" "sample_disk 4097 = 7"
  "3072 < x \<Longrightarrow> x < 4096 \<Longrightarrow> sample_disk x = 0" "4097 < x \<Longrightarrow> x < 5120 \<Longrightarrow> sample_disk x = 0"
  by (simp_all add: sample_low root_inode_mem_def wr_other bitmaps_mem_def header_zero)

lemma low_bits: "bit (2 ^ n - 1 :: byte) j \<longleftrightarrow> j < n \<and> j < 8"
  using bit_mask_iff [of n j, where 'a = "8 word"] by (auto simp: mask_eq_exp_minus_1)

lemma sample_used_blocks: "i < 1024 \<Longrightarrow> i \<in> used_bits sample_disk 3072 \<longleftrightarrow> i < 7"
proof -
  assume i: "i < 1024"
  show ?thesis
  proof (cases "i < 8")
    case True
    then have "i \<in> used_bits sample_disk 3072 \<longleftrightarrow> bit (2 ^ 7 - 1 :: byte) i"
      by (simp add: used_bits_def sample_bitmap_byte)
    then show ?thesis using low_bits [of 7 i] True by simp
  next
    case False
    then have "1 \<le> i div 8" "i div 8 < 1024" using i by auto
    then have "sample_disk (3072 + i div 8) = 0" by (intro sample_bitmap_byte(4)) auto
    then show ?thesis using False by (simp add: used_bits_def)
  qed
qed

lemma sample_used_inodes: "i < 1024 \<Longrightarrow> i \<in> used_bits sample_disk 4096 \<longleftrightarrow> i < 11"
proof -
  assume i: "i < 1024"
  consider "i < 8" | "8 \<le> i" "i < 16" | "16 \<le> i" by linarith
  then show ?thesis
  proof cases
    case 1
    then have "i \<in> used_bits sample_disk 4096 \<longleftrightarrow> bit (2 ^ 8 - 1 :: byte) i"
      by (simp add: used_bits_def sample_bitmap_byte)
    then show ?thesis using low_bits [of 8 i] 1 by simp
  next
    case 2
    then have d: "i div 8 = 1" "i mod 8 = i - 8" by presburger+
    then have "i \<in> used_bits sample_disk 4096 \<longleftrightarrow> bit (2 ^ 3 - 1 :: byte) (i - 8)"
      by (simp add: used_bits_def sample_bitmap_byte)
    then show ?thesis using low_bits [of 3 "i - 8"] 2 by auto
  next
    case 3
    then have "2 \<le> i div 8" "i div 8 < 1023" using i by auto
    then have "sample_disk (4096 + i div 8) = 0" by (intro sample_bitmap_byte(5)) auto
    then show ?thesis using 3 by (simp add: used_bits_def)
  qed
qed

lemma sample_free: "free_block sample_disk = Some 7" "free_inode sample_disk = Some 11"
  by (auto simp: free_block_Some free_inode_Some sample_header sample_used_blocks sample_used_inodes)

lemma sample_root: "fresh_dir sample_disk 7168 2 2"
  unfolding sample_disk_def by (rule dir_block_mem_fresh) (simp_all add: DISK_SIZE_def)

lemma sample_block_addr: "block_addr 7 = 7168"
  by (simp add: block_addr_def EXT2_BLOCK_SIZE_def)

lemma sample_wf: "fs_wf sample_fs"
proof -
  have "layout sample_disk" by (simp add: layout_def sample_header DISK_SIZE_def)
  moreover have "dirs_ok sample_fs"
    using sample_root by (simp add: dirs_ok_def sample_block_addr fresh_dir_def)
  moreover have "7168 \<le> block_addr (i + 1)" if "i < 20" "7 \<le> i" for i
    using that by (simp add: block_addr_small)
  ultimately show ?thesis
    by (simp add: fs_wf_def sample_header sample_used_blocks sample_block_addr not_less)
qed

lemma sample_dir_addr: "dir_addr sample_fs 2 = Some 7168"
  using sample_root by (simp add: dir_addr_def sample_block_addr fresh_dir_def)

lemma sample_entries: "entries sample_disk 7168 = [7168, 7180]"
proof -
  have "tiles sample_disk (7168 + 1024) 7168 [7168, 7180]"
    using dir_block_mem_fields [of 7168 2 2 root_inode_mem] by (simp add: sample_disk_def)
  then show ?thesis by (rule tiles_entries)
qed

lemma sample_names: "entry_name sample_disk 7168 = dot" "entry_name sample_disk 7180 = dotdot"
  "inode_at sample_disk 7168 = 2" "inode_at sample_disk 7180 = 2"
  using sample_root by (simp_all add: fresh_dir_def sample_entries)

lemma sample_lookup: "lookup sample_fs 2 t = (if t = dot \<or> t = dotdot then Some 2 else None)"
  using sample_root sample_names by (simp add: lookup_def dir_entries_def sample_block_addr sample_entries
      fresh_dir_def name_is_def)

lemma sample_lookup_other: "j \<noteq> 2 \<Longrightarrow> lookup sample_fs j t = None"
  using sample_root by (simp add: lookup_def dir_entries_def sample_block_addr fresh_dir_def)

lemma sample_room: "length t \<le> 254 \<Longrightarrow> has_room_in sample_disk 7168 t EXT2_FT_DIR"
proof -
  assume t: "length t \<le> 254"
  have "rec_len_at sample_disk 7180 = 1012" "name_len_at sample_disk 7180 = 2"
    using dir_block_mem_fields [of 7168 2 2 root_inode_mem] by (simp_all add: sample_disk_def)
  then have "room sample_disk (total_size_for t EXT2_FT_DIR) 7180"
    using t round_up_bounds(2) [of "18 + length t"]
    by (simp add: room_def dir_size_for_def total_size_for_def ext2_types PTR_SIZE_def FT_SIZE_def round_up_def [of 10])
  then show ?thesis by (auto simp: has_room_in_def sample_entries)
qed

text \<open>Opening the image gives this state.\<close>

lemma sample_rd_root: "rd 4 sample_disk 5288 = 7" "rd 2 sample_disk 5248 = EXT2_S_IFDIR" "rd 4 sample_disk 5292 = 0"
proof -
  show "rd 4 sample_disk 5288 = 7" "rd 2 sample_disk 5248 = EXT2_S_IFDIR"
    by (simp_all add: sample_rd root_inode_mem_def rd_wr_same rd_wr_other EXT2_S_IFDIR_def)
  have "rd 4 sample_disk 5292 = rd 4 (\<lambda>_. 0) 5292"
    by (rule rd_cong) (simp add: sample_low root_inode_mem_def wr_other bitmaps_mem_def header_zero)
  also have "rd n (\<lambda>_. 0) a = 0" for n a by (induction n arbitrary: a) auto
  finally show "rd 4 sample_disk 5292 = 0" .
qed

lemma used_inodes_filter:
  assumes "\<And>i. i \<in> set is \<Longrightarrow> bm + i div 8 < DISK_SIZE"
    and "length acc + length (filter (\<lambda>i. i \<in> used_bits (disk s) bm \<and> 10 < i) is) \<le> 32"
  shows "used_inodes bm is acc s = Ok (acc @ filter (\<lambda>i. i \<in> used_bits (disk s) bm \<and> 10 < i) is)"
  using assms
proof (induction "is" arbitrary: acc)
  case (Cons i "is")
  then show ?case by (auto simp: fs_simps used_bits_def)
qed simp

lemma sample_init: "init (Some sample_disk) = Ok sample_fs"
proof -
  let ?s = "\<lparr>disk = sample_disk, dirs = [], inum = []\<rparr>"
  have f: "filter (\<lambda>i. i \<in> used_bits sample_disk 4096 \<and> 10 < i) [0..<16] = []"
    by (simp add: filter_empty_conv sample_used_inodes)
  have "used_inodes 4096 [0..<16] [1] ?s = Ok [1]"
    using used_inodes_filter [of "[0..<16]" 4096 "[1]" ?s] by (simp add: f DISK_SIZE_def)
  moreover have "block_numbers 5288 ?s = Ok [7]"
    by (subst block_numbers.simps, subst block_numbers.simps)
      (simp add: fs_simps DISK_SIZE_def sample_rd_root)
  ultimately show ?thesis
    using sample_header
    by (simp add: init_def header_loads header_addrs fs_simps DISK_SIZE_def inode_fields sample_rd_root sample_fs_def)
qed

end
