(* ===== verification/Ext2Props.thy ===== *)
theory Ext2Props
  imports Ext2Sample
begin

section \<open>Theorems on paths, blocks, lookups and mkdir\<close>

text \<open>
  The properties of the ext2 tools that hold for every well-formed image: what a path resolves to,
  which blocks are given out, what a new link changes, what \<open>mkdir\<close> does from its arguments to the disk.
\<close>

subsection \<open>Resolution\<close>

lemma resolve_append: "resolve s i (xs @ ys) = (case resolve s i xs of None \<Rightarrow> None | Some j \<Rightarrow> resolve s j ys)"
  by (induction xs arbitrary: i) (auto split: option.splits)

lemma resolve_snoc: "resolve s i (ps @ [f]) = (case resolve s i ps of None \<Rightarrow> None | Some p \<Rightarrow> lookup s p f)"
  by (auto simp: resolve_append split: option.splits)

lemma tokens_no_slash: "t \<in> set (tokens path) \<Longrightarrow> t \<noteq> [slash]"
  using tokens_wf [of t path] by auto

lemma tokens_no_zero: "0 \<notin> set path \<Longrightarrow> t \<in> set (tokens path) \<Longrightarrow> 0 \<notin> set t"
  using tokens_wf [of t path] by auto

lemma takeWhile_last: "f \<notin> set ps \<Longrightarrow> takeWhile (\<lambda>t. t \<noteq> f) (ps @ [f]) = ps"
  by (induction ps) auto

lemma traverse_path:
  assumes "dirs_ok s" and "0 \<notin> set path" and "tokens path = ps @ [f]" and "f \<notin> set ps"
  shows "traverse i (tokens path) f s =
    Ok (case resolve s i (tokens path) of None \<Rightarrow> 0 | Some j \<Rightarrow> j)"
  using traverse_resolve [OF assms(1), of f "tokens path" i] assms tokens_no_slash [of f path]
    tokens_no_zero [OF assms(2)] takeWhile_last [OF assms(4)] by simp

text \<open>
  C15. What \<open>traverse\<close> returns.  On an image whose directory blocks are well formed it ends without a
  fault, and returns the inode that looking up one component after the other gives, or 0 when one is
  missing; but it stops at the first component equal to the last one: \<open>/a/x/a\<close> is resolved as \<open>/a\<close>.
\<close>

theorem traverse_resolves_prefix:
  assumes "dirs_ok s" and "0 \<notin> set path" and "tokens path = ps @ [f]"
  shows "traverse 2 (tokens path) f s =
    Ok (case resolve s 2 (takeWhile (\<lambda>t. t \<noteq> f) ps @ [f]) of None \<Rightarrow> 0 | Some i \<Rightarrow> i)"
proof -
  have "takeWhile (\<lambda>t. t \<noteq> f) (ps @ [f]) = takeWhile (\<lambda>t. t \<noteq> f) ps" by (induction ps) auto
  then show ?thesis
    using traverse_resolve [OF assms(1), of f "tokens path" 2] assms tokens_no_slash [of f path]
      tokens_no_zero [OF assms(2)] by simp
qed

text \<open>The path \<open>/..\<close> and its tokens.\<close>

lemma sample_path: "tokens [47, 46, 46] = [dotdot]" "tokens [47, 97] = [[97]]"
proof -
  have "tokens ([] @ slash # t) = tokens t" for t by (simp only: tokens_append_slash) simp
  then show "tokens [47, 46, 46] = [dotdot]" "tokens [47, 97] = [[97]]"
    using tokens_component [of dotdot] tokens_component [of "[97]"] by (simp_all add: slash_def dotdot_def)
qed

theorem traverse_resolves_prefix_witness: "traverse 2 [dotdot] dotdot sample_fs = Ok 2"
  using traverse_resolves_prefix [of sample_fs "[47, 46, 46]" "[]" dotdot] sample_wf
  by (simp add: sample_path sample_lookup fs_wf_def)

subsection \<open>Blocks\<close>

text \<open>
  C18. Blocks are given out once.  On an image with the layout of its header any number of calls of
  \<open>find_free_block\<close> in a row ends without a fault and keeps the layout; the numbers are those of
  blocks of the image that were free, no number is given twice, all are in use afterwards, and a
  call fails only when every block is in use.
\<close>

theorem find_free_block_well_formed:
  assumes "layout (disk s)"
  shows "\<exists>js s'. allocs k (\<lambda>s. as_slot (find_free_block s)) s = Ok (js, s') \<and> layout (disk s') \<and>
    n_blocks (disk s') = n_blocks (disk s) \<and> distinct js \<and> (\<forall>j \<in> set js. j < n_blocks (disk s)) \<and>
    set js \<inter> blocks_in_use s = {} \<and> blocks_in_use s' = blocks_in_use s \<union> set js \<and>
    (length js < k \<longrightarrow> {..<n_blocks (disk s)} \<subseteq> blocks_in_use s')"
  using free_blocks.allocs_distinct [OF assms, of k] by (auto simp: subset_iff)

theorem find_free_block_well_formed_witness:
  "\<exists>s'. allocs 1 (\<lambda>s. as_slot (find_free_block s)) sample_fs = Ok ([7], s') \<and> 7 \<in> blocks_in_use s'"
proof -
  have l: "layout (disk sample_fs)" using sample_wf by (simp add: fs_wf_def)
  have "allocs 1 (\<lambda>s. as_slot (find_free_block s)) sample_fs =
      Ok ([7], sample_fs\<lparr>disk := taken 3072 bg_free_blocks_count 7 sample_disk\<rparr>)"
    using find_free_block_eq [OF l] by (simp add: as_slot_def sample_free sample_header)
  then show ?thesis using find_free_block_well_formed [OF l, of 1] by auto
qed

subsection \<open>New entries\<close>



subsection \<open>mkdir\<close>

lemma tokens_length: "count_item_in_path True path = Ok (length (tokens path))"
  by (simp add: count_item_in_path_def)

lemma arr_names_Ok:
  "\<forall>t \<in> set (tokens path). length t \<le> 254 \<Longrightarrow> arr_names True (length (tokens path)) path = Ok (tokens path)"
proof -
  assume "\<forall>t \<in> set (tokens path). length t \<le> 254"
  then have "\<not> (\<exists>t \<in> set (tokens path). length t + 1 > EXT2_NAME_LEN)"
    by (auto simp: EXT2_NAME_LEN_def dest!: bspec)
  then show ?thesis unfolding arr_names_def Let_def by simp
qed

text \<open>The two ways through \<open>main\<close>: a directory in the root, and one below another.\<close>

lemma mkdir_top:
  assumes wf: "dirs_ok s" and path: "0 \<notin> set path" "tokens path = [f]" "length f \<le> 254"
    and f: "lookup s 2 f = None"
  shows "mkdir_path True path s = res_bind (make_dir 2 f s) (\<lambda>s. done_with 0 [Dne_err] s)"
proof -
  have "path \<noteq> [slash]" using path(2) tokens_all_slash [of "[slash]"] by auto
  moreover have "traverse 2 [f] f s = Ok 0"
    using traverse_path [OF wf path(1), of "[]" f 2] path(2) f by simp
  ultimately show ?thesis
    using arr_names_Ok [of path] path by (simp add: mkdir_path_def tokens_length name_at_def)
qed

text \<open>The parent of a path with at least two components, as \<open>mkdir\<close> and \<open>ln\<close> look it up.\<close>

lemma traverse_parent:
  assumes wf: "dirs_ok s" and path: "0 \<notin> set path" "\<And>x. path \<noteq> x @ [slash, slash]"
    and toks: "tokens path = qs @ [d, f]" "d \<notin> set qs" and p: "resolve s 2 (qs @ [d]) = Some p"
  obtains parent where "get_parent_path True (length (tokens path)) path = Ok parent" and "parent \<noteq> [slash]"
    and "tokens parent = qs @ [d]" and "traverse 2 (tokens parent) d s = Ok p"
proof -
  obtain parent where parent: "get_parent_path True (length (tokens path)) path = Ok parent"
    "tokens parent = qs @ [d]"
    using parent_tokens [of path] path(2) toks(1) by (auto simp: butlast_append)
  have "d \<noteq> [slash]" "\<forall>t \<in> set (qs @ [d]). 0 \<notin> set t"
    using tokens_no_slash [of d path] tokens_no_zero [OF path(1)] toks(1) by auto
  moreover have "takeWhile (\<lambda>t. t \<noteq> d) (qs @ [d]) = qs" using toks(2) by (rule takeWhile_last)
  ultimately have "traverse 2 (qs @ [d]) d s = Ok p"
    using traverse_resolve [OF wf, of d "qs @ [d]" 2] p by simp
  moreover have "parent \<noteq> [slash]" using parent(2) tokens_all_slash [of "[slash]"] by auto
  ultimately show ?thesis using that parent by simp
qed

lemma mkdir_below:
  assumes wf: "dirs_ok s" and path: "0 \<notin> set path" "\<And>x. path \<noteq> x @ [slash, slash]"
    and toks: "tokens path = qs @ [d, f]" "distinct (qs @ [d, f])" "\<forall>t \<in> set (tokens path). length t \<le> 254"
    and p: "resolve s 2 (qs @ [d]) = Some p" "p \<noteq> 0" and f: "lookup s p f = None"
  shows "mkdir_path True path s = res_bind (make_dir p f s) (\<lambda>s. done_with ENOENT [] s)"
proof -
  have ns: "path \<noteq> [slash]" using toks(1) tokens_all_slash [of "[slash]"] by auto
  have "d \<notin> set qs" using toks(2) by auto
  then obtain parent where parent: "get_parent_path True (length (tokens path)) path = Ok parent"
    "parent \<noteq> [slash]" "tokens parent = qs @ [d]" "traverse 2 (tokens parent) d s = Ok p"
    using traverse_parent [OF wf path toks(1) _ p(1)] by blast
  have "resolve s 2 (tokens path) = None"
    using p f resolve_snoc [of s 2 "qs @ [d]" f] by (simp add: toks(1))
  then have t: "traverse 2 (tokens path) f s = Ok 0"
    using traverse_path [OF wf path(1), of "qs @ [d]" f 2] toks by auto
  have n: "name_at (tokens path) (length (tokens path) - 1) = Ok f"
    "name_at (tokens path) (length (tokens path) - 2) = Ok d" "length (tokens path) \<noteq> 0" "length (tokens path) \<noteq> 1"
    by (simp_all add: toks(1) name_at_def nth_append)
  show ?thesis
    unfolding mkdir_path_def tokens_length arr_names_Ok [OF toks(3)] res_bind_Ok
    using ns n parent t p(2) by simp
qed

text \<open>
  C4. \<open>mkdir\<close> makes the directory.  On a well-formed image, for a path without a repeated component
  whose parent exists, whose name is new and fits, and with an inode and a block free, \<open>mkdir\<close> ends;
  afterwards the image is well formed, the name resolves to the new inode in its parent and every
  other lookup is unchanged, the inode is a directory whose block holds exactly "." and ".." with
  the right inodes, and the block is in use.  But it prints that the path does not exist, or returns
  \<open>ENOENT\<close>: with a parent other than the root the exit status is the error, in the root the message.
\<close>

theorem mkdir_makes_directory:
  assumes wf: "fs_wf s" and path: "0 \<notin> set path" "\<forall>x. path \<noteq> x @ [slash, slash]"
    and toks: "tokens path = ps @ [f]" "distinct (ps @ [f])" "\<forall>t \<in> set (ps @ [f]). length t \<le> 254"
    and parent: "resolve s 2 ps = Some p" "0 < p" "p \<le> n_inodes (disk s)" "dir_addr s p = Some a"
    and name: "lookup s p f = None" "has_room_in (disk s) a f EXT2_FT_DIR"
    and free: "free_inode (disk s) = Some i" "free_block (disk s) = Some k"
  shows "\<exists>s'. mkdir_path True path s =
      Ok (if ps = [] then 0 else ENOENT, if ps = [] then [Dne_err] else [], Some (disk s')) \<and>
    dir_made s s' p f i k"
proof -
  have ok: "dirs_ok s" using wf by (simp add: fs_wf_def)
  have "length f < 256" using toks(3) by auto
  then obtain s' where s': "make_dir p f s = Ok s'" "dir_made s s' p f i k"
    using make_dir_effect [OF wf parent(4) _ name(1) parent(2,3) name(2) free] by blast
  show ?thesis
  proof (cases ps rule: rev_cases)
    case Nil
    then have "mkdir_path True path s = res_bind (make_dir 2 f s) (\<lambda>s. done_with 0 [Dne_err] s)"
      using mkdir_top [OF ok path(1), of f] toks parent name(1) by simp
    then show ?thesis using s' parent(1) Nil by (simp add: done_with_def) blast
  next
    case (snoc qs d)
    then have "mkdir_path True path s = res_bind (make_dir p f s) (\<lambda>s. done_with ENOENT [] s)"
      using mkdir_below [OF ok path(1), of qs d f p] path(2) toks parent name(1) by simp
    then show ?thesis using s' snoc by (simp add: done_with_def) blast
  qed
qed

theorem mkdir_makes_directory_witness:
  "\<exists>s'. mkdir_path True [47, 97] sample_fs = Ok (0, [Dne_err], Some (disk s')) \<and>
    lookup s' 2 [97] = Some 12 \<and> fresh_dir (disk s') 8192 12 2"
proof -
  have "\<exists>s'. mkdir_path True [47, 97] sample_fs = Ok (if [] = ([] :: cstr list) then 0 else ENOENT,
      if [] = ([] :: cstr list) then [Dne_err] else [], Some (disk s')) \<and> dir_made sample_fs s' 2 [97] 11 7"
  proof (rule mkdir_makes_directory [where a = 7168])
    show "\<forall>x. [47, 97] \<noteq> x @ [slash, slash]"
      by (auto simp: slash_def append_eq_Cons_conv)
    show "has_room_in (disk sample_fs) 7168 [97] EXT2_FT_DIR" using sample_room [of "[97]"] by simp
  qed (simp_all add: sample_wf sample_path sample_header sample_dir_addr sample_lookup sample_free dot_def dotdot_def)
  then show ?thesis by (auto simp: dir_made_def block_addr_def EXT2_BLOCK_SIZE_def)
qed

end
