(* ===== verification/Ext2Remove.thy ===== *)
theory Ext2Remove
  imports Ext2Sample
begin

section \<open>Removing links\<close>

text \<open>
  What \<open>remove_link\<close> frees.  The array \<open>inum\<close> holds the used inodes without the reserved ones, so the
  position of an inode in it is below its index; \<open>remove_link\<close> clears the bit of the position.
\<close>

subsection \<open>The array of inodes\<close>

lemma used_inodes_Ok:
  "used_inodes bm is acc s = Ok r \<Longrightarrow> length acc \<le> 32 \<Longrightarrow>
    r = acc @ filter (\<lambda>i. i \<in> used_bits (disk s) bm \<and> 10 < i) is \<and> length r \<le> 32"
proof (induction "is" arbitrary: acc)
  case (Cons i "is")
  show ?case
    using Cons.IH [of "acc @ [i]"] Cons.IH [of acc] Cons.prems
    by (auto simp: ld_byte_def used_bits_def split: if_splits)
qed auto

lemma init_inum:
  assumes "init (Some m) = Ok s"
  shows "disk s = m" and "length (inum s) \<le> 32"
    and "inum s = 1 # filter (\<lambda>i. i \<in> used_bits m (ibm m) \<and> 10 < i) [0..<n_inodes m]"
proof -
  let ?s = "\<lparr>disk = m, dirs = [], inum = []\<rparr>"
  obtain js ds where u: "used_inodes (ibm m) [0..<n_inodes m] [1] ?s = Ok js"
    and s: "s = \<lparr>disk = m, dirs = ds, inum = js\<rparr>"
    using assms by (auto simp: init_def header_loads header_addrs Let_def)
  then show "disk s = m" "length (inum s) \<le> 32"
    "inum s = 1 # filter (\<lambda>i. i \<in> used_bits m (ibm m) \<and> 10 < i) [0..<n_inodes m]"
    using used_inodes_Ok [OF u] by auto
qed

lemma sorted_nth_ge: "sorted_wrt (<) xs \<Longrightarrow> \<forall>x \<in> set xs. c \<le> x \<Longrightarrow> j < length xs \<Longrightarrow> c + j \<le> xs ! j" for c :: nat
proof (induction xs arbitrary: c j)
  case (Cons x xs)
  then show ?case
  proof (cases j)
    case (Suc n)
    have "\<forall>y \<in> set xs. Suc c \<le> y" using Cons.prems(1,2) by fastforce
    then have "Suc c + n \<le> xs ! n" using Cons.IH [of "Suc c" n] Cons.prems Suc by auto
    then show ?thesis using Suc by simp
  qed simp
qed simp

text \<open>Positions are below the indexes at them, and no index occurs twice.\<close>

lemma init_positions:
  assumes "init (Some m) = Ok s"
  shows "distinct (inum s)" and "0 < k \<Longrightarrow> k < length (inum s) \<Longrightarrow> k < inum s ! k"
    and "0 < k \<Longrightarrow> k < length (inum s) \<Longrightarrow> inum s ! k < n_inodes m \<and> inum s ! k \<in> used_bits m (ibm m)"
proof -
  let ?xs = "filter (\<lambda>i. i \<in> used_bits m (ibm m) \<and> 10 < i) [0..<n_inodes m]"
  note i = init_inum(3) [OF assms]
  show "distinct (inum s)" by (simp add: i)
  have "sorted_wrt (<) ?xs" by (simp add: sorted_wrt_filter)
  then show "k < inum s ! k" if "0 < k" "k < length (inum s)"
    using sorted_nth_ge [of ?xs 11 "k - 1"] that by (cases k) (auto simp: i)
  show "inum s ! k < n_inodes m \<and> inum s ! k \<in> used_bits m (ibm m)" if "0 < k" "k < length (inum s)"
  proof -
    have "inum s ! k \<in> set ?xs" using that by (cases k) (auto simp: i simp del: set_filter)
    then show ?thesis by auto
  qed
qed

subsection \<open>The bit that is cleared\<close>

definition freed :: "nat \<Rightarrow> nat \<Rightarrow> mem \<Rightarrow> mem" where
  "freed bm i m =
     (let m = m(bm + i div 8 := m (bm + i div 8) AND NOT (2 ^ (i mod 8))) in
      wr 2 bg_free_inodes_count (rd 2 m bg_free_inodes_count + 1) m)"

lemma freed_other:
  "x \<noteq> bm + i div 8 \<Longrightarrow> x < bg_free_inodes_count \<or> bg_free_inodes_count + 2 \<le> x \<Longrightarrow> freed bm i m x = m x"
  by (auto simp: freed_def Let_def wr_other)

lemma used_bits_freed:
  assumes "bg_free_inodes_count + 2 \<le> bm"
  shows "used_bits (freed bm i m) bm = used_bits m bm - {i}"
proof -
  have "bit (freed bm i m (bm + j div 8)) (j mod 8) \<longleftrightarrow> bit (m (bm + j div 8)) (j mod 8) \<and> j \<noteq> i" for j
  proof -
    have "freed bm i m (bm + j div 8) =
        (if j div 8 = i div 8 then m (bm + j div 8) AND NOT (2 ^ (i mod 8)) else m (bm + j div 8))"
      using assms by (auto simp: freed_def Let_def wr_other)
    moreover have "j = i \<longleftrightarrow> j div 8 = i div 8 \<and> j mod 8 = i mod 8"
      by (metis div_mult_mod_eq)
    ultimately show ?thesis by (auto simp: bit_and_not_mask)
  qed
  then show ?thesis by (auto simp: used_bits_def)
qed

lemma release_bit_skip:
  assumes "\<And>i. i \<in> set is \<Longrightarrow> bm + i div 8 < DISK_SIZE \<and> i < length (inum s) \<and> inum s ! i \<noteq> pred32 inode"
    and "length (inum s) \<le> 32"
  shows "release_bit bm inode (is @ rest) s = release_bit bm inode rest s"
  using assms(1)
proof (induction "is")
  case (Cons a "is")
  have "bm + a div 8 < DISK_SIZE" "a < length (inum s)" "inum s ! a \<noteq> pred32 inode"
    using Cons.prems [of a] by auto
  moreover have "release_bit bm inode (is @ rest) s = release_bit bm inode rest s"
    by (rule Cons.IH) (simp add: Cons.prems)
  ultimately show ?case using assms(2) by (simp add: fs_simps inum_at_def)
qed simp

lemma release_bit_at:
  assumes "bm + n div 8 < DISK_SIZE" and "k < n" and "k < length (inum s)" and "length (inum s) \<le> 32"
    and "inum s ! k = pred32 inode" and "distinct (inum s)" and "k \<in> used_bits (disk s) bm"
  shows "release_bit bm inode [0..<n] s = Ok (True, s\<lparr>disk := freed bm k (disk s)\<rparr>)"
proof -
  have b: "bm + i div 8 < DISK_SIZE" if "i \<le> k" for i
    using assms(1,2) that div_le_mono [of i n 8] by linarith
  have "[0..<n] = [0..<k] @ k # [Suc k..<n]"
    using assms(2) by (metis upt_conv_Cons upt_add_eq_append le_add_diff_inverse less_imp_le_nat zero_le)
  moreover have "inum s ! i \<noteq> pred32 inode" if "i < k" for i
    using that assms(3,5,6) nth_eq_iff_index_eq [of "inum s" i k] by auto
  then have "release_bit bm inode ([0..<k] @ k # [Suc k..<n]) s = release_bit bm inode (k # [Suc k..<n]) s"
    using b assms(3,4) by (intro release_bit_skip) auto
  moreover have "bit (disk s (bm + k div 8)) (k mod 8)" using assms(7) by (simp add: used_bits_def)
  then have "release_bit bm inode (k # [Suc k..<n]) s = Ok (True, s\<lparr>disk := freed bm k (disk s)\<rparr>)"
    using b [of k] assms(3-5)
    by (simp add: fs_simps inum_at_def freed_def Let_def bg_free_inodes_count_def BGD_def DISK_SIZE_def)
  ultimately show ?thesis by simp
qed

text \<open>
  C38. \<open>remove_link\<close> frees the wrong inode.  When the last link of the inode at position \<open>k\<close> of the
  array goes, the inode stays in use and the bit \<open>k\<close> of the inode bitmap is cleared instead, which
  belongs to another inode (for the first file, to the root directory).
\<close>

theorem remove_link_frees_wrong_inode:
  assumes i: "init (Some m) = Ok s" and l: "layout m" and k: "0 < k" "k < length (inum s)" "k \<in> used_bits m (ibm m)"
    and ino: "inode = inum s ! k + 1" and links: "rd 2 m (inode_addr m inode + i_links_count) = 1"
  shows "\<exists>s'. remove_link t inode s = Ok s' \<and>
    (\<forall>j < 1024. j \<in> used_bits (disk s') (ibm m) \<longleftrightarrow> j \<in> used_bits m (ibm m) \<and> j \<noteq> k) \<and>
    inode - 1 \<in> used_bits (disk s') (ibm m) \<and> k \<noteq> inode - 1"
proof -
  note pos = init_positions [OF i] and ii = init_inum [OF i]
  note L = layout_bounds [OF l]
  have n: "0 < inode" "inode \<le> n_inodes m" "k < n_inodes m" "k \<noteq> inode - 1" "inode - 1 \<in> used_bits m (ibm m)"
    using pos(2,3) [OF k(1,2)] ino by auto
  note b = layout_inode [OF l n(1,2)] inode_addr_bounds [OF l n(1,2)]
  let ?a = "inode_addr m inode"
  have addr: "block_addr (rd 4 m (BGD + 8)) + INODE_SIZE * inode = ?a + INODE_SIZE"
    using n(1) by (cases inode) (simp_all add: inode_addr_def itab_def)
  define m1 where "m1 = wr 2 (?a + i_links_count) 0 m"
  let ?s1 = "s\<lparr>disk := m1\<rparr>"
  have low: "m1 x = m x" if "x < ?a" for x
    using that by (simp add: m1_def wr_other)
  have h: "same_header m m1" by (rule same_headerI; rule low; use b in simp)
  have u1: "j \<in> used_bits m1 (ibm m) \<longleftrightarrow> j \<in> used_bits m (ibm m)" if "j < 1024" for j
    by (rule used_bits_cong [OF low that]) (use L b in auto)
  have k1: "k < 1024" using L(2) [OF n(3)] .
  have "release_bit (ibm m) inode [0..<n_inodes m] ?s1 = Ok (True, ?s1\<lparr>disk := freed (ibm m) k (disk ?s1)\<rparr>)"
  proof (rule release_bit_at)
    have "n_inodes m div 8 \<le> 128" using l div_le_mono [of "n_inodes m" 1024 8] by (simp add: layout_def)
    then show "ibm m + n_inodes m div 8 < DISK_SIZE" using L b by auto
  qed (use n k k1 ii pos(1) ino b u1 in \<open>auto simp: pred32_pos\<close>)
  moreover have "rd 4 m1 (BGD + 4) = rd 4 m (BGD + 4)" "n_inodes m1 = n_inodes m" "ibm m1 = ibm m"
    using h b low by (auto simp: same_header_def BGD_def intro!: rd_cong)
  moreover have "st 2 (?a + i_links_count) 0 s = Ok ?s1" "ld 2 (?a + i_links_count) s = Ok 1"
    using b links by (simp_all add: fs_simps inode_fields ii(1) m1_def)
  ultimately have r: "remove_link t inode s = Ok (s\<lparr>disk := freed (ibm m) k m1\<rparr>)"
    unfolding remove_link_def header_loads ii(1) res_bind_Ok addr Let_def
    by (simp add: header_loads header_addrs)
  have u: "j \<in> used_bits (freed (ibm m) k m1) (ibm m) \<longleftrightarrow> j \<in> used_bits m (ibm m) \<and> j \<noteq> k" if "j < 1024" for j
    using used_bits_freed [OF L(4)] u1 [OF that] by auto
  have "inode - 1 < 1024" using L(2) [of "inode - 1"] n by auto
  then show ?thesis using r u n by auto
qed

text \<open>The witness: an image with one file, inode 12, at position 1 of the array.\<close>

definition one_file_disk :: mem where
  "one_file_disk = wr 2 6554 1 (sample_disk(4097 := 15))"

lemma one_file_other: "x \<noteq> 4097 \<Longrightarrow> x < 6554 \<or> 6556 \<le> x \<Longrightarrow> one_file_disk x = sample_disk x"
  by (auto simp: one_file_disk_def wr_other)

lemma one_file_rd: "a + n \<le> 4097 \<or> 4098 \<le> a \<and> a + n \<le> 6554 \<or> 6556 \<le> a \<Longrightarrow> rd n one_file_disk a = rd n sample_disk a"
  by (rule rd_cong) (auto intro!: one_file_other)

lemma one_file_header:
  "n_inodes one_file_disk = 16" "n_blocks one_file_disk = 20" "bbm one_file_disk = 3072" "ibm one_file_disk = 4096"
  "itab one_file_disk = 5120"
proof -
  have "same_header sample_disk one_file_disk" by (rule same_headerI) (simp_all add: one_file_other)
  then show "n_inodes one_file_disk = 16" "n_blocks one_file_disk = 20" "bbm one_file_disk = 3072"
    "ibm one_file_disk = 4096" "itab one_file_disk = 5120"
    by (simp_all add: same_header_def sample_header)
qed

lemma one_file_layout: "layout one_file_disk"
  by (simp add: layout_def one_file_header data_start_def DISK_SIZE_def INODE_SIZE_def)

lemma one_file_used: "i < 16 \<Longrightarrow> i \<in> used_bits one_file_disk 4096 \<longleftrightarrow> i < 12"
proof -
  assume i: "i < 16"
  show ?thesis
  proof (cases "i < 8")
    case True
    then show ?thesis
      using sample_used_inodes [of i] by (simp add: used_bits_def one_file_other)
  next
    case False
    then have d: "i div 8 = 1" "i mod 8 = i - 8" using i by presburger+
    have "one_file_disk 4097 = 2 ^ 4 - 1" by (simp add: one_file_disk_def wr_other)
    then have "i \<in> used_bits one_file_disk 4096 \<longleftrightarrow> bit (2 ^ 4 - 1 :: byte) (i - 8)"
      using d by (simp add: used_bits_def)
    then show ?thesis using low_bits [of 4 "i - 8"] False i by auto
  qed
qed

lemma one_file_zero: "6528 \<le> x \<Longrightarrow> x < 6554 \<or> 6556 \<le> x \<and> x < 7168 \<Longrightarrow> one_file_disk x = 0"
  by (auto simp: one_file_other sample_low root_inode_mem_def wr_other bitmaps_mem_def header_zero)

lemma one_file_init:
  "init (Some one_file_disk) = Ok \<lparr>disk = one_file_disk, dirs = [7], inum = [1, 11]\<rparr>"
proof -
  let ?s = "\<lparr>disk = one_file_disk, dirs = [], inum = []\<rparr>"
  have "[0..<16] = [0, 1, 2, 3, 4, 5, 6, 7, 8, 9, 10, 11, 12, 13, 14, 15 :: nat]"
    by (simp add: upt_rec)
  then have f: "filter (\<lambda>i. i \<in> used_bits one_file_disk 4096 \<and> 10 < i) [0..<16] = [11]"
    by (simp add: one_file_used)
  have u: "used_inodes 4096 [0..<16] [1] ?s = Ok [1, 11]"
    using used_inodes_filter [of "[0..<16]" 4096 "[1]" ?s] by (simp add: f DISK_SIZE_def)
  have root: "block_numbers 5288 ?s = Ok [7]"
    by (subst block_numbers.simps, subst block_numbers.simps)
      (simp add: fs_simps DISK_SIZE_def sample_rd_root one_file_rd)
  have "rd 4 one_file_disk 6568 = rd 4 (\<lambda>_. 0) 6568" "rd 2 one_file_disk 6528 = rd 2 (\<lambda>_. 0) 6528"
    by (rule rd_cong, simp add: one_file_zero)+
  moreover have "rd n (\<lambda>_. 0) a = 0" for n a by (induction n arbitrary: a) auto
  ultimately have z: "rd 4 one_file_disk 6568 = 0" "rd 2 one_file_disk 6528 = 0" by simp_all
  then have "block_numbers 6568 ?s = Ok []"
    by (subst block_numbers.simps) (simp add: fs_simps DISK_SIZE_def)
  with u root z show ?thesis
    by (simp add: init_def header_loads header_addrs one_file_header fs_simps DISK_SIZE_def inode_fields
        sample_rd_root one_file_rd INODE_SIZE_def S_ISDIR_def EXT2_S_IFDIR_def)
qed

theorem remove_link_frees_wrong_inode_witness:
  "\<exists>s'. remove_link 7 12 \<lparr>disk = one_file_disk, dirs = [7], inum = [1, 11]\<rparr> = Ok s' \<and>
    11 \<in> used_bits (disk s') 4096 \<and> 1 \<notin> used_bits (disk s') 4096"
proof -
  have "rd 2 one_file_disk 6554 = 1" by (simp add: one_file_disk_def rd_wr_same del: One_nat_def)
  then have "rd 2 one_file_disk (inode_addr one_file_disk 12 + i_links_count) = 1"
    by (simp add: inode_addr_def one_file_header INODE_SIZE_def inode_fields)
  moreover have "1 \<in> used_bits one_file_disk (ibm one_file_disk)" by (simp add: one_file_header one_file_used)
  ultimately have "\<exists>s'. remove_link 7 12 \<lparr>disk = one_file_disk, dirs = [7], inum = [1, 11]\<rparr> = Ok s' \<and>
      (\<forall>j < 1024. j \<in> used_bits (disk s') (ibm one_file_disk) \<longleftrightarrow>
        j \<in> used_bits one_file_disk (ibm one_file_disk) \<and> j \<noteq> 1) \<and>
      12 - 1 \<in> used_bits (disk s') (ibm one_file_disk) \<and> (1 :: nat) \<noteq> 12 - 1"
    by (intro remove_link_frees_wrong_inode [OF one_file_init one_file_layout]) simp_all
  then obtain s' where r: "remove_link 7 12 \<lparr>disk = one_file_disk, dirs = [7], inum = [1, 11]\<rparr> = Ok s'"
    "\<forall>j < 1024. j \<in> used_bits (disk s') 4096 \<longleftrightarrow> j \<in> used_bits one_file_disk 4096 \<and> j \<noteq> 1"
    "12 - 1 \<in> used_bits (disk s') 4096"
    unfolding one_file_header by blast
  have "(12 :: nat) - 1 = 11" "(1 :: nat) < 1024" by simp_all
  then have "1 \<notin> used_bits (disk s') 4096" "11 \<in> used_bits (disk s') 4096" using r by metis+
  then show ?thesis using r(1) by blast
qed

end
