(* ===== verification/Ext2Unlink.thy ===== *)
theory Ext2Unlink
  imports Ext2Props Ext2Remove
begin

section \<open>rm from the path to the disk\<close>

text \<open>
  Removing an entry is the inverse of \<open>create_link\<close> on the list of entries: the block before is the
  block after, grown by the entry.  So the lemmas of \<open>Ext2Link\<close> on grown blocks, read backwards, give
  the lookups after \<open>rm\<close>.
\<close>

subsection \<open>The block without the entry\<close>

definition unlink_mem :: "nat \<Rightarrow> nat \<Rightarrow> mem \<Rightarrow> mem" where
  "unlink_mem pre q m = wr 4 q 0 (wr 2 (pre + 4) (rec_len_at m pre + rec_len_at m q) m)"

lemma unlink_mem_other:
  "x < pre + 4 \<or> pre + 6 \<le> x \<Longrightarrow> x < q \<or> q + 4 \<le> x \<Longrightarrow> unlink_mem pre q m x = m x"
  by (auto simp: unlink_mem_def wr_other)

text \<open>\<open>q\<close> follows \<open>pre\<close> in a block whose first entry is not shorter than the 12 bytes of ".".\<close>

definition follows :: "mem \<Rightarrow> nat \<Rightarrow> nat \<Rightarrow> nat \<Rightarrow> bool" where
  "follows m a pre q \<longleftrightarrow> block_ok m a \<and> 12 \<le> rec_len_at m a \<and> (\<exists>xs ys. entries m a = xs @ pre # q # ys)"

lemma follows_bounds:
  assumes "follows m a pre q"
  shows "a \<le> pre" and "q = pre + rec_len_at m pre" and "8 + name_len_at m pre \<le> rec_len_at m pre"
    and "8 + name_len_at m q \<le> rec_len_at m q" and "q + rec_len_at m q \<le> a + 1024" and "a + 1024 \<le> DISK_SIZE"
    and "a + 12 \<le> q"
proof -
  obtain xs ys where e: "entries m a = xs @ pre # q # ys" and ok: "block_ok m a" and a12: "12 \<le> rec_len_at m a"
    using assms by (auto simp: follows_def)
  then have t: "tiles m (a + 1024) a (xs @ pre # q # ys)" by (simp add: block_ok_def)
  show 1: "a \<le> pre" "8 + name_len_at m pre \<le> rec_len_at m pre" "8 + name_len_at m q \<le> rec_len_at m q"
    "q + rec_len_at m q \<le> a + 1024" "a + 1024 \<le> DISK_SIZE"
    using block_entry [OF ok, of pre] block_entry [OF ok, of q] e ok by (auto simp: block_ok_def)
  show 2: "q = pre + rec_len_at m pre" using t by (auto simp: tiles_append)
  show "a + 12 \<le> q"
  proof (cases xs)
    case Nil
    then have "pre = a" using t by simp
    then show ?thesis using 2 a12 by simp
  next
    case (Cons x xs')
    then have "tiles m (a + 1024) (a + rec_len_at m a) (xs' @ pre # q # ys)" using t by simp
    then have "a + rec_len_at m a \<le> q" using tiles_entry [of m _ _ "xs' @ pre # q # ys" q] by auto
    then show ?thesis using a12 by simp
  qed
qed

lemma unlink_names:
  assumes f: "follows m a pre q" and r: "r = pre \<or> r + rec_len_at m r \<le> pre \<or> q + rec_len_at m q \<le> r"
    and len: "8 + name_len_at m r \<le> rec_len_at m r"
  shows "entry_name (unlink_mem pre q m) r = entry_name m r" and "inode_at (unlink_mem pre q m) r = inode_at m r"
    and "name_len_at (unlink_mem pre q m) r = name_len_at m r"
    and "r \<noteq> pre \<Longrightarrow> rec_len_at (unlink_mem pre q m) r = rec_len_at m r"
proof -
  let ?m = "unlink_mem pre q m"
  note b = follows_bounds [OF f]
  have same: "?m x = m x" if "r \<le> x" "x < r + 8 + name_len_at m r" "r = pre \<longrightarrow> x < r + 4 \<or> r + 6 \<le> x" for x
    using that r b len by (intro unlink_mem_other) auto
  show i: "inode_at ?m r = inode_at m r" and n: "name_len_at ?m r = name_len_at m r"
    unfolding entry_fields by (rule rd_cong; rule same; simp)+
  show "entry_name ?m r = entry_name m r"
    unfolding entry_name_def n by (rule bytes_at_cong, rule same) auto
  show "rec_len_at ?m r = rec_len_at m r" if "r \<noteq> pre"
    unfolding entry_fields by (rule rd_cong, rule same) (use that in auto)
qed

lemma unlink_pre:
  assumes f: "follows m a pre q"
  shows "rec_len_at (unlink_mem pre q m) pre = rec_len_at m pre + rec_len_at m q"
proof -
  note b = follows_bounds [OF f]
  have "rec_len_at (unlink_mem pre q m) pre = (rec_len_at m pre + rec_len_at m q) mod 2 ^ 16"
    using b by (simp add: unlink_mem_def rec_len_at_def rd_wr_other rd_wr_same)
  then show ?thesis using b by simp
qed

lemma unlink_entries:
  assumes f: "follows m a pre q"
  obtains xs ys where "entries m a = xs @ pre # q # ys" and "entries (unlink_mem pre q m) a = xs @ pre # ys"
    and "block_ok (unlink_mem pre q m) a"
    and "\<And>r. r \<in> set (xs @ pre # ys) \<Longrightarrow> entry_name (unlink_mem pre q m) r = entry_name m r \<and>
      inode_at (unlink_mem pre q m) r = inode_at m r \<and> r \<noteq> q"
proof -
  let ?m = "unlink_mem pre q m"
  note b = follows_bounds [OF f]
  obtain xs ys where e: "entries m a = xs @ pre # q # ys" and ok: "block_ok m a"
    using f by (auto simp: follows_def)
  have t: "tiles m (a + 1024) a (xs @ pre # q # ys)" using ok e by (simp add: block_ok_def)
  then have before: "tiles m pre a xs" and after: "tiles m (a + 1024) (q + rec_len_at m q) ys"
    by (auto simp: tiles_append)
  have "tiles ?m pre a xs" using before by (rule tiles_cong) (rule unlink_mem_other, use b in auto)
  moreover have "tiles ?m (a + 1024) (q + rec_len_at m q) ys"
    using after by (rule tiles_cong) (rule unlink_mem_other, use b in auto)
  then have "tiles ?m (a + 1024) pre (pre # ys)"
    using b unlink_pre [OF f] unlink_names(3) [OF f, of pre] by (simp add: add.assoc)
  ultimately have new: "tiles ?m (a + 1024) a (xs @ pre # ys)"
    using b by (auto simp: tiles_append)
  have names: "entry_name ?m r = entry_name m r \<and> inode_at ?m r = inode_at m r \<and> r \<noteq> q" if r: "r \<in> set (xs @ pre # ys)" for r
  proof -
    have "r \<in> set (entries m a)" using r e by auto
    then have len: "8 + name_len_at m r \<le> rec_len_at m r" using block_entry(2) [OF ok] by simp
    moreover have "r = pre \<or> r + rec_len_at m r \<le> pre \<or> q + rec_len_at m q \<le> r"
      using r tiles_entry [OF before, of r] tiles_entry [OF after, of r] by auto
    ultimately show ?thesis using unlink_names [OF f] b by auto
  qed
  have "a mod 1024 = 0" using ok by (simp add: block_ok_def)
  then show ?thesis
    using that [OF e tiles_entries [OF new] block_okI [OF _ b(6) new]] names by simp
qed

lemma unlink_grown:
  assumes f: "follows m a pre q"
  shows "grown_block (unlink_mem pre q m) m a q" and "block_ok (unlink_mem pre q m) a"
proof -
  let ?m = "unlink_mem pre q m"
  note b = follows_bounds [OF f]
  obtain xs ys where e: "entries m a = xs @ pre # q # ys" "entries ?m a = xs @ pre # ys" "block_ok ?m a"
    and names: "\<And>r. r \<in> set (xs @ pre # ys) \<Longrightarrow> entry_name ?m r = entry_name m r \<and> inode_at ?m r = inode_at m r \<and> r \<noteq> q"
    using unlink_entries [OF f] by blast
  show "block_ok ?m a" by (rule e)
  have "?m x = m x" if "a \<le> x" "x < a + 4 \<or> a + 8 \<le> x \<and> x < a + 10" for x
  proof (rule unlink_mem_other)
    obtain zs where zs: "entries m a = a # zs" using entries_not_Nil f by (auto simp: follows_def)
    have "tiles m pre a xs" using e(1) f by (auto simp: follows_def block_ok_def tiles_append)
    moreover have "12 \<le> rec_len_at m a" using f by (simp add: follows_def)
    ultimately have "pre = a \<or> a + 12 \<le> pre" using tiles_le by (cases xs) auto
    then show "x < pre + 4 \<or> pre + 6 \<le> x" using that by auto
  qed (use that b(7) in auto)
  then have "inode_at m a = inode_at ?m a" "bytes_at 2 m (a + 8) = bytes_at 2 ?m (a + 8)"
    by (auto simp: inode_at_def intro!: rd_cong bytes_at_cong)
  then have "dir_of m a = dir_of ?m a" by (simp add: dir_of_def)
  moreover have "block_ok m a" using f by (simp add: follows_def)
  moreover have "entries ?m a = (xs @ [pre]) @ ys" "entries m a = (xs @ [pre]) @ q # ys" using e by simp_all
  moreover have "\<forall>r \<in> set (entries ?m a). entry_name m r = entry_name ?m r \<and> inode_at m r = inode_at ?m r"
    using names unfolding e(2) by metis
  ultimately show "grown_block ?m m a q"
    unfolding grown_block_def same_names_def by blast
qed

subsection \<open>Lookups\<close>

lemma unlink_grows:
  assumes ok: "dirs_ok s" and f: "follows (disk s) a pre q"
  defines "s' \<equiv> s\<lparr>disk := unlink_mem pre q (disk s)\<rparr>"
  shows "grows s' s a q" and "dirs_ok s'"
proof -
  note b = follows_bounds [OF f]
  have each: "if block_addr c = a then grown_block (disk s') (disk s) a q
      else same_block (disk s') (disk s) (block_addr c)" "block_ok (disk s') (block_addr c)" if c: "c \<in> set (dirs s)" for c
  proof -
    have okc: "block_ok (disk s) (block_addr c)" using ok c by (simp add: dirs_ok_def)
    have other: "disk s' x = disk s x" if "block_addr c \<noteq> a" "block_addr c \<le> x" "x < block_addr c + 1024" for x
    proof -
      have "block_ok (disk s) a" using f by (simp add: follows_def)
      then have "a + 1024 \<le> block_addr c \<or> block_addr c + 1024 \<le> a" using blocks_apart okc that(1) by blast
      then show ?thesis using that b unfolding s'_def by (auto intro!: unlink_mem_other)
    qed
    show o: "block_ok (disk s') (block_addr c)"
    proof (cases "block_addr c = a")
      case False
      then show ?thesis using block_ok_cong [OF okc] other by blast
    qed (use unlink_grown [OF f] in \<open>simp add: s'_def\<close>)
    show "if block_addr c = a then grown_block (disk s') (disk s) a q
        else same_block (disk s') (disk s) (block_addr c)"
      using unlink_grown [OF f] same_blockI [OF o] other by (simp add: s'_def)
  qed
  have "dirs s' = dirs s" by (simp add: s'_def)
  then show "grows s' s a q" using each(1) unfolding grows_def by (intro conjI ballI) simp_all
  show "dirs_ok s'" using each(2) unfolding dirs_ok_def by (simp add: s'_def)
qed

lemma unlink_lookup:
  assumes ok: "dirs_ok s" and f: "follows (disk s) a pre q" and d: "dir_of (disk s) a = Some d"
    and a: "c \<in> set (dirs s)" "block_addr c = a"
    and one: "\<forall>r \<in> set (dir_entries s d). entry_name (disk s) r = entry_name (disk s) q \<longrightarrow> r = q"
  shows "lookup (s\<lparr>disk := unlink_mem pre q (disk s)\<rparr>) j t =
    (if j = d \<and> t = entry_name (disk s) q then None else lookup s j t)"
proof -
  let ?m = "unlink_mem pre q (disk s)"
  let ?s = "s\<lparr>disk := ?m\<rparr>"
  note g = unlink_grows [OF ok f]
  obtain xs ys where e: "entries (disk s) a = xs @ pre # q # ys" "entries ?m a = xs @ pre # ys"
    and names: "\<And>r. r \<in> set (xs @ pre # ys) \<Longrightarrow> entry_name ?m r = entry_name (disk s) r \<and>
      inode_at ?m r = inode_at (disk s) r \<and> r \<noteq> q"
    using unlink_entries [OF f] by blast
  have dir: "dir_of ?m (block_addr b) = dir_of (disk s) (block_addr b)" if "b \<in> set (dirs s)" for b
    using grows_names(1) [OF g(1)] that by simp
  have none: "entry_name ?m r \<noteq> entry_name (disk s) q" if r: "r \<in> set (dir_entries ?s d)" for r
  proof -
    obtain b where b: "b \<in> set (dirs s)" "dir_of (disk s) (block_addr b) = Some d" "r \<in> set (entries ?m (block_addr b))"
      using r dir by (auto simp: dir_entries_def)
    show ?thesis
    proof (cases "block_addr b = a")
      case True
      then have "r \<in> set (xs @ pre # ys)" using b(3) e(2) by simp
      moreover from this have "r \<in> set (dir_entries s d)" using b True e(1) by (auto simp: dir_entries_def)
      ultimately show ?thesis using names one by metis
    next
      case False
      then have same: "same_block ?m (disk s) (block_addr b)" using g(1) b(1) False by (auto simp: grows_def)
      then have r': "r \<in> set (entries (disk s) (block_addr b))" "entry_name ?m r = entry_name (disk s) r"
        using b(3) by (auto simp: same_block_def same_names_def)
      have okb: "block_ok (disk s) (block_addr b)" "block_ok (disk s) a"
        using ok b(1) f by (auto simp: dirs_ok_def follows_def)
      have "q \<in> set (entries (disk s) a)" using e(1) by simp
      then have "r \<noteq> q"
        using block_entry(1-3) [OF okb(1) r'(1)] block_entry(1-3) [OF okb(2), of q] blocks_apart [OF okb False] by auto
      moreover have "r \<in> set (dir_entries s d)" using b r'(1) by (auto simp: dir_entries_def)
      ultimately show ?thesis using one r'(2) by metis
    qed
  qed
  have "lookup ?s d (entry_name (disk s) q) = None"
    using none by (auto simp: lookup_def find_None_iff name_is_def)
  moreover have "dir_of ?m a = Some d" using dir [OF a(1)] a(2) d by simp
  then have "lookup ?s j t = lookup s j t" if "j \<noteq> d \<or> t \<noteq> entry_name (disk s) q"
    using lookup_grows_other [OF g(1), of j t] that by auto
  ultimately show ?thesis by auto
qed

subsection \<open>The entry that is found\<close>

lemma scan_list_pre:
  "scan_list (\<lambda>pre q. if P q then Some (pre, q) else None) pre0 qs = Some (r, q) \<Longrightarrow>
    \<exists>xs ys. qs = xs @ q # ys \<and> r = (if xs = [] then pre0 else last xs)"
proof (induction qs arbitrary: pre0)
  case (Cons x qs)
  show ?case
  proof (cases "P x")
    case True
    then have "qs = qs \<and> x # qs = [] @ q # qs \<and> r = pre0" using Cons.prems by simp
    then show ?thesis by force
  next
    case False
    then obtain xs ys where "qs = xs @ q # ys" "r = (if xs = [] then x else last xs)"
      using Cons.IH [of x] Cons.prems by auto
    then have "x # qs = (x # xs) @ q # ys \<and> r = last (x # xs)" by simp
    then show ?thesis by (metis list.discI)
  qed
qed simp

text \<open>All entries of all directories, in the order the functions visit them.\<close>

definition all_entries :: "fs \<Rightarrow> nat list" where
  "all_entries s = concat (map (\<lambda>b. entries (disk s) (block_addr b)) (dirs s))"

text \<open>No block starts with an entry called \<open>f\<close>: a directory's first entry is ".".\<close>

definition not_first :: "fs \<Rightarrow> cstr \<Rightarrow> bool" where
  "not_first s f \<longleftrightarrow> (\<forall>b \<in> set (dirs s). entry_name (disk s) (block_addr b) \<noteq> f \<and> 12 \<le> rec_len_at (disk s) (block_addr b))"

definition sits :: "mem \<Rightarrow> nat \<Rightarrow> nat \<Rightarrow> nat \<Rightarrow> bool" where
  "sits m a pre q \<longleftrightarrow> (\<exists>xs ys. entries m a = xs @ q # ys \<and> pre = (if xs = [] then a else last xs))"

lemma search_dirs_pre:
  assumes "\<forall>b \<in> set bs. block_ok (disk s) (block_addr b)" and "0 \<notin> set t"
    and "find (name_is (disk s) t) (concat (map (\<lambda>b. entries (disk s) (block_addr b)) bs)) = Some q"
  shows "\<exists>pre b. search_dirs t bs s = Ok (Some (pre, q)) \<and> b \<in> set bs \<and> sits (disk s) (block_addr b) pre q"
  using assms(1,3)
proof (induction bs)
  case (Cons b bs)
  let ?a = "block_addr b" and ?g = "\<lambda>pre q. if name_is (disk s) t q then Some (pre, q) else None"
  have b: "block_ok (disk s) ?a" using Cons.prems by simp
  note sc = scan_named [OF b assms(2)]
  show ?case
  proof (cases "scan_list ?g ?a (entries (disk s) ?a)")
    case None
    then have "find (name_is (disk s) t) (entries (disk s) ?a) = None" by (simp add: scan_list_None)
    then have "find (name_is (disk s) t) (concat (map (\<lambda>b. entries (disk s) (block_addr b)) bs)) = Some q"
      using Cons.prems(2) by (simp add: find_append)
    then show ?thesis using Cons.IH Cons.prems(1) None sc by auto
  next
    case (Some x)
    obtain pre q' where x: "x = (pre, q')" by (cases x)
    then have "find (name_is (disk s) t) (entries (disk s) ?a) = Some q'"
      using scan_list_find [of "name_is (disk s) t" ?a "entries (disk s) ?a" pre q'] Some by simp
    then have "q' = q" using Cons.prems(2) by (simp add: find_append)
    then have "sits (disk s) ?a pre q"
      using scan_list_pre [of "name_is (disk s) t"] Some x by (simp add: sits_def)
    moreover have "search_dirs t (b # bs) s = Ok (Some (pre, q))" using Some x sc \<open>q' = q\<close> by simp
    ultimately show ?thesis by auto
  qed
qed simp

lemma found_entry:
  assumes ok: "dirs_ok s" and t: "0 \<notin> set f" and nf: "not_first s f"
    and q: "find (name_is (disk s) f) (all_entries s) = Some q"
  obtains pre b where "find_dir_entry i f s = Ok (Some q)" and "find_pre_pos i f s = Ok (Some pre)"
    and "b \<in> set (dirs s)" and "follows (disk s) (block_addr b) pre q"
proof -
  obtain pre b xs ys where r: "search_dirs f (dirs s) s = Ok (Some (pre, q))" "b \<in> set (dirs s)"
    "entries (disk s) (block_addr b) = xs @ q # ys" "pre = (if xs = [] then block_addr b else last xs)"
    using search_dirs_pre [of "dirs s" s f q] ok t q by (auto simp: dirs_ok_def all_entries_def sits_def)
  have okb: "block_ok (disk s) (block_addr b)" using ok r(2) by (simp add: dirs_ok_def)
  have name: "entry_name (disk s) q = f" using find_Some_in [OF q] by (simp add: name_is_def)
  have "xs \<noteq> []"
  proof
    assume "xs = []"
    then have "q = block_addr b" using r(3) entries_not_Nil [OF okb] by auto
    then show False using nf r(2) name by (simp add: not_first_def)
  qed
  then have "entries (disk s) (block_addr b) = butlast xs @ pre # q # ys"
    using r(3,4) append_butlast_last_id [of xs] by (metis append.assoc append_Cons append_Nil)
  then have "follows (disk s) (block_addr b) pre q"
    using okb nf r(2) unfolding follows_def not_first_def by blast
  then show ?thesis
    using that r(1,2) by (simp add: find_dir_entry_def find_pre_pos_def)
qed

lemma found_file:
  assumes ok: "dirs_ok s" and f: "0 \<notin> set f" and q: "find (name_is (disk s) f) (all_entries s) = Some q"
  shows "find_dir_entry i f s = Ok (Some q)" and "q + 8 + name_len_at (disk s) q \<le> DISK_SIZE"
    and "entry_name (disk s) q = f" and "de_file_type q s = Ok (file_type_at (disk s) q)"
proof -
  obtain r where r: "search_dirs f (dirs s) s = Ok r" "map_option snd r = Some q"
    using search_dirs_find [of "dirs s" s f] ok f q by (auto simp: dirs_ok_def all_entries_def)
  then show "find_dir_entry i f s = Ok (Some q)" by (simp add: find_dir_entry_def)
  show "entry_name (disk s) q = f" using find_Some_in [OF q] by (simp add: name_is_def)
  obtain c where c: "c \<in> set (dirs s)" "q \<in> set (entries (disk s) (block_addr c))"
    using find_Some_in [OF q] by (auto simp: all_entries_def)
  then show qb: "q + 8 + name_len_at (disk s) q \<le> DISK_SIZE"
    using ok block_entry(4) [OF _ c(2)] by (simp add: dirs_ok_def)
  then show "de_file_type q s = Ok (file_type_at (disk s) q)" by (simp add: entry_loads)
qed

lemma unlink_entry_eq:
  assumes "find_pre_pos i f s = Ok (Some pre)" and "follows (disk s) a pre q"
  shows "unlink_entry t q i f s = remove_link t i (s\<lparr>disk := unlink_mem pre q (disk s)\<rparr>)"
  using assms(1) follows_bounds [OF assms(2)] by (simp add: unlink_entry_def fs_simps unlink_mem_def)

subsection \<open>What remove_link writes\<close>

definition link_bytes :: "mem \<Rightarrow> nat \<Rightarrow> nat set" where
  "link_bytes m i = {2062, 2063} \<union> {ibm m..<ibm m + 4} \<union> {inode_addr m i..<inode_addr m i + 128}"

definition same_but :: "nat set \<Rightarrow> fs \<Rightarrow> fs \<Rightarrow> bool" where
  "same_but W s s' \<longleftrightarrow> dirs s' = dirs s \<and> inum s' = inum s \<and> (\<forall>x. x \<notin> W \<longrightarrow> disk s' x = disk s x)"

lemma same_but_refl [simp]: "same_but W s s"
  by (simp add: same_but_def)

lemma same_but_trans: "same_but W s s' \<Longrightarrow> same_but W s' s'' \<Longrightarrow> same_but W s s''"
  by (simp add: same_but_def)

lemma same_but_wr: "{p..<p + n} \<subseteq> W \<Longrightarrow> same_but W s (s\<lparr>disk := wr n p v (disk s)\<rparr>)"
proof -
  assume "{p..<p + n} \<subseteq> W"
  then have "x < p \<or> p + n \<le> x" if "x \<notin> W" for x using that by (meson atLeastLessThan_iff not_le subsetD)
  then show ?thesis by (simp add: same_but_def wr_other)
qed

lemma release_bit_frame:
  assumes "\<forall>k \<in> set ks. k < 32" and "bm + 4 \<le> DISK_SIZE"
  shows "\<exists>r s'. release_bit bm i ks s = Ok (r, s') \<and> same_but ({2062, 2063} \<union> {bm..<bm + 4}) s s'"
  using assms(1)
proof (induction ks)
  case (Cons k ks)
  have k: "k div 8 < 4" "k < 32" using Cons.prems by auto
  then have b: "bm + k div 8 < DISK_SIZE" using assms(2) by simp
  let ?x = "if k < length (inum s) then inum s ! k else 0"
  show ?case
  proof (cases "bit (disk s (bm + k div 8)) (k mod 8) \<and> ?x = pred32 i")
    case True
    then have "release_bit bm i (k # ks) s = Ok (True, s\<lparr>disk := freed bm k (disk s)\<rparr>)"
      using b k by (simp add: fs_simps inum_at_def freed_def Let_def bg_free_inodes_count_def BGD_def DISK_SIZE_def)
    moreover have "freed bm k (disk s) x = disk s x" if "x \<notin> {2062, 2063} \<union> {bm..<bm + 4}" for x
    proof (rule freed_other)
      have "bg_free_inodes_count = 2062" by (simp add: bg_free_inodes_count_def BGD_def)
      moreover have "x < 2062 \<or> 2064 \<le> x" using that by auto
      ultimately show "x < bg_free_inodes_count \<or> bg_free_inodes_count + 2 \<le> x" by linarith
    qed (use that k in auto)
    then have "same_but ({2062, 2063} \<union> {bm..<bm + 4}) s (s\<lparr>disk := freed bm k (disk s)\<rparr>)"
      by (simp add: same_but_def)
    ultimately show ?thesis by blast
  next
    case False
    then have "release_bit bm i (k # ks) s = release_bit bm i ks s"
      using b k by (auto simp: fs_simps inum_at_def)
    then show ?thesis using Cons by simp
  qed
qed auto

lemma read_blocks_Ok: "\<forall>k \<in> set ks. k < 15 \<Longrightarrow> p + 128 \<le> DISK_SIZE \<Longrightarrow> read_blocks ks p s = Ok ()"
  by (induction ks) (auto simp: fs_simps i_block_def)

lemma header_same_but:
  assumes l: "layout (disk s)" and "same_but W s s'" and "W \<inter> {2048..<2060} = {}" and "W \<inter> {1024..<1032} = {}"
  shows "same_header (disk s) (disk s')" and "rd 4 (disk s') (BGD + 8) = rd 4 (disk s) (BGD + 8)"
    and "rd 4 (disk s') (BGD + 4) = rd 4 (disk s) (BGD + 4)"
proof -
  have same: "disk s' x = disk s x" if "x \<in> {2048..<2060} \<or> x \<in> {1024..<1032}" for x
    using assms(2-4) that by (auto simp: same_but_def)
  show "same_header (disk s) (disk s')" by (rule same_headerI; rule same; simp)
  show "rd 4 (disk s') (BGD + 8) = rd 4 (disk s) (BGD + 8)" "rd 4 (disk s') (BGD + 4) = rd 4 (disk s) (BGD + 4)"
    by (rule rd_cong; rule same; simp add: BGD_def)+
qed

lemma remove_link_frame:
  assumes l: "layout (disk s)" and n: "n_inodes (disk s) \<le> 32" and i: "0 < i" "i \<le> n_inodes (disk s)"
  shows "\<exists>s'. remove_link t i s = Ok s' \<and> same_but (link_bytes (disk s) i) s s'"
proof -
  let ?a = "inode_addr (disk s) i" and ?W = "link_bytes (disk s) i" and ?links = "rd 2 (disk s) (inode_addr (disk s) i + i_links_count)"
  note b = layout_inode [OF l i] and L = layout_bounds [OF l]
  have addr: "block_addr (rd 4 (disk s) (BGD + 8)) + INODE_SIZE * i = ?a + INODE_SIZE"
    using i(1) by (cases i) (simp_all add: inode_addr_def itab_def)
  have W: "?W \<inter> {2048..<2060} = {}" "?W \<inter> {1024..<1032} = {}"
    using b L by (auto simp: link_bytes_def)
  have dtime: "\<exists>s''. st 4 (?a + i_dtime) t s' = Ok s'' \<and> same_but ?W s s''" if "same_but ?W s s'" for s'
  proof -
    have "{?a + i_dtime..<?a + i_dtime + 4} \<subseteq> ?W" by (auto simp: link_bytes_def inode_fields)
    then have "same_but ?W s (s'\<lparr>disk := wr 4 (?a + i_dtime) t (disk s')\<rparr>)"
      by (rule same_but_trans [OF that same_but_wr])
    moreover have "?a + i_dtime + 4 \<le> DISK_SIZE" using b by (simp add: inode_fields)
    ultimately show ?thesis by (simp add: st_Ok)
  qed
  define s1 where "s1 = s\<lparr>disk := wr 2 (?a + i_links_count) (?links - 1) (disk s)\<rparr>"
  have s1: "same_but ?W s s1"
    unfolding s1_def by (rule same_but_wr) (auto simp: link_bytes_def inode_fields)
  note h = header_same_but [OF l s1 W]
  have st1: "st 2 (?a + i_links_count) (?links - 1) s = Ok s1" "ld 2 (?a + i_links_count) s = Ok ?links"
    using b by (simp_all add: fs_simps inode_fields s1_def)
  have "\<forall>k \<in> set [0..<n_inodes (disk s)]. k < 32" "ibm (disk s) + 4 \<le> DISK_SIZE" using n L by auto
  then obtain r s2 where s2: "release_bit (ibm (disk s)) i [0..<n_inodes (disk s)] s1 = Ok (r, s2)"
    "same_but ({2062, 2063} \<union> {ibm (disk s)..<ibm (disk s) + 4}) s1 s2"
    using release_bit_frame by blast
  then have s2': "same_but ?W s s2"
    using s1 by (auto simp: same_but_def link_bytes_def)
  have rel: "release_bit (block_addr (rd 4 (disk s1) (BGD + 4))) i [0..<n_inodes (disk s1)] s1 = Ok (r, s2)"
    using h s2(1) by (simp add: header_addrs same_header_def)
  have rb: "read_blocks [0..<12] ?a s' = Ok ()" for s'
    by (rule read_blocks_Ok) (use b in auto)
  show ?thesis
    unfolding remove_link_def header_loads res_bind_Ok addr Let_def
    using st1 rel rb dtime [of s] dtime [OF s1] dtime [OF s2'] s2' by (cases r) auto
qed

text \<open>Writes to the inode table and the inode bitmap change no directory.\<close>

lemma same_but_wf:
  assumes wf: "fs_wf s" and i: "0 < i" "i \<le> n_inodes (disk s)" and same: "same_but (link_bytes (disk s) i) s s'"
  shows "fs_wf s'" and "dirs s' = dirs s" and "lookup s' j u = lookup s j u" and "same_header (disk s) (disk s')"
    and "b < n_blocks (disk s) \<Longrightarrow> b \<in> used_bits (disk s') (bbm (disk s)) \<longleftrightarrow> b \<in> used_bits (disk s) (bbm (disk s))"
proof -
  have l: "layout (disk s)" and ok: "dirs_ok s" using wf by (auto simp: fs_wf_def)
  note L = layout_bounds [OF l] and b = layout_inode [OF l i] inode_addr_bounds [OF l i]
  have W: "link_bytes (disk s) i \<inter> {2048..<2060} = {}" "link_bytes (disk s) i \<inter> {1024..<1032} = {}"
    "link_bytes (disk s) i \<inter> {bbm (disk s)..<bbm (disk s) + 128} = {}"
    "x \<in> link_bytes (disk s) i \<Longrightarrow> x < data_start (disk s)" for x
    using b L by (auto simp: link_bytes_def)
  show h: "same_header (disk s) (disk s')" by (rule header_same_but(1) [OF l same W(1,2)])
  show d: "dirs s' = dirs s" using same by (simp add: same_but_def)
  have "data_same {} s s'" using h d same W(4) by (force simp: data_same_def same_but_def)
  then have k: "keeps_dirs s s'" by (rule data_same_keeps [OF _ ok]) (use wf in \<open>auto simp: fs_wf_def\<close>)
  then show "lookup s' j u = lookup s j u" by (rule keeps_dirs_lookup)
  have bits: "j \<in> used_bits (disk s') (bbm (disk s)) \<longleftrightarrow> j \<in> used_bits (disk s) (bbm (disk s))" if "j < 1024" for j
    using same W(3) that by (intro used_bits_cong) (auto simp: same_but_def)
  then show "b < n_blocks (disk s) \<Longrightarrow> b \<in> used_bits (disk s') (bbm (disk s)) \<longleftrightarrow> b \<in> used_bits (disk s) (bbm (disk s))"
    using L(1) by blast
  show "fs_wf s'"
    by (rule fs_wf_step [OF wf d h keeps_dirs_lookup(2) [OF k]]) (use bits in blast)
qed

lemma remove_link_wf:
  assumes wf: "fs_wf s" and n: "n_inodes (disk s) \<le> 32" and i: "0 < i" "i \<le> n_inodes (disk s)"
  shows "\<exists>s'. remove_link t i s = Ok s' \<and> fs_wf s' \<and> dirs s' = dirs s \<and> (\<forall>j u. lookup s' j u = lookup s j u)"
proof -
  have "layout (disk s)" using wf by (simp add: fs_wf_def)
  then obtain s' where "remove_link t i s = Ok s'" "same_but (link_bytes (disk s) i) s s'"
    using remove_link_frame [OF _ n i] by blast
  then show ?thesis using same_but_wf [OF wf i] by blast
qed

lemma unlink_wf:
  assumes wf: "fs_wf s" and c: "c \<in> set (dirs s)" and f: "follows (disk s) (block_addr c) pre q"
  defines "s' \<equiv> s\<lparr>disk := unlink_mem pre q (disk s)\<rparr>"
  shows "fs_wf s'" and "n_inodes (disk s') = n_inodes (disk s)"
proof -
  note b = follows_bounds [OF f]
  have l: "layout (disk s)" and ok: "dirs_ok s" and c': "data_start (disk s) \<le> block_addr c"
    using wf c by (auto simp: fs_wf_def)
  note L = layout_bounds [OF l]
  have low: "disk s' x = disk s x" if "x < data_start (disk s)" for x
    using that c' b unfolding s'_def by (auto intro!: unlink_mem_other)
  have h: "same_header (disk s) (disk s')" by (rule same_headerI; rule low; use L in simp)
  then show "n_inodes (disk s') = n_inodes (disk s)" by (simp add: same_header_def)
  show "fs_wf s'"
  proof (rule fs_wf_step [OF wf _ h])
    show "dirs s' = dirs s" by (simp add: s'_def)
    show "dirs_ok s'" using unlink_grows(2) [OF ok f] by (simp add: s'_def)
    fix j assume j: "j < 1024" "j \<in> used_bits (disk s) (bbm (disk s))"
    have "disk s' x = disk s x" if "bbm (disk s) \<le> x" "x < bbm (disk s) + 128" for x
      using that L by (intro low) auto
    then show "j \<in> used_bits (disk s') (bbm (disk s))" using j used_bits_cong by blast
  qed
qed

subsection \<open>rm\<close>

text \<open>The assumption of the theorem on the entry: the first of its name, and the only one in \<open>d\<close>.\<close>

definition only_entry :: "fs \<Rightarrow> nat \<Rightarrow> cstr \<Rightarrow> nat \<Rightarrow> bool" where
  "only_entry s d f q \<longleftrightarrow> find (name_is (disk s) f) (all_entries s) = Some q \<and> q \<in> set (dir_entries s d) \<and>
     (\<forall>r \<in> set (dir_entries s d). entry_name (disk s) r = f \<longrightarrow> r = q)"

lemma unlink_entry_effect:
  assumes wf: "fs_wf s" and n: "n_inodes (disk s) \<le> 32" and f: "0 \<notin> set f" "not_first s f"
    and i: "0 < i" "i \<le> n_inodes (disk s)" and q: "only_entry s d f q"
  shows "find_dir_entry i f s = Ok (Some q)"
    and "\<exists>s'. unlink_entry t q i f s = Ok s' \<and> fs_wf s' \<and> dirs s' = dirs s \<and>
      (\<forall>j u. lookup s' j u = (if j = d \<and> u = f then None else lookup s j u))"
proof -
  have ok: "dirs_ok s" using wf by (simp add: fs_wf_def)
  obtain pre c where c: "find_dir_entry i f s = Ok (Some q)" "find_pre_pos i f s = Ok (Some pre)"
    "c \<in> set (dirs s)" "follows (disk s) (block_addr c) pre q"
    using found_entry [OF ok f, of q i] q by (auto simp: only_entry_def)
  have name: "entry_name (disk s) q = f"
    using q find_Some_in by (fastforce simp: only_entry_def name_is_def)
  obtain b where b: "b \<in> set (dirs s)" "dir_of (disk s) (block_addr b) = Some d" "q \<in> set (entries (disk s) (block_addr b))"
    using q by (auto simp: only_entry_def dir_entries_def)
  have okb: "block_ok (disk s) (block_addr b)" "block_ok (disk s) (block_addr c)"
    using ok b(1) c(3) by (auto simp: dirs_ok_def)
  have "block_addr b = block_addr c"
    using blocks_apart [OF okb] block_entry(1-3) [OF okb(1) b(3)] follows_bounds [OF c(4)] by auto
  then have d: "dir_of (disk s) (block_addr c) = Some d" using b(2) by simp
  let ?s = "s\<lparr>disk := unlink_mem pre q (disk s)\<rparr>"
  note w = unlink_wf [OF wf c(3,4)]
  obtain s' where s': "remove_link t i ?s = Ok s'" "fs_wf s'" "dirs s' = dirs ?s" "\<forall>j u. lookup s' j u = lookup ?s j u"
    using remove_link_wf [OF w(1), of i t] w(2) n i by auto
  have "lookup ?s j u = (if j = d \<and> u = f then None else lookup s j u)" for j u
    using unlink_lookup [OF ok c(4) d c(3) refl, of j u] q name by (simp add: only_entry_def)
  then show "\<exists>s'. unlink_entry t q i f s = Ok s' \<and> fs_wf s' \<and> dirs s' = dirs s \<and>
      (\<forall>j u. lookup s' j u = (if j = d \<and> u = f then None else lookup s j u))"
    using s' unlink_entry_eq [OF c(2,4), of t] by auto
  show "find_dir_entry i f s = Ok (Some q)" by (rule c)
qed

text \<open>
  C5. \<open>rm\<close> unlinks the first entry of that name.  On a well-formed image with at most 32 inodes, for a
  path that resolves to a file, \<open>rm\<close> ends with status 0; the image is well formed afterwards, the name
  is gone from one directory, and every other lookup is unchanged.  That directory is the one of the
  first entry called \<open>f\<close> on the disk, whichever directory the path names: if an earlier directory
  has the name too, the wrong file loses its name.
\<close>

theorem rm_unlinks_first_name:
  assumes wf: "fs_wf s" and n: "n_inodes (disk s) \<le> 32"
    and path: "0 \<notin> set path" "tokens path = ps @ [f]" "f \<notin> set ps" "f \<noteq> dot" "f \<noteq> dotdot"
    and i: "resolve s 2 (ps @ [f]) = Some i" "0 < i" "i \<le> n_inodes (disk s)"
    and q: "only_entry s d f q" "not_first s f"
    and ft: "file_type_at (disk s) q = EXT2_FT_REG_FILE \<or> file_type_at (disk s) q = EXT2_FT_SYMLINK"
  shows "\<exists>s'. rm_path t path s = Ok (0, [], Some (disk s')) \<and> fs_wf s' \<and> dirs s' = dirs s \<and>
    (\<forall>j u. lookup s' j u = (if j = d \<and> u = f then None else lookup s j u))"
proof -
  have ok: "dirs_ok s" using wf by (simp add: fs_wf_def)
  have f0: "0 \<notin> set f" using tokens_no_zero [OF path(1), of f] path(2) by simp
  note u = unlink_entry_effect [OF wf n f0 q(2) i(2,3) q(1)]
  have ns: "path \<noteq> [slash]" using path(2) tokens_all_slash [of "[slash]"] by auto
  have base: "basename path = f" using basename_last [of path] path(2) by simp
  have tr: "traverse 2 (tokens path) f s = Ok i"
    using traverse_path [OF ok path(1-3), of 2] i(1) path(2) by simp
  have "q \<in> set (dir_entries s d)" using q(1) by (simp add: only_entry_def)
  then obtain b where "block_ok (disk s) (block_addr b)" "q \<in> set (entries (disk s) (block_addr b))"
    using dir_entries_block [OF ok] by blast
  then have ld: "de_file_type q s = Ok (file_type_at (disk s) q)"
    using block_entry(4) by (intro entry_loads) fastforce
  obtain s' where s': "unlink_entry t q i f s = Ok s'" "fs_wf s'" "dirs s' = dirs s"
    "\<forall>j u. lookup s' j u = (if j = d \<and> u = f then None else lookup s j u)"
    using u(2) by blast
  have "rm_path t path s = Ok (0, [], Some (disk s'))"
    using ns base path(2,4,5) tr i(2) u(1) ld ft s'(1) unfolding rm_path_def Let_def
    by (simp add: done_with_def) auto
  then show ?thesis using s' by blast
qed

text \<open>The witness: the file \<open>/a\<close>, inode 12, linked into the small image.\<close>

definition file_disk :: mem where
  "file_disk = linked 7180 12 [97] EXT2_FT_REG_FILE sample_disk"

abbreviation file_fs :: fs where
  "file_fs \<equiv> sample_fs\<lparr>disk := file_disk\<rparr>"

lemma sample_dotdot: "rec_len_at sample_disk 7180 = 1012" "name_len_at sample_disk 7180 = 2"
    "rec_len_at sample_disk 7168 = 12"
  using dir_block_mem_fields [of 7168 2 2 root_inode_mem] by (simp_all add: sample_disk_def)

lemma dir_size_2: "dir_size_for 2 = 12"
  by (simp add: dir_size_for_def round_up_def)

lemma file_splits: "splits sample_disk 7168 7180 10 [97]"
  using sample_root by (simp add: splits_def fresh_dir_def sample_entries room_def sample_dotdot dir_size_2)

lemma file_disk_low: "x < 7168 \<Longrightarrow> file_disk x = sample_disk x"
  unfolding file_disk_def by (rule linked_other [OF file_splits]) simp

lemma file_header: "same_header sample_disk file_disk"
  by (rule same_headerI; rule file_disk_low; simp)

lemma file_entries: "entries file_disk 7168 = [7168, 7180, 7192]" "block_ok file_disk 7168"
proof -
  obtain ps1 ps2 where ps: "entries sample_disk 7168 = ps1 @ 7180 # ps2"
    "entries file_disk 7168 = ps1 @ 7180 # (7180 + dir_size_for (name_len_at sample_disk 7180)) # ps2"
    "block_ok file_disk 7168"
    using linked_entries [OF file_splits, of 12 EXT2_FT_REG_FILE] unfolding file_disk_def by metis
  have "ps1 = [7168] \<and> ps2 = []" using ps(1) by (cases ps1) (auto simp: sample_entries Cons_eq_append_conv)
  then show "entries file_disk 7168 = [7168, 7180, 7192]" "block_ok file_disk 7168"
    using ps(2,3) by (simp_all add: sample_dotdot dir_size_2)
qed

lemma file_names: "entry_name file_disk 7168 = dot" "entry_name file_disk 7180 = dotdot" "entry_name file_disk 7192 = [97]"
  "inode_at file_disk 7192 = 12" "file_type_at file_disk 7192 = EXT2_FT_REG_FILE" "rec_len_at file_disk 7168 = 12"
proof -
  show "entry_name file_disk 7168 = dot" "entry_name file_disk 7180 = dotdot"
    using linked_entry [OF file_splits, of _ 12 EXT2_FT_REG_FILE] sample_names
    by (simp_all add: file_disk_def sample_entries)
  show "entry_name file_disk 7192 = [97]" "inode_at file_disk 7192 = 12" "file_type_at file_disk 7192 = EXT2_FT_REG_FILE"
    using split_mem_new [of 12 1012 "[97]" 7180 12 EXT2_FT_REG_FILE sample_disk]
    by (simp_all add: file_disk_def sample_dotdot dir_size_2 EXT2_FT_REG_FILE_def)
  have "rec_len_at file_disk 7168 = rec_len_at sample_disk 7168"
    using entry_fields_cong [of 7168 file_disk sample_disk] linked_other [OF file_splits] by (simp add: file_disk_def)
  then show "rec_len_at file_disk 7168 = 12" by (simp add: sample_dotdot)
qed

lemma file_dir: "dir_of file_disk 7168 = Some 2"
  using dir_of_linked [OF file_splits] sample_root by (simp add: file_disk_def fresh_dir_def)

lemma file_wf: "fs_wf file_fs"
proof (rule fs_wf_step [OF sample_wf])
  show "same_header (disk sample_fs) (disk file_fs)" using file_header by simp
  show "dirs_ok file_fs" using file_entries by (simp add: dirs_ok_def sample_block_addr)
  fix j assume j: "j < 1024" "j \<in> used_bits (disk sample_fs) (bbm (disk sample_fs))"
  have "j \<in> used_bits file_disk 3072 \<longleftrightarrow> j \<in> used_bits sample_disk 3072"
    by (rule used_bits_cong) (use j in \<open>auto intro: file_disk_low\<close>)
  then show "j \<in> used_bits (disk file_fs) (bbm (disk sample_fs))" using j by (simp add: sample_header)
qed simp

lemma file_lookup: "lookup file_fs 2 [97] = Some 12"
  by (simp add: lookup_def dir_entries_def sample_block_addr file_dir file_entries name_is_def file_names dot_def dotdot_def)

lemma file_only: "only_entry file_fs 2 [97] 7192" "not_first file_fs [97]"
  by (simp_all add: only_entry_def all_entries_def dir_entries_def sample_block_addr file_dir file_entries
      name_is_def file_names dot_def dotdot_def not_first_def)

theorem rm_unlinks_first_name_witness:
  "\<exists>s'. rm_path 5 [47, 97] file_fs = Ok (0, [], Some (disk s')) \<and> lookup s' 2 [97] = None \<and>
    lookup file_fs 2 [97] = Some 12"
proof -
  have "\<exists>s'. rm_path 5 [47, 97] file_fs = Ok (0, [], Some (disk s')) \<and> fs_wf s' \<and> dirs s' = dirs file_fs \<and>
    (\<forall>j u. lookup s' j u = (if j = 2 \<and> u = [97] then None else lookup file_fs j u))"
  proof (rule rm_unlinks_first_name [where ps = "[]" and i = 12, OF file_wf])
    show "n_inodes (disk file_fs) \<le> 32" "12 \<le> n_inodes (disk file_fs)"
      using file_header sample_header by (simp_all add: same_header_def)
    show "only_entry file_fs 2 [97] 7192" "not_first file_fs [97]" by (rule file_only)+
    show "resolve file_fs 2 ([] @ [[97]]) = Some 12" by (simp only: append_Nil resolve.simps file_lookup) simp
  qed (simp_all add: sample_path file_names dot_def dotdot_def)
  then show ?thesis using file_lookup by auto
qed

end
