(* ===== verification/Ext2List.thy ===== *)
theory Ext2List
  imports Ext2Unlink
begin

section \<open>ls\<close>

text \<open>
  The listing of a directory: on a well-formed block \<open>ls_walk\<close> is a map over the entries that are
  shown, and \<open>ls\<close> prints the directory that a path resolves to.
\<close>

subsection \<open>The walk through a block\<close>

definition shown :: "mem \<Rightarrow> bool \<Rightarrow> nat \<Rightarrow> bool" where
  "shown m aflag q \<longleftrightarrow> listed_type (file_type_at m q) \<and> (aflag \<or> hd (entry_name m q) \<noteq> 46)"

definition listing :: "mem \<Rightarrow> bool \<Rightarrow> nat list \<Rightarrow> message list" where
  "listing m aflag qs = map (\<lambda>q. Line (entry_name m q)) (filter (shown m aflag) qs)"

text \<open>Names that print as they are: not empty, without zeros.\<close>

definition printable :: "mem \<Rightarrow> nat \<Rightarrow> bool" where
  "printable m q \<longleftrightarrow> entry_name m q \<noteq> [] \<and> 0 \<notin> set (entry_name m q)"

lemma read_name_Ok:
  "a + n \<le> DISK_SIZE \<Longrightarrow> 0 \<notin> set (bytes_at n (disk s) a) \<Longrightarrow> read_name n a s = Ok (bytes_at n (disk s) a)"
  by (induction n a s rule: read_name.induct) (auto simp: fs_simps bytes_at_Cons)

lemma print_entry_Ok:
  "q + 8 + name_len_at (disk s) q \<le> DISK_SIZE \<Longrightarrow> printable (disk s) q \<Longrightarrow>
    print_entry q s = Ok [Line (entry_name (disk s) q)]"
  using read_name_Ok [of "q + 8" "name_len_at (disk s) q" s]
  by (simp add: print_entry_def fs_simps printable_def entry_name_def de_name_def)

lemma ls_entry_Ok:
  assumes "q + 8 + name_len_at (disk s) q \<le> DISK_SIZE" and "printable (disk s) q"
  shows "ls_entry aflag q s = Ok (listing (disk s) aflag [q])"
proof -
  have "0 < length (entry_name (disk s) q)" using assms(2) unfolding printable_def length_greater_0_conv by blast
  then obtain k where k: "name_len_at (disk s) q = Suc k" by (cases "name_len_at (disk s) q") auto
  then have "hd (entry_name (disk s) q) = disk s (q + 8)" by (simp add: entry_name_def bytes_at_Cons)
  moreover have "q + 8 < DISK_SIZE" using assms(1) k by simp
  ultimately show ?thesis
    using print_entry_Ok [OF assms] by (simp add: ls_entry_def listing_def shown_def fs_simps de_name_def)
qed

lemma listing_Cons: "listing m aflag (q # qs) = listing m aflag [q] @ listing m aflag qs"
  by (simp add: listing_def)

lemma ls_walk_tiles:
  assumes "tiles (disk s) (a + 1024) p qs" and "qs \<noteq> []" and "a mod 1024 = 0" and "a \<le> p"
    and "a + 1024 \<le> DISK_SIZE" and "\<forall>q \<in> set qs. printable (disk s) q"
  shows "ls_walk aflag p s = Ok (listing (disk s) aflag qs)"
  using assms(1-4,6)
proof (induction rule: walk_induct)
  case (last q)
  then show ?case using assms(5) ls_entry_Ok [of q s aflag] by (simp add: ls_walk.simps fs_simps)
next
  case (more q qs)
  then show ?case
    using assms(5) ls_entry_Ok [of q s aflag] listing_Cons [of "disk s" aflag q qs]
    by (simp add: ls_walk.simps [of aflag q] fs_simps)
qed

lemma ls_walk_block:
  "block_ok (disk s) a \<Longrightarrow> \<forall>q \<in> set (entries (disk s) a). printable (disk s) q \<Longrightarrow>
    ls_walk aflag a s = Ok (listing (disk s) aflag (entries (disk s) a))"
  using entries_not_Nil [of "disk s" a] by (intro ls_walk_tiles [where a = a]) (auto simp: block_ok_def)

text \<open>
  \<open>ls_block\<close> takes the number of sectors for the number of blocks: a directory of one block has two
  sectors, and its second block number, 0, leads to the boot block.  With zeros there nothing is
  printed for it.
\<close>

definition boot_clear :: "mem \<Rightarrow> bool" where
  "boot_clear m \<longleftrightarrow> rec_len_at m 0 = 0 \<and> file_type_at m 0 = 0"

lemma ls_walk_boot: "boot_clear (disk s) \<Longrightarrow> ls_walk aflag 0 s = Ok []"
  by (simp add: ls_walk.simps boot_clear_def fs_simps DISK_SIZE_def ls_entry_def listed_type_def ext2_types)

definition dir_inode :: "mem \<Rightarrow> nat \<Rightarrow> nat \<Rightarrow> bool" where
  "dir_inode m i b \<longleftrightarrow> rd 4 m (inode_addr m i + i_blocks) = 2 \<and> rd 4 m (inode_addr m i + i_block 0) = b \<and>
     rd 4 m (inode_addr m i + i_block 1) = 0"

lemma ls_block_Ok:
  assumes l: "layout (disk s)" and i: "0 < i" "i \<le> n_inodes (disk s)" and d: "dir_inode (disk s) i b"
    and b: "block_ok (disk s) (block_addr b)" "\<forall>q \<in> set (entries (disk s) (block_addr b)). printable (disk s) q"
    and boot: "boot_clear (disk s)"
  shows "ls_block i aflag s = Ok (listing (disk s) aflag (entries (disk s) (block_addr b)))"
proof -
  note bd = layout_inode [OF l i]
  have ptr: "inode_ptr (rd 4 (disk s) (BGD + 8)) i = inode_addr (disk s) i"
    using i bd by (intro inode_ptr_addr) auto
  let ?a = "inode_addr (disk s) i"
  have "ld 4 (?a + i_blocks) s = Ok 2" "ld 4 (?a + i_block 0) s = Ok b" "ld 4 (?a + i_block 1) s = Ok 0"
    using d bd by (simp_all add: dir_inode_def fs_simps inode_fields)
  moreover have "[0..<2] = [0, 1 :: nat]" "block_addr 0 = 0" by (simp_all add: upt_rec block_addr_def)
  ultimately show ?thesis
    using ls_walk_block [OF b, of aflag] ls_walk_boot [OF boot, of aflag]
    unfolding ls_block_def header_loads res_bind_Ok Let_def ptr by (simp del: One_nat_def)
qed

text \<open>
  C39. \<open>ls\<close> prints the directory.  For a path that resolves to inode \<open>i\<close>, when the first entry of the
  path's last name on the disk is no file, \<open>ls\<close> prints one line per entry of the directory's block,
  in its order, without the names that start with "." unless \<open>-a\<close> was given, and leaves the image
  alone.  When that first entry is a file or a link, \<open>ls\<close> prints only the name, also when the path
  leads to a directory.
\<close>

theorem ls_prints_directory:
  assumes wf: "fs_wf s" and path: "0 \<notin> set path" "tokens path = ps @ [f]" "f \<notin> set ps"
    and i: "resolve s 2 (ps @ [f]) = Some i" "0 < i" "i \<le> n_inodes (disk s)"
    and q: "find (name_is (disk s) f) (all_entries s) = Some q"
    and d: "dir_inode (disk s) i b" "b \<in> set (dirs s)" "\<forall>r \<in> set (entries (disk s) (block_addr b)). printable (disk s) r"
    and boot: "boot_clear (disk s)"
  shows "ls_path path (tokens path) aflag s = Ok (0,
    if file_type_at (disk s) q = EXT2_FT_REG_FILE \<or> file_type_at (disk s) q = EXT2_FT_SYMLINK then [Line f]
    else listing (disk s) aflag (entries (disk s) (block_addr b)), Some (disk s))"
proof -
  have l: "layout (disk s)" and ok: "dirs_ok s" using wf by (auto simp: fs_wf_def)
  have f0: "0 \<notin> set f" using tokens_no_zero [OF path(1), of f] path(2) by simp
  have ne: "f \<noteq> []" using tokens_wf [of f path] path(2) by simp
  have ns: "path \<noteq> [slash]" using path(2) tokens_all_slash [of "[slash]"] by auto
  have tr: "traverse 2 (tokens path) f s = Ok i"
    using traverse_path [OF ok path, of 2] i(1) path(2) by simp
  note fd = found_file [OF ok f0 q]
  then have "print_entry q s = Ok [Line f]"
    using print_entry_Ok [of q s] ne f0 by (simp add: printable_def)
  moreover have "ls_block i aflag s = Ok (listing (disk s) aflag (entries (disk s) (block_addr b)))"
    using ls_block_Ok [OF l i(2,3) d(1) _ d(3) boot] ok d(2) by (simp add: dirs_ok_def)
  ultimately show ?thesis
    using ns tr fd i(2) unfolding ls_path_def Let_def path(2) by (simp add: done_with_def)
qed

lemma file_types: "file_type_at file_disk 7180 = EXT2_FT_DIR" "file_type_at file_disk 7168 = EXT2_FT_DIR"
proof -
  have same: "file_disk x = sample_disk x" if "x < 7184 \<or> 7186 \<le> x \<and> x < 7192" for x
    unfolding file_disk_def by (rule linked_other [OF file_splits]) (use that in \<open>auto simp: sample_dotdot dir_size_2\<close>)
  have "file_type_at file_disk 7180 = file_type_at sample_disk 7180" "file_type_at file_disk 7168 = file_type_at sample_disk 7168"
    unfolding file_type_at_def by (rule rd_cong; rule same; simp)+
  then show "file_type_at file_disk 7180 = EXT2_FT_DIR" "file_type_at file_disk 7168 = EXT2_FT_DIR"
    using dir_block_mem_fields [of 7168 2 2 root_inode_mem] by (simp_all add: sample_disk_def)
qed

lemma file_rd: "a + n \<le> 7168 \<Longrightarrow> rd n file_disk a = rd n sample_disk a"
  by (rule rd_cong) (simp add: file_disk_low)

lemma file_boot: "boot_clear file_disk"
proof -
  have zero: "rd n (\<lambda>_. 0) a = 0" for n a by (induction n arbitrary: a) auto
  have z: "rd n file_disk a = 0" if "a + n \<le> 1024" for n a
  proof -
    have "rd n file_disk a = rd n (\<lambda>_. 0) a"
      using that by (intro rd_cong) (simp add: file_disk_low sample_low root_inode_mem_def wr_other bitmaps_mem_def header_mem_def)
    then show ?thesis by (simp only: zero)
  qed
  show ?thesis unfolding boot_clear_def entry_fields by (intro conjI z) simp_all
qed

lemma file_root: "dir_inode file_disk 2 7"
proof -
  have "itab file_disk = 5120" using file_header sample_header by (simp add: same_header_def)
  moreover have "rd 4 sample_disk 5276 = 2"
    by (simp add: sample_rd root_inode_mem_def rd_wr_same rd_wr_other)
  ultimately show ?thesis
    using sample_rd_root by (simp add: dir_inode_def inode_addr_def INODE_SIZE_def inode_fields file_rd)
qed

theorem ls_prints_directory_witness:
  "ls_path [47, 46, 46] [dotdot] False file_fs = Ok (0, [Line [97]], Some file_disk)"
proof -
  have n: "n_inodes (disk file_fs) = 16" using file_header sample_header by (simp add: same_header_def)
  have "lookup file_fs 2 dotdot = Some 2"
    using sample_lookup linked_entry [OF file_splits, of 7180 12 EXT2_FT_REG_FILE] sample_names
    by (simp add: lookup_def dir_entries_def sample_block_addr file_dir file_entries name_is_def file_names dot_def
        dotdot_def sample_entries file_disk_def [symmetric])
  then have "ls_path [47, 46, 46] (tokens [47, 46, 46]) False file_fs = Ok (0,
      if file_type_at (disk file_fs) 7180 = EXT2_FT_REG_FILE \<or> file_type_at (disk file_fs) 7180 = EXT2_FT_SYMLINK
      then [Line dotdot] else listing (disk file_fs) False (entries (disk file_fs) (block_addr 7)), Some (disk file_fs))"
    using n by (intro ls_prints_directory [where ps = "[]" and i = 2, OF file_wf])
      (simp_all add: sample_path all_entries_def sample_block_addr file_entries name_is_def file_names
        file_boot file_root printable_def dot_def dotdot_def)
  then show ?thesis
    by (simp add: sample_path file_types ext2_types listing_def shown_def sample_block_addr file_entries file_names
        listed_type_def dot_def dotdot_def)
qed

end
