(* ===== verification/Ext2Image.thy ===== *)
theory Ext2Image
  imports Ext2List
begin

section \<open>The image printer (Assignment3/readImage.c)\<close>

text \<open>
  \<open>readImage\<close> is one main function with its own copies of the loops of \<open>helper.c\<close>.  Its output is
  the list of its calls of \<open>printf\<close>, each the format and the arguments; \<open>line f\<close> is a format that
  ends in a newline.  The property relates it to \<open>init\<close>: on an image that the other tools can open,
  it prints the inodes and the directory blocks that they work on, and every entry of these blocks.
\<close>

subsection \<open>Calls of printf\<close>

datatype arg = D int | C char | S cstr

datatype call = Printf string "arg list"

definition line :: "string \<Rightarrow> string" where
  "line f = f @ [CHR 0x0A]"

text \<open>A field under the conversion \<open>%d\<close>: 32 bits read as a signed number.\<close>

definition dec :: "nat \<Rightarrow> arg" where
  "dec n = D (if n < 2 ^ 31 then int n else int n - 2 ^ 32)"

subsection \<open>The super block and the group descriptor\<close>

definition bg_used_dirs_count :: "fs \<Rightarrow> nat res" where
  "bg_used_dirs_count = ld 2 (BGD + 16)"

definition print_counts :: "fs \<Rightarrow> call list res" where
  "print_counts s =
     res_bind (s_inodes_count s) (\<lambda>inodes.
     res_bind (s_blocks_count s) (\<lambda>blocks.
     res_bind (bg_block_bitmap s) (\<lambda>bb.
     res_bind (bg_inode_bitmap s) (\<lambda>ib.
     res_bind (bg_inode_table s) (\<lambda>it.
     res_bind (ld 2 bg_free_blocks_count s) (\<lambda>fb.
     res_bind (ld 2 bg_free_inodes_count s) (\<lambda>fi.
     res_bind (bg_used_dirs_count s) (\<lambda>ud.
       Ok [Printf (line ''Inodes: %d'') [dec inodes],
           Printf (line ''Blocks: %d'') [dec blocks],
           Printf (line ''Block group:'') [],
           Printf (line ''    block bitmap: %d'') [dec bb],
           Printf (line ''    inode bitmap: %d'') [dec ib],
           Printf (line ''    inode table: %d'') [dec it],
           Printf (line ''    free blocks: %d'') [dec fb],
           Printf (line ''    free inodes: %d'') [dec fi],
           Printf (line ''    used_dirs: %d'') [dec ud]]))))))))"

subsection \<open>The bitmaps\<close>

text \<open>The bit of index \<open>i\<close> and, after the last bit of a byte, a space.\<close>

definition print_bit :: "nat \<Rightarrow> byte \<Rightarrow> call list" where
  "print_bit i c =
     Printf ''%d'' [D (if bit c (i mod 8) then 1 else 0)] # (if i mod 8 = 7 then [Printf '' '' []] else [])"

fun print_block_bits :: "nat \<Rightarrow> nat list \<Rightarrow> fs \<Rightarrow> call list res" where
  "print_block_bits bm [] s = Ok []"
| "print_block_bits bm (i # is) s =
     res_bind (ld_byte (bm + i div 8) s) (\<lambda>c.
     res_bind (print_block_bits bm is s) (\<lambda>out. Ok (print_bit i c @ out)))"

text \<open>The second bitmap loop also stores the indexes in use; \<open>acc\<close> is the array \<open>inum\<close> of 32.\<close>

fun print_inode_bits :: "nat \<Rightarrow> nat list \<Rightarrow> nat list \<Rightarrow> fs \<Rightarrow> (call list \<times> nat list) res" where
  "print_inode_bits bmi [] acc s = Ok ([], acc)"
| "print_inode_bits bmi (i # is) acc s =
     res_bind (ld_byte (bmi + i div 8) s) (\<lambda>c.
     res_bind
       (if bit c (i mod 8) \<and> i > 10 then
          (if length acc \<ge> 32 then Err Out_of_bounds else Ok (acc @ [i]))
        else Ok acc) (\<lambda>acc.
     res_bind (print_inode_bits bmi is acc s) (\<lambda>(out, acc). Ok (print_bit i c @ out, acc))))"

subsection \<open>The inodes\<close>

definition type_char :: "nat \<Rightarrow> char" where
  "type_char m = (if S_ISDIR m then CHR ''d'' else if S_ISREG m then CHR ''f'' else CHR ''s'')"

text \<open>The block numbers up to a zero, stored in the array \<open>dirs\<close> of 128 for a directory.\<close>

function print_blocks :: "bool \<Rightarrow> nat \<Rightarrow> nat list \<Rightarrow> fs \<Rightarrow> (call list \<times> nat list) res" where
  "print_blocks dir arr ds s =
     res_bind (ld 4 arr s) (\<lambda>w.
       if w = 0 then Ok ([], ds)
       else if dir \<and> length ds \<ge> 128 then Err Out_of_bounds
       else
         res_bind (if arr + 4 \<le> DISK_SIZE then print_blocks dir (arr + 4) (if dir then ds @ [w] else ds) s
                   else Err Out_of_bounds)
           (\<lambda>(out, ds). Ok (Printf ''%d '' [dec w] # out, ds)))"
  by pat_completeness auto
termination
  by (relation "measure (\<lambda>(dir, arr, ds, s). DISK_SIZE - arr)") auto

declare print_blocks.simps [simp del]

definition print_inode :: "nat \<Rightarrow> nat \<Rightarrow> nat list \<Rightarrow> fs \<Rightarrow> (call list \<times> nat list) res" where
  "print_inode tab i ds s =
     (let curr = tab + INODE_SIZE * i; inodenum = D (int i + 1) in
      res_bind (ld 2 (curr + i_mode) s) (\<lambda>mode.
      res_bind (ld 4 (curr + i_size) s) (\<lambda>size.
      res_bind (ld 2 (curr + i_links_count) s) (\<lambda>links.
      res_bind (ld 4 (curr + i_blocks) s) (\<lambda>blocks.
      let type = type_char mode in
      res_bind (print_blocks (type = CHR ''d'') (curr + i_block 0) ds s) (\<lambda>(out, ds).
        Ok ([Printf (line ''[%d] type: %c size: %d links: %d blocks: %d'')
               [inodenum, C type, dec size, dec links, dec blocks],
             Printf ''[%d] Blocks: '' [inodenum]] @ out @ [Printf (line []) []], ds)))))))"

fun print_inodes :: "nat \<Rightarrow> nat list \<Rightarrow> nat list \<Rightarrow> fs \<Rightarrow> (call list \<times> nat list) res" where
  "print_inodes tab [] ds s = Ok ([], ds)"
| "print_inodes tab (i # is) ds s =
     res_bind (print_inode tab i ds s) (\<lambda>(out, ds).
     res_bind (print_inodes tab is ds s) (\<lambda>(out', ds). Ok (out @ out', ds)))"

subsection \<open>The directory blocks\<close>

definition entry_char :: "nat \<Rightarrow> char" where
  "entry_char t =
     (if t = EXT2_FT_REG_FILE then CHR ''f'' else if t = EXT2_FT_DIR then CHR ''d'' else CHR ''s'')"

function print_entries :: "nat \<Rightarrow> fs \<Rightarrow> call list res" where
  "print_entries pos s =
     res_bind (de_rec_len pos s) (\<lambda>cur_len.
     res_bind (de_file_type pos s) (\<lambda>t.
     res_bind (de_inode pos s) (\<lambda>inode.
     res_bind (de_name_len pos s) (\<lambda>n.
     res_bind (read_name n (de_name pos) s) (\<lambda>name.
       let out = [Printf (line ''Inode: %d rec_len: %d name_len: %d file_type: %c name: %.*s'')
                    [dec inode, dec cur_len, dec n, C (entry_char t), dec n, S name]] in
       if (pos + cur_len) mod EXT2_BLOCK_SIZE = 0 then Ok out
       else if cur_len = 0 then Err Diverges
       else res_bind (print_entries (pos + cur_len) s) (\<lambda>out'. Ok (out @ out')))))))"
  by pat_completeness auto
termination
  by (relation "measure (\<lambda>(pos, s). DISK_SIZE - pos)")
    (auto simp: de_rec_len_def ld_def split: if_splits)

declare print_entries.simps [simp del]

fun print_dirs :: "nat list \<Rightarrow> fs \<Rightarrow> call list res" where
  "print_dirs [] s = Ok []"
| "print_dirs (blocknum # bs) s =
     (let pos = block_addr blocknum in
      res_bind (de_inode pos s) (\<lambda>inode.
      res_bind (print_entries pos s) (\<lambda>out.
      res_bind (print_dirs bs s) (\<lambda>out'.
        Ok (Printf (line ''    DIR BLOCK NUM: %d (for inode %d)'') [dec blocknum, dec inode] # out @ out')))))"

subsection \<open>main\<close>

definition print_image :: "fs \<Rightarrow> (call list \<times> nat list \<times> nat list) res" where
  "print_image s =
     res_bind (print_counts s) (\<lambda>counts.
     res_bind (bg_block_bitmap s) (\<lambda>bb.
     res_bind (s_blocks_count s) (\<lambda>nb.
     res_bind (print_block_bits (block_addr bb) [0..<nb] s) (\<lambda>bits.
     res_bind (bg_inode_bitmap s) (\<lambda>ib.
     res_bind (s_inodes_count s) (\<lambda>ni.
     res_bind (print_inode_bits (block_addr ib) [0..<ni] [1] s) (\<lambda>(ibits, inum).
     res_bind (bg_inode_table s) (\<lambda>it.
     res_bind (print_inodes (block_addr it) inum [] s) (\<lambda>(inodes, dirs).
     res_bind (print_dirs dirs s) (\<lambda>blocks.
       Ok (counts @ [Printf ''block bitmap: '' []] @ bits @ [Printf (line []) []] @
           [Printf ''inode bitmap: '' []] @ ibits @ [Printf (line (line [])) []] @
           [Printf (line ''Inodes:'') []] @ inodes @ [Printf (line []) []] @
           [Printf (line ''Directory Blocks:'') []] @ blocks, inum, dirs)))))))))))"

text \<open>\<open>readImage argc img\<close>: \<open>img\<close> is what \<open>mmap\<close> gives; the result is what was printed.\<close>

definition readImage :: "nat \<Rightarrow> mem option \<Rightarrow> call list res" where
  "readImage argc img =
     (if argc \<noteq> 2 then Err (Exit 1)
      else case img of
        None \<Rightarrow> Err (Exit 1)
      | Some m \<Rightarrow>
          res_bind (print_image \<lparr>disk = m, dirs = [], inum = []\<rparr>) (\<lambda>(out, _). Ok out))"

subsection \<open>What is printed\<close>

definition bit_text :: "mem \<Rightarrow> nat \<Rightarrow> nat \<Rightarrow> call list" where
  "bit_text m bm i =
     Printf ''%d'' [D (if i \<in> used_bits m bm then 1 else 0)] # (if i mod 8 = 7 then [Printf '' '' []] else [])"

text \<open>The block numbers of the inode at \<open>p\<close>, up to the first zero.\<close>

definition block_nums :: "mem \<Rightarrow> nat \<Rightarrow> nat list" where
  "block_nums m p =
     takeWhile (\<lambda>w. w \<noteq> 0) (map (\<lambda>k. rd 4 m (p + i_block k)) [0..<(DISK_SIZE - (p + i_block 0)) div 4])"

definition inode_text :: "mem \<Rightarrow> nat \<Rightarrow> call list" where
  "inode_text m i =
     (let p = itab m + INODE_SIZE * i in
      [Printf (line ''[%d] type: %c size: %d links: %d blocks: %d'')
         [D (int i + 1), C (type_char (rd 2 m (p + i_mode))), dec (rd 4 m (p + i_size)),
          dec (rd 2 m (p + i_links_count)), dec (rd 4 m (p + i_blocks))],
       Printf ''[%d] Blocks: '' [D (int i + 1)]] @
      map (\<lambda>w. Printf ''%d '' [dec w]) (block_nums m p) @ [Printf (line []) []])"

definition entry_text :: "mem \<Rightarrow> nat \<Rightarrow> call" where
  "entry_text m q =
     Printf (line ''Inode: %d rec_len: %d name_len: %d file_type: %c name: %.*s'')
       [dec (inode_at m q), dec (rec_len_at m q), dec (name_len_at m q), C (entry_char (file_type_at m q)),
        dec (name_len_at m q), S (takeWhile (\<lambda>c. c \<noteq> 0) (entry_name m q))]"

definition block_text :: "mem \<Rightarrow> nat \<Rightarrow> call list" where
  "block_text m b =
     Printf (line ''    DIR BLOCK NUM: %d (for inode %d)'') [dec b, dec (inode_at m (block_addr b))] #
     map (entry_text m) (entries m (block_addr b))"

subsection \<open>The loops as maps\<close>

lemma print_bit_text: "print_bit i (m (bm + i div 8)) = bit_text m bm i"
  by (simp add: print_bit_def bit_text_def used_bits_def)

lemma print_block_bits_Ok:
  "\<forall>i \<in> set is. bm + i div 8 < DISK_SIZE \<Longrightarrow>
    print_block_bits bm is s = Ok (concat (map (bit_text (disk s) bm) is))"
  by (induction "is") (auto simp: fs_simps print_bit_text)

text \<open>The second bitmap loop collects what the first loop of \<open>init\<close> does.\<close>

lemma print_inode_bits_used:
  "used_inodes bm is acc s = Ok l \<Longrightarrow> \<forall>i \<in> set is. bm + i div 8 < DISK_SIZE \<Longrightarrow> disk s' = disk s \<Longrightarrow>
    print_inode_bits bm is acc s' = Ok (concat (map (bit_text (disk s) bm) is), l)"
  by (induction bm "is" acc s rule: used_inodes.induct)
    (auto simp: fs_simps print_bit_text [symmetric] split: if_splits)

lemma read_name_until:
  "a + n \<le> DISK_SIZE \<Longrightarrow> read_name n a s = Ok (takeWhile (\<lambda>c. c \<noteq> 0) (bytes_at n (disk s) a))"
  by (induction n a s rule: read_name.induct) (auto simp: fs_simps bytes_at_Cons)

lemma block_numbers_loads: "block_numbers a s = Ok ws \<Longrightarrow> a + 4 \<le> DISK_SIZE"
  by (subst (asm) block_numbers.simps) (auto simp: ld_def split: if_splits)

lemma block_numbers_eq:
  "block_numbers a s = Ok ws \<Longrightarrow>
    ws = takeWhile (\<lambda>w. w \<noteq> 0) (map (\<lambda>k. rd 4 (disk s) (a + 4 * k)) [0..<(DISK_SIZE - a) div 4])"
proof (induction a s arbitrary: ws rule: block_numbers.induct)
  case (1 a s)
  have a: "a + 4 \<le> DISK_SIZE" by (rule block_numbers_loads [OF "1.prems"])
  then have "DISK_SIZE - a = DISK_SIZE - (a + 4) + 4" by simp
  then have k: "(DISK_SIZE - a) div 4 = Suc ((DISK_SIZE - (a + 4)) div 4)" by presburger
  have l: "ld 4 a s = Ok (rd 4 (disk s) a)" using a by (simp add: fs_simps)
  show ?case
  proof (cases "rd 4 (disk s) a = 0")
    case True
    then show ?thesis
      using "1.prems" l k by (simp add: block_numbers.simps [of a s] upt_conv_Cons del: upt_Suc)
  next
    case False
    then obtain vs where vs: "block_numbers (a + 4) s = Ok vs" "ws = rd 4 (disk s) a # vs"
      using "1.prems" l a by (auto simp: block_numbers.simps [of a s] split: sum.splits)
    have "vs = takeWhile (\<lambda>w. w \<noteq> 0) (map (\<lambda>k. rd 4 (disk s) (a + 4 + 4 * k)) [0..<(DISK_SIZE - (a + 4)) div 4])"
      using "1.IH" [OF l False a vs(1)] by simp
    then show ?thesis
      using False vs(2) unfolding k
      by (simp add: upt_conv_Cons map_Suc_upt [symmetric] comp_def add.assoc del: upt_Suc)
  qed
qed

lemma print_blocks_numbers:
  "block_numbers a s = Ok ws \<Longrightarrow> \<not> dir \<or> length ds + length ws \<le> 128 \<Longrightarrow> disk s' = disk s \<Longrightarrow>
    print_blocks dir a ds s' = Ok (map (\<lambda>w. Printf ''%d '' [dec w]) ws, if dir then ds @ ws else ds)"
proof (induction a s arbitrary: ws ds rule: block_numbers.induct)
  case (1 a s)
  have a: "a + 4 \<le> DISK_SIZE" by (rule block_numbers_loads [OF "1.prems"(1)])
  then have l: "ld 4 a s = Ok (rd 4 (disk s) a)" "ld 4 a s' = Ok (rd 4 (disk s) a)"
    using "1.prems"(3) by (simp_all add: fs_simps)
  show ?case
  proof (cases "rd 4 (disk s) a = 0")
    case True
    then show ?thesis
      using "1.prems" l by (auto simp: block_numbers.simps [of a s] print_blocks.simps [of dir a ds s'])
  next
    case False
    then obtain vs where vs: "block_numbers (a + 4) s = Ok vs" "ws = rd 4 (disk s) a # vs"
      using "1.prems" l a by (auto simp: block_numbers.simps [of a s] split: sum.splits)
    then show ?thesis
      using "1.IH" [OF l(1) False a vs(1), of "if dir then ds @ [rd 4 (disk s) a] else ds"] "1.prems" False l(2) a
      by (auto simp: print_blocks.simps [of dir a ds s'])
  qed
qed

text \<open>An inode, and all inodes: the second loop of \<open>init\<close> collects the same block numbers.\<close>

lemma print_inode_Ok:
  assumes l: "ld 2 (itab (disk s) + INODE_SIZE * i + i_mode) s = Ok mode"
    and ws: "block_numbers (itab (disk s) + INODE_SIZE * i + i_block 0) s = Ok ws"
    and len: "length (if S_ISDIR mode then ds @ ws else ds) \<le> 128" and same: "disk s' = disk s"
  shows "print_inode (itab (disk s)) i ds s' =
    Ok (inode_text (disk s) i, if S_ISDIR mode then ds @ ws else ds)"
proof -
  let ?p = "itab (disk s) + INODE_SIZE * i"
  have b: "?p + 44 \<le> DISK_SIZE" using block_numbers_loads [OF ws] by (simp add: inode_fields)
  then have "mode = rd 2 (disk s) (?p + i_mode)" using l by (simp add: fs_simps inode_fields)
  moreover have "ws = block_nums (disk s) ?p"
    using block_numbers_eq [OF ws] by (simp add: block_nums_def inode_fields add.assoc)
  moreover have "ld 2 (?p + i_mode) s' = Ok (rd 2 (disk s) (?p + i_mode))"
    "ld 4 (?p + i_size) s' = Ok (rd 4 (disk s) (?p + i_size))"
    "ld 2 (?p + i_links_count) s' = Ok (rd 2 (disk s) (?p + i_links_count))"
    "ld 4 (?p + i_blocks) s' = Ok (rd 4 (disk s) (?p + i_blocks))"
    using b same by (simp_all add: fs_simps inode_fields)
  moreover have "type_char m = CHR ''d'' \<longleftrightarrow> S_ISDIR m" for m
    by (simp add: type_char_def)
  moreover have "print_blocks (S_ISDIR mode) (?p + i_block 0) ds s' =
      Ok (map (\<lambda>w. Printf ''%d '' [dec w]) ws, if S_ISDIR mode then ds @ ws else ds)"
    by (rule print_blocks_numbers [OF ws _ same]) (use len in \<open>auto split: if_splits\<close>)
  ultimately show ?thesis
    unfolding print_inode_def inode_text_def Let_def by simp
qed

lemma print_inodes_dirs:
  "dir_blocks (itab (disk s)) is ds s = Ok l \<Longrightarrow> disk s' = disk s \<Longrightarrow>
    print_inodes (itab (disk s)) is ds s' = Ok (concat (map (inode_text (disk s)) is), l)"
proof (induction "is" arbitrary: ds)
  case (Cons i js)
  let ?p = "itab (disk s) + INODE_SIZE * i"
  obtain mode ws where m: "ld 2 (?p + i_mode) s = Ok mode" "block_numbers (?p + i_block 0) s = Ok ws"
    and len: "length (if S_ISDIR mode then ds @ ws else ds) \<le> 128"
    and rest: "dir_blocks (itab (disk s)) js (if S_ISDIR mode then ds @ ws else ds) s = Ok l"
    using Cons.prems(1) by (auto simp: Let_def split: sum.splits if_splits)
  then show ?case
    using print_inode_Ok [OF m len Cons.prems(2)] Cons.IH [OF rest Cons.prems(2)] by simp
qed simp

text \<open>The walk through a directory block.\<close>

lemma print_entries_tiles:
  assumes "tiles (disk s) (a + 1024) p qs" and "qs \<noteq> []" and "a mod 1024 = 0" and "a \<le> p"
    and "a + 1024 \<le> DISK_SIZE"
  shows "print_entries p s = Ok (map (entry_text (disk s)) qs)"
  using assms(1-4)
proof (induction rule: walk_induct)
  case (last q)
  then show ?case
    using assms(5) read_name_until [of "q + 8" "name_len_at (disk s) q" s]
    by (simp add: print_entries.simps fs_simps de_name_def entry_text_def entry_name_def)
next
  case (more q qs)
  then show ?case
    using assms(5) read_name_until [of "q + 8" "name_len_at (disk s) q" s]
    by (simp add: print_entries.simps [of q] fs_simps de_name_def entry_text_def entry_name_def)
qed

lemma print_dirs_Ok:
  "\<forall>b \<in> set bs. block_ok (disk s) (block_addr b) \<Longrightarrow>
    print_dirs bs s = Ok (concat (map (block_text (disk s)) bs))"
proof (induction bs)
  case (Cons b bs)
  then have b: "block_ok (disk s) (block_addr b)" by simp
  have "print_entries (block_addr b) s = Ok (map (entry_text (disk s)) (entries (disk s) (block_addr b)))"
    using b entries_not_Nil [OF b] by (intro print_entries_tiles [where a = "block_addr b"]) (auto simp: block_ok_def)
  moreover have "de_inode (block_addr b) s = Ok (inode_at (disk s) (block_addr b))"
    using b by (simp add: block_ok_def fs_simps)
  ultimately show ?case using Cons by (simp add: block_text_def Let_def)
qed simp

definition counts_text :: "mem \<Rightarrow> call list" where
  "counts_text m =
     [Printf (line ''Inodes: %d'') [dec (n_inodes m)],
      Printf (line ''Blocks: %d'') [dec (n_blocks m)],
      Printf (line ''Block group:'') [],
      Printf (line ''    block bitmap: %d'') [dec (rd 4 m BGD)],
      Printf (line ''    inode bitmap: %d'') [dec (rd 4 m (BGD + 4))],
      Printf (line ''    inode table: %d'') [dec (rd 4 m (BGD + 8))],
      Printf (line ''    free blocks: %d'') [dec (rd 2 m (BGD + 12))],
      Printf (line ''    free inodes: %d'') [dec (rd 2 m (BGD + 14))],
      Printf (line ''    used_dirs: %d'') [dec (rd 2 m (BGD + 16))]]"

lemma print_counts_Ok: "print_counts s = Ok (counts_text (disk s))"
  by (simp add: print_counts_def header_loads counts_text_def bg_used_dirs_count_def bg_free_blocks_count_def
      bg_free_inodes_count_def fs_simps DISK_SIZE_def BGD_def)

lemma init_loops:
  assumes "init (Some m) = Ok s"
  shows "disk s = m"
    and "used_inodes (ibm m) [0..<n_inodes m] [1] \<lparr>disk = m, dirs = [], inum = []\<rparr> = Ok (inum s)"
    and "dir_blocks (itab m) (inum s) [] \<lparr>disk = m, dirs = [], inum = []\<rparr> = Ok (dirs s)"
proof -
  let ?s = "\<lparr>disk = m, dirs = [], inum = []\<rparr> :: fs"
  have e: "init (Some m) = res_bind (used_inodes (ibm m) [0..<n_inodes m] [1] ?s) (\<lambda>inums.
      res_bind (dir_blocks (itab m) inums [] ?s) (\<lambda>ds. Ok (?s\<lparr>inum := inums, dirs := ds\<rparr>)))"
    unfolding init_def option.case Let_def header_loads res_bind_Ok fs.select_convs ibm_def itab_def by (rule refl)
  obtain l ds where "used_inodes (ibm m) [0..<n_inodes m] [1] ?s = Ok l" "dir_blocks (itab m) l [] ?s = Ok ds"
    "s = ?s\<lparr>inum := l, dirs := ds\<rparr>"
    using assms unfolding e res_bind_eq_Ok by blast
  then show "disk s = m" "used_inodes (ibm m) [0..<n_inodes m] [1] ?s = Ok (inum s)"
    "dir_blocks (itab m) (inum s) [] ?s = Ok (dirs s)"
    by simp_all
qed

text \<open>
  C14. \<open>readImage\<close> and the tools agree on an image.  Whenever \<open>init\<close> of \<open>helper.c\<close> opens an image and
  its directory blocks are well formed, \<open>readImage\<close> ends without a fault and prints: the counts of
  the super block and the group descriptor; the two bitmaps bit by bit; the used inodes, exactly
  those of \<open>init\<close>'s array \<open>inum\<close>, with their type, size, links and block numbers up to the first zero;
  and for every block of \<open>init\<close>'s array \<open>dirs\<close>, in its order, each of its entries once, in the order
  of the block.
\<close>

theorem image_lists_what_init_finds:
  assumes init: "init (Some m) = Ok s" and ok: "dirs_ok s" and l: "layout m"
  shows "readImage 2 (Some m) = Ok (
    counts_text m @
    Printf ''block bitmap: '' [] # concat (map (bit_text m (bbm m)) [0..<n_blocks m]) @ [Printf (line []) []] @
    Printf ''inode bitmap: '' [] # concat (map (bit_text m (ibm m)) [0..<n_inodes m]) @ [Printf (line (line [])) []] @
    Printf (line ''Inodes:'') [] # concat (map (inode_text m) (inum s)) @ [Printf (line []) []] @
    Printf (line ''Directory Blocks:'') [] # concat (map (block_text m) (dirs s)))"
proof -
  let ?s = "\<lparr>disk = m, dirs = [], inum = []\<rparr> :: fs"
  note d = init_loops(1) [OF init] and i = init_loops(2) [OF init] and ds = init_loops(3) [OF init]
  have b: "ibm m + i div 8 < DISK_SIZE" "bbm m + i div 8 < DISK_SIZE" if "i < 1024" for i
    using l that by (auto simp: layout_def data_start_def less_mult_imp_div_less)
  have n: "n_inodes m \<le> 1024" "n_blocks m \<le> 1024" using l by (auto simp: layout_def)
  have "print_block_bits (bbm m) [0..<n_blocks m] ?s = Ok (concat (map (bit_text m (bbm m)) [0..<n_blocks m]))"
    using print_block_bits_Ok [of "[0..<n_blocks m]" "bbm m" ?s] b n by simp
  moreover have "print_inode_bits (ibm m) [0..<n_inodes m] [1] ?s =
      Ok (concat (map (bit_text m (ibm m)) [0..<n_inodes m]), inum s)"
    using print_inode_bits_used [OF i, of ?s] b n by simp
  moreover have "print_inodes (itab m) (inum s) [] ?s = Ok (concat (map (inode_text m) (inum s)), dirs s)"
    using print_inodes_dirs [of ?s "inum s" "[]" "dirs s" ?s] ds by simp
  moreover have "print_dirs (dirs s) ?s = Ok (concat (map (block_text m) (dirs s)))"
    using print_dirs_Ok [of "dirs s" ?s] ok d by (simp add: dirs_ok_def)
  ultimately show ?thesis
    using print_counts_Ok [of ?s]
    by (simp add: readImage_def print_image_def header_loads bbm_def ibm_def itab_def)
qed

text \<open>The witness: the image with an empty root directory ends with its two entries.\<close>

lemma sample_block_text:
  "block_text sample_disk 7 = [Printf (line ''    DIR BLOCK NUM: %d (for inode %d)'') [D 7, D 2],
     Printf (line ''Inode: %d rec_len: %d name_len: %d file_type: %c name: %.*s'')
       [D 2, D 12, D 1, C CHR ''d'', D 1, S [46]],
     Printf (line ''Inode: %d rec_len: %d name_len: %d file_type: %c name: %.*s'')
       [D 2, D 1012, D 2, C CHR ''d'', D 2, S [46, 46]]]"
proof -
  have f: "rec_len_at sample_disk 7168 = 12" "rec_len_at sample_disk 7180 = 1012"
    "name_len_at sample_disk 7168 = 1" "name_len_at sample_disk 7180 = 2"
    "file_type_at sample_disk 7168 = EXT2_FT_DIR" "file_type_at sample_disk 7180 = EXT2_FT_DIR"
    using dir_block_mem_fields [of 7168 2 2 root_inode_mem] by (simp_all add: sample_disk_def)
  show ?thesis
    by (simp add: block_text_def entry_text_def sample_block_addr sample_entries sample_names f dec_def
        entry_char_def ext2_types dot_def dotdot_def del: One_nat_def)
qed

theorem image_lists_what_init_finds_witness:
  "\<exists>out. readImage 2 (Some sample_disk) = Ok (out @
     [Printf (line ''    DIR BLOCK NUM: %d (for inode %d)'') [D 7, D 2],
      Printf (line ''Inode: %d rec_len: %d name_len: %d file_type: %c name: %.*s'')
        [D 2, D 12, D 1, C CHR ''d'', D 1, S [46]],
      Printf (line ''Inode: %d rec_len: %d name_len: %d file_type: %c name: %.*s'')
        [D 2, D 1012, D 2, C CHR ''d'', D 2, S [46, 46]]])"
proof -
  have "dirs_ok sample_fs" "layout sample_disk" using sample_wf by (simp_all add: fs_wf_def)
  note r = image_lists_what_init_finds [OF sample_init this]
  let ?b = "concat (map (block_text sample_disk) (dirs sample_fs))"
  have app: "\<exists>out. ys = out @ bs \<Longrightarrow> \<exists>out. xs @ ys = out @ bs"
    and con: "\<exists>out. ys = out @ bs \<Longrightarrow> \<exists>out. x # ys = out @ bs" for xs ys bs :: "call list" and x
    by (metis append.assoc, metis append_Cons)
  obtain xs where xs: "readImage 2 (Some sample_disk) = Ok xs" "\<exists>out. xs = out @ ?b"
    by (rule that, rule r) (intro app con exI [of _ "[]"] append_Nil [symmetric])
  have "?b = block_text sample_disk 7" by simp
  then show ?thesis using xs unfolding sample_block_text by auto
qed

end
