(* ===== verification/Ext2Cmds2.thy ===== *)
theory Ext2Cmds2
  imports Ext2Cmds
begin

section \<open>The commands (ext2_ln.c, ext2_cp.c, ext2_rm_bonus.c)\<close>

text \<open>
  The remaining three main functions, in the style of \<open>Ext2Cmds\<close>.  \<open>cp\<close> reads the host's file in
  pieces of one block into a buffer that keeps what was in it.  \<open>rm -r\<close> is recursive over
  directories that it changes while it walks them, so its depth is not bounded by the image and
  the model has fuel: \<open>Out_of_fuel\<close> is no behaviour of the code.
\<close>

subsection \<open>ln\<close>

text \<open>The indexes of the two paths, and whether \<open>-s\<close> was given.\<close>

definition parse_link_flag :: "cstr list \<Rightarrow> message + nat \<times> nat \<times> bool" where
  "parse_link_flag argv =
     (let flag = [45, 115] in
      if length argv = 5 then
        if has_flag flag (argv ! 1) then Inl Flag_first
        else if has_flag flag (argv ! 2) then Inr (3, 4, True)
        else if has_flag flag (argv ! 3) then Inr (2, 4, True)
        else if has_flag flag (argv ! 4) then Inr (2, 3, True)
        else Inl Flag_missing
      else Inr (2, 3, False))"

definition make_link :: "nat \<Rightarrow> nat \<Rightarrow> cstr \<Rightarrow> cstr \<Rightarrow> bool \<Rightarrow> fs \<Rightarrow> fs res" where
  "make_link parent_inode inode1 filename2 path sflag s =
     (if \<not> sflag then
        res_bind (create_link parent_inode inode1 filename2 EXT2_FT_REG_FILE s) (\<lambda>(_, s).
          allocate inode1 parent_inode EXT2_S_IFREG None s)
      else
        res_bind (find_free_inode s) (\<lambda>(inode, s).
        res_bind (create_link parent_inode inode filename2 EXT2_FT_SYMLINK s) (\<lambda>(_, s).
          allocate inode parent_inode EXT2_S_IFLNK (Some path) s)))"

definition ln_paths :: "bool \<Rightarrow> cstr \<Rightarrow> cstr \<Rightarrow> nat \<Rightarrow> nat \<Rightarrow> bool \<Rightarrow> fs \<Rightarrow> outcome res" where
  "ln_paths ok path1 path2 count1 count2 sflag s =
     (if path1 = [slash] \<or> path2 = [slash] then done_with EISDIR [Dir_err] s
      else if count1 = 0 \<or> count2 = 0 then done_with ENOENT [Dne_err] s
      else
        res_bind (arr_names ok count1 path1) (\<lambda>names1.
        res_bind (name_at names1 (count1 - 1)) (\<lambda>filename1.
        res_bind (traverse 2 (tokens path1) filename1 s) (\<lambda>inode1.
          if inode1 = 0 then done_with ENOENT [Dne_err] s
          else
            res_bind (arr_names ok count2 path2) (\<lambda>names2.
            res_bind (name_at names2 (count2 - 1)) (\<lambda>filename2.
            res_bind (get_parent_path ok count2 path2) (\<lambda>parent_path.
            res_bind (if count2 \<ge> 2 then name_at names2 (count2 - 2) else Ok [slash]) (\<lambda>parent_name.
            res_bind (traverse 2 (if count2 \<ge> 2 then tokens path2 else [filename2]) filename2 s) (\<lambda>inode2.
              if inode2 \<noteq> 0 then done_with EEXIST [Exist_err] s
              else
                res_bind (find_dir_entry inode1 filename1 s) (\<lambda>r. case r of
                    None \<Rightarrow> Err Null_deref
                  | Some d \<Rightarrow>
                      res_bind (de_file_type d s) (\<lambda>t.
                        if t = EXT2_FT_SYMLINK \<or> t = EXT2_FT_REG_FILE then
                          res_bind
                            (if parent_name = [slash] then Ok 2
                             else traverse 2 (tokens parent_path) parent_name s) (\<lambda>parent_inode.
                          res_bind
                            (if parent_inode \<noteq> 0
                             then make_link parent_inode inode1 filename2 path2 sflag s
                             else Ok s) (\<lambda>s.
                            done_with ENOENT [] s))
                        else done_with EISDIR [Dir_err] s)))))))))))"

definition ext2_ln :: "cenv \<Rightarrow> cstr list \<Rightarrow> outcome res" where
  "ext2_ln e argv =
     (if length argv \<noteq> 4 \<and> length argv \<noteq> 5 then early_exit 1 [Usage]
      else case parse_link_flag argv of
        Inl m \<Rightarrow> early_exit 1 [m]
      | Inr (a, b, sflag) \<Rightarrow>
          if \<not> malloc_ok e then Err Null_deref
          else
            res_bind (count_item_in_path (malloc_ok e) (argv ! a)) (\<lambda>count1.
            res_bind (count_item_in_path (malloc_ok e) (argv ! b)) (\<lambda>count2.
            res_bind (init (image e (argv ! 1)))
              (ln_paths (malloc_ok e) (argv ! a) (argv ! b) count1 count2 sflag))))"

subsection \<open>cp\<close>

text \<open>What successive calls of \<open>fread\<close> for a block give until one gives nothing.\<close>

function pieces :: "byte list \<Rightarrow> byte list list" where
  "pieces bs = (if bs = [] then [] else take EXT2_BLOCK_SIZE bs # pieces (drop EXT2_BLOCK_SIZE bs))"
  by pat_completeness auto
termination
  by (relation "measure length") (auto simp: EXT2_BLOCK_SIZE_def)

declare pieces.simps [simp del]

text \<open>\<open>fread\<close> overwrites the first bytes of the buffer.\<close>

definition refill :: "byte list \<Rightarrow> byte list \<Rightarrow> byte list" where
  "refill buffer piece = piece @ drop (length piece) buffer"

text \<open>\<open>strcpy (block, buffer)\<close>: up to a zero, which the buffer must hold.\<close>

definition strcpy_buffer :: "nat \<Rightarrow> byte list \<Rightarrow> fs \<Rightarrow> fs res" where
  "strcpy_buffer a buffer s =
     (if 0 \<in> set buffer then strcpy_to a (takeWhile (\<lambda>c. c \<noteq> 0) buffer) s else Err Out_of_bounds)"

definition add_block :: "nat \<Rightarrow> nat \<Rightarrow> fs \<Rightarrow> (nat \<times> fs) res" where
  "add_block new index s =
     res_bind (find_free_block s) (\<lambda>(blocknum, s).
     res_bind (st 4 (new + i_block index) blocknum s) (\<lambda>s.
     res_bind (ld 4 (new + i_blocks) s) (\<lambda>n.
     res_bind (st 4 (new + i_blocks) (n + 1) s) (\<lambda>s. Ok (block_addr blocknum, s)))))"

text \<open>The loop, and the block that is added after it when the file has ended.\<close>

fun copy_loop :: "nat \<Rightarrow> nat \<Rightarrow> nat \<Rightarrow> byte list \<Rightarrow> byte list list \<Rightarrow> fs \<Rightarrow> (nat \<times> fs) res" where
  "copy_loop new index sz buffer [] s =
     (if index \<le> 11 then res_bind (add_block new index s) (\<lambda>(block, s). Ok (sz, s)) else Ok (sz, s))"
| "copy_loop new index sz buffer (p # ps) s =
     (if index \<le> 11 then
        res_bind (add_block new index s) (\<lambda>(block, s).
        res_bind (strcpy_buffer block (refill buffer p) s) (\<lambda>s.
          copy_loop new (index + 1) (sz + length p) (refill buffer p) ps s))
      else Ok (sz, s))"

definition copy :: "byte list \<Rightarrow> byte list \<Rightarrow> nat \<Rightarrow> fs \<Rightarrow> fs res" where
  "copy buffer content inode s =
     res_bind (bg_inode_table s) (\<lambda>it.
       let new = inode_ptr it inode in
       res_bind (copy_loop new 0 0 buffer (pieces content) s) (\<lambda>(sz, s).
         st 4 (new + i_size) sz s))"

definition cp_paths :: "cenv \<Rightarrow> byte list \<Rightarrow> cstr \<Rightarrow> cstr \<Rightarrow> nat \<Rightarrow> nat \<Rightarrow> fs \<Rightarrow> outcome res" where
  "cp_paths e buffer path1 path2 count1 count2 s =
     (if path1 = [slash] then done_with EISDIR [Dir_err] s
      else if count1 = 0 then done_with ENOENT [Dne_err] s
      else case host e path1 of
        None \<Rightarrow> done_with ENOENT [Dne_err] s
      | Some content \<Rightarrow>
          res_bind (arr_names (malloc_ok e) count1 path1) (\<lambda>names1.
          res_bind (arr_names (malloc_ok e) count2 path2) (\<lambda>names2.
          res_bind (name_at names1 (count1 - 1)) (\<lambda>filename.
          let path = path2 @ [slash] @ filename in
          res_bind (traverse 2 (tokens path) filename s) (\<lambda>inode2.
          res_bind
            (if count2 = 0 then Ok 2
             else res_bind (name_at names2 (count2 - 1)) (\<lambda>parent_name.
               traverse 2 (tokens path2) parent_name s)) (\<lambda>parent_inode.
            if inode2 \<noteq> 0 then done_with EEXIST [Exist_err] s
            else if parent_inode = 0 then done_with ENOENT [Dne_err] s
            else
              res_bind (find_free_inode s) (\<lambda>(inode, s).
              res_bind (create_link parent_inode inode filename EXT2_FT_REG_FILE s) (\<lambda>(succ, s).
              res_bind
                (if succ \<noteq> 0 then
                   res_bind (allocate inode 2 EXT2_S_IFREG None s) (\<lambda>s. copy buffer content inode s)
                 else Ok s) (\<lambda>s. done_with 0 [] s)))))))))"

definition ext2_cp :: "cenv \<Rightarrow> byte list \<Rightarrow> cstr list \<Rightarrow> outcome res" where
  "ext2_cp e buffer argv =
     (if length argv \<noteq> 4 then early_exit 1 [Usage]
      else
        res_bind (count_item_in_path (malloc_ok e) (argv ! 2)) (\<lambda>count1.
        res_bind (count_item_in_path (malloc_ok e) (argv ! 3)) (\<lambda>count2.
        res_bind (init (image e (argv ! 1)))
          (cp_paths e buffer (argv ! 2) (argv ! 3) count1 count2))))"

subsection \<open>rm with the flag -r\<close>

text \<open>
  \<open>strncpy\<close> of an entry's name into fresh memory of one byte more: the last byte is the one \<open>malloc\<close>
  left there, and a name without its zero runs out of the memory.
\<close>

definition copy_name :: "bool \<Rightarrow> byte \<Rightarrow> nat \<Rightarrow> fs \<Rightarrow> cstr res" where
  "copy_name ok junk pos s =
     res_bind (de_name_len pos s) (\<lambda>n.
       if \<not> ok \<and> n > 0 then Err Null_deref
       else res_bind (read_name n (de_name pos) s) (\<lambda>t.
         if length t = n \<and> junk \<noteq> 0 then Err Out_of_bounds else Ok t))"

text \<open>The test that skips "." and "..", over at most \<open>name_len\<close> bytes.\<close>

definition is_dots :: "nat \<Rightarrow> fs \<Rightarrow> bool res" where
  "is_dots pos s =
     res_bind (de_name_len pos s) (\<lambda>n.
     res_bind (strncmp_eq dot (de_name pos) n s) (\<lambda>b.
       if b then Ok True else strncmp_eq dotdot (de_name pos) n s))"

text \<open>
  \<open>remove_r\<close> and its two loops, over the blocks of a directory and over the entries of a block.  The
  three call each other: a task is a call of \<open>remove_r\<close> or one round of a loop, and the bodies take
  what runs the further tasks as a parameter.
\<close>

datatype rm_task =
    Remove nat cstr           \<comment> \<open>\<open>remove_r (inode, filename)\<close>\<close>
  | Blocks nat nat nat        \<comment> \<open>the loop over \<open>i_block\<close>: the inode's address, \<open>index\<close>, \<open>result\<close>\<close>
  | Entries nat nat nat       \<comment> \<open>the loop over entries: \<open>index\<close>, \<open>pos\<close>, \<open>result\<close>\<close>

type_synonym rm_run = "rm_task \<Rightarrow> fs \<Rightarrow> (nat \<times> fs) res"

definition remove_r_body :: "rm_run \<Rightarrow> cenv \<Rightarrow> bool \<Rightarrow> nat \<Rightarrow> cstr \<Rightarrow> fs \<Rightarrow> (nat \<times> fs) res" where
  "remove_r_body run e rflag inode filename s =
     res_bind (bg_inode_table s) (\<lambda>it.
     res_bind (find_dir_entry inode filename s) (\<lambda>r. case r of
         None \<Rightarrow> Err Null_deref
       | Some d \<Rightarrow>
           res_bind (de_file_type d s) (\<lambda>t.
             if t = EXT2_FT_SYMLINK \<or> t = EXT2_FT_REG_FILE then
               res_bind (unlink_entry (now e) d inode filename s) (\<lambda>s. Ok (1, s))
             else if t = EXT2_FT_DIR \<and> rflag then
               res_bind (run (Blocks (inode_ptr it inode) 0 0) s) (\<lambda>(result, s).
               res_bind (unlink_entry (now e) d inode filename s) (\<lambda>s. Ok (result, s)))
             else if t = EXT2_FT_DIR then Ok (EISDIR, s)
             else Ok (0, s))))"

definition remove_blocks_body :: "rm_run \<Rightarrow> nat \<Rightarrow> nat \<Rightarrow> nat \<Rightarrow> fs \<Rightarrow> (nat \<times> fs) res" where
  "remove_blocks_body run new index result s =
     res_bind (ld 4 (new + i_blocks) s) (\<lambda>n.
       if index < n then
         res_bind (ld 4 (new + i_block index) s) (\<lambda>blocknum.
         res_bind (run (Entries index (block_addr blocknum) result) s) (\<lambda>(result, s).
           run (Blocks new (index + 1) result) s))
       else Ok (result, s))"

definition remove_entries_body ::
  "rm_run \<Rightarrow> cenv \<Rightarrow> byte \<Rightarrow> nat \<Rightarrow> nat \<Rightarrow> nat \<Rightarrow> fs \<Rightarrow> (nat \<times> fs) res" where
  "remove_entries_body run e junk index pos result s =
     res_bind (de_rec_len pos s) (\<lambda>cur_len.
     res_bind (de_file_type pos s) (\<lambda>t.
     res_bind (if listed_type t then is_dots pos s else Ok True) (\<lambda>skip.
     res_bind
       (if \<not> skip \<and> (index = 0 \<or> result = 1) then
          res_bind (copy_name (malloc_ok e) junk pos s) (\<lambda>name.
          res_bind (de_inode pos s) (\<lambda>i. run (Remove i name) s))
        else Ok (result, s)) (\<lambda>(result, s).
       if (pos + cur_len) mod EXT2_BLOCK_SIZE = 0 then Ok (result, s)
       else run (Entries index (pos + cur_len) result) s))))"

primrec rm_run :: "nat \<Rightarrow> cenv \<Rightarrow> bool \<Rightarrow> byte \<Rightarrow> rm_run" where
  "rm_run 0 e rflag junk = (\<lambda>task s. Err Out_of_fuel)"
| "rm_run (Suc fuel) e rflag junk = (\<lambda>task s. case task of
       Remove inode filename \<Rightarrow> remove_r_body (rm_run fuel e rflag junk) e rflag inode filename s
     | Blocks new index result \<Rightarrow> remove_blocks_body (rm_run fuel e rflag junk) new index result s
     | Entries index pos result \<Rightarrow> remove_entries_body (rm_run fuel e rflag junk) e junk index pos result s)"

definition remove_r ::
  "nat \<Rightarrow> cenv \<Rightarrow> bool \<Rightarrow> byte \<Rightarrow> nat \<Rightarrow> cstr \<Rightarrow> fs \<Rightarrow> (nat \<times> fs) res" where
  "remove_r fuel e rflag junk inode filename s = rm_run fuel e rflag junk (Remove inode filename) s"

definition rm_r_path :: "nat \<Rightarrow> cenv \<Rightarrow> bool \<Rightarrow> byte \<Rightarrow> cstr \<Rightarrow> fs \<Rightarrow> outcome res" where
  "rm_r_path fuel e rflag junk path s =
     (if path = [slash] then done_with 1 [Dir_err] s
      else
        let filename = basename path in
        if filename = dot \<or> filename = dotdot then done_with 1 [Dir_err] s
        else if tokens path \<noteq> [] then
          res_bind (traverse 2 (tokens path) filename s) (\<lambda>file_inode.
            if file_inode \<noteq> 0 then
              res_bind (remove_r fuel e rflag junk file_inode filename s) (\<lambda>(result, s).
                if result = EISDIR then done_with EISDIR [Dir_err] s
                else if result = 1 then done_with 0 [] s
                else done_with ENOENT [Dne_err] s)
            else done_with ENOENT [Dne_err] s)
        else done_with ENOENT [Dne_err] s)"

definition ext2_rm_bonus :: "nat \<Rightarrow> cenv \<Rightarrow> byte \<Rightarrow> cstr list \<Rightarrow> outcome res" where
  "ext2_rm_bonus fuel e junk argv =
     (if length argv \<noteq> 3 \<and> length argv \<noteq> 4 then early_exit 1 [Usage]
      else case parse_flag [45, 114] argv of
        Inl m \<Rightarrow> early_exit 1 [m]
      | Inr (pathindex, rflag) \<Rightarrow>
          res_bind (init (image e (argv ! 1))) (rm_r_path fuel e rflag junk (argv ! pathindex)))"

end
