(* ===== verification/Ext2Tree.thy ===== *)
theory Ext2Tree
  imports Ext2List Ext2Cmds2
begin

section \<open>rm -r\<close>

text \<open>
  \<open>remove_r\<close> on a tree of files and directories.  Each removal of an entry changes the block that its
  callers are walking, so the proof follows the state: \<open>removed Q s s'\<close> says that \<open>s'\<close> is \<open>s\<close> without
  the entries of \<open>Q\<close> and how far the bytes may differ.  The removals compose, a tree that has none of
  the removed entries is still there afterwards, and so the recursion is an induction on the tree.
\<close>

subsection \<open>The block without the entry, once more\<close>

definition same_entry :: "mem \<Rightarrow> mem \<Rightarrow> nat \<Rightarrow> bool" where
  "same_entry m m' r \<longleftrightarrow> entry_name m' r = entry_name m r \<and> inode_at m' r = inode_at m r \<and>
     file_type_at m' r = file_type_at m r"

lemma same_entry_trans: "same_entry m m' r \<Longrightarrow> same_entry m' m'' r \<Longrightarrow> same_entry m m'' r"
  by (simp add: same_entry_def)

text \<open>A block that lost the entries of \<open>Q\<close>: what comes after them in the block is as it was.\<close>

definition thinned :: "nat set \<Rightarrow> mem \<Rightarrow> mem \<Rightarrow> nat \<Rightarrow> bool" where
  "thinned Q m m' a \<longleftrightarrow> block_ok m' a \<and> dir_of m' a = dir_of m a \<and>
     entries m' a = filter (\<lambda>r. r \<notin> Q) (entries m a) \<and>
     (\<forall>r \<in> set (entries m a). r \<notin> Q \<longrightarrow> same_entry m m' r) \<and>
     (\<forall>x. a \<le> x \<and> x < a + 1024 \<and> (\<forall>q \<in> Q. q \<in> set (entries m a) \<longrightarrow> q + 4 \<le> x) \<longrightarrow> m' x = m x) \<and>
     rec_len_at m a \<le> rec_len_at m' a"

lemma unlink_type:
  assumes f: "follows m a pre q" and r: "r = pre \<or> r + rec_len_at m r \<le> pre \<or> q + rec_len_at m q \<le> r"
    and len: "8 + name_len_at m r \<le> rec_len_at m r"
  shows "file_type_at (unlink_mem pre q m) r = file_type_at m r"
proof -
  note b = follows_bounds [OF f]
  have "unlink_mem pre q m x = m x" if "r + 7 \<le> x" "x < r + 8" for x
    using that r b len by (intro unlink_mem_other) auto
  then show ?thesis unfolding file_type_at_def by (intro rd_cong) auto
qed

lemma block_entry_place:
  assumes ok: "block_ok m a" and e: "entries m a = xs @ pre # q # ys" and r: "r \<in> set (xs @ pre # ys)"
  shows "r = pre \<or> r + rec_len_at m r \<le> pre \<or> q + rec_len_at m q \<le> r" and "8 + name_len_at m r \<le> rec_len_at m r"
proof -
  have t: "tiles m (a + 1024) a (xs @ pre # q # ys)" using ok e by (simp add: block_ok_def)
  then have "tiles m pre a xs" "tiles m (a + 1024) (q + rec_len_at m q) ys" by (auto simp: tiles_append)
  then show "r = pre \<or> r + rec_len_at m r \<le> pre \<or> q + rec_len_at m q \<le> r"
    using r tiles_entry [of m pre a xs r] tiles_entry [of m _ _ ys r] by auto
  show "8 + name_len_at m r \<le> rec_len_at m r" using block_entry(2) [OF ok, of r] r e by auto
qed

lemma thinned_unlink:
  assumes f: "follows m a pre q"
  shows "thinned {q} m (unlink_mem pre q m) a"
proof -
  let ?m = "unlink_mem pre q m"
  note b = follows_bounds [OF f] and g = unlink_grown [OF f]
  obtain xs ys where e: "entries m a = xs @ pre # q # ys" "entries ?m a = xs @ pre # ys" "block_ok ?m a"
    and n: "\<And>r. r \<in> set (xs @ pre # ys) \<Longrightarrow> entry_name ?m r = entry_name m r \<and> inode_at ?m r = inode_at m r \<and> r \<noteq> q"
    using unlink_entries [OF f] by blast
  have ok: "block_ok m a" using f by (simp add: follows_def)
  have "filter (\<lambda>r. r \<notin> {q}) (entries m a) = entries ?m a"
    using n unfolding e(1,2) by (auto simp: filter_id_conv)
  moreover have "same_entry m ?m r" if "r \<in> set (entries m a)" "r \<noteq> q" for r
  proof -
    have r: "r \<in> set (xs @ pre # ys)" using that e(1) by auto
    note p = block_entry_place [OF ok e(1) r]
    show ?thesis using n [OF r] unlink_type [OF f p] by (simp add: same_entry_def)
  qed
  moreover have "?m x = m x" if "q + 4 \<le> x" for x
    by (rule unlink_mem_other) (use that b in auto)
  moreover have "dir_of ?m a = dir_of m a"
    using g(1) by (simp add: grown_block_def same_names_def)
  moreover have "rec_len_at m a \<le> rec_len_at ?m a"
  proof (cases "pre = a")
    case True
    then show ?thesis using unlink_pre [OF f] by simp
  next
    case False
    obtain zs where zs: "entries m a = a # zs" using entries_not_Nil [OF ok] by blast
    then have a: "a \<in> set (xs @ pre # ys)" using b(7) e(1) False by (cases xs) auto
    note p = block_entry_place [OF ok e(1) a]
    show ?thesis using unlink_names(4) [OF f p] False by simp
  qed
  moreover have "q \<in> set (entries m a)" using e(1) by simp
  ultimately show ?thesis using g(2) by (auto simp: thinned_def)
qed

lemma thinned_same:
  assumes ok: "block_ok m a" and same: "\<And>x. a \<le> x \<Longrightarrow> x < a + 1024 \<Longrightarrow> m' x = m x"
    and Q: "\<And>r. r \<in> set (entries m a) \<Longrightarrow> r \<notin> Q"
  shows "thinned Q m m' a"
proof -
  note sb = same_blockI [OF ok, of m', OF same]
  have "same_entry m m' r" if r: "r \<in> set (entries m a)" for r
  proof -
    have "file_type_at m' r = file_type_at m r"
      using entry_fields_cong [of r m' m] same block_entry(1-3) [OF ok r] by simp
    then show ?thesis using sb r by (simp add: same_entry_def same_block_def same_names_def)
  qed
  moreover have "rec_len_at m' a = rec_len_at m a"
    using entry_fields_cong [of a m' m] same by simp
  moreover have "filter (\<lambda>r. r \<notin> Q) (entries m a) = entries m a" using Q by (simp add: filter_id_conv)
  ultimately show ?thesis using sb same by (simp add: thinned_def same_block_def same_names_def)
qed

text \<open>Removals of two sets of entries compose.\<close>

lemma thinned_trans:
  assumes t: "thinned Q m m1 a" and t': "thinned Q' m1 m' a"
  shows "thinned (Q \<union> Q') m m' a"
proof -
  have e: "entries m1 a = filter (\<lambda>r. r \<notin> Q) (entries m a)" using t by (simp add: thinned_def)
  have "same_entry m m' r" if "r \<in> set (entries m a)" "r \<notin> Q \<union> Q'" for r
    using that t t' e same_entry_trans [of m m1 r m'] by (simp add: thinned_def)
  moreover have "m' x = m x" if x: "a \<le> x" "x < a + 1024" "\<forall>q \<in> Q \<union> Q'. q \<in> set (entries m a) \<longrightarrow> q + 4 \<le> x" for x
  proof -
    have "m' x = m1 x" using t' x e by (simp add: thinned_def)
    moreover have "m1 x = m x" using t x by (simp add: thinned_def)
    ultimately show ?thesis by simp
  qed
  ultimately show ?thesis using t t' e by (auto simp: thinned_def conj_commute)
qed

lemma thinned_then_same:
  assumes t: "thinned Q m m1 a" and same: "\<And>x. a \<le> x \<Longrightarrow> x < a + 1024 \<Longrightarrow> m' x = m1 x"
  shows "thinned Q m m' a"
proof -
  have "block_ok m1 a" using t by (simp add: thinned_def)
  then have "thinned {} m1 m' a" using same by (intro thinned_same) auto
  then show ?thesis using thinned_trans [OF t] by fastforce
qed

subsection \<open>One removal\<close>

text \<open>
  The states the theorem is about: well formed, few enough inodes for \<open>inum\<close>, a boot block of zeros,
  and every directory block begins with ".".
\<close>

definition rm_ok :: "fs \<Rightarrow> bool" where
  "rm_ok s \<longleftrightarrow> fs_wf s \<and> n_inodes (disk s) \<le> 32 \<and> boot_clear (disk s) \<and>
     (\<forall>b \<in> set (dirs s). entry_name (disk s) (block_addr b) = dot \<and> 12 \<le> rec_len_at (disk s) (block_addr b))"

definition removed :: "nat set \<Rightarrow> fs \<Rightarrow> fs \<Rightarrow> bool" where
  "removed Q s s' \<longleftrightarrow> rm_ok s' \<and> dirs s' = dirs s \<and> same_header (disk s) (disk s') \<and>
     Q \<subseteq> set (all_entries s) \<and>
     (\<forall>b \<in> set (dirs s). thinned Q (disk s) (disk s') (block_addr b)) \<and>
     (\<forall>i x. 0 < i \<and> i \<le> n_inodes (disk s) \<and> (\<forall>q \<in> Q. inode_at (disk s) q \<noteq> i) \<and>
        inode_addr (disk s) i \<le> x \<and> x < inode_addr (disk s) i + 128 \<longrightarrow> disk s' x = disk s x)"

lemma removed_entries:
  assumes r: "removed Q s s'"
  shows "all_entries s' = filter (\<lambda>q. q \<notin> Q) (all_entries s)"
    and "dir_entries s' j = filter (\<lambda>q. q \<notin> Q) (dir_entries s j)"
    and "q \<in> set (all_entries s) \<Longrightarrow> q \<notin> Q \<Longrightarrow> same_entry (disk s) (disk s') q"
proof -
  have t: "\<forall>b \<in> set (dirs s). thinned Q (disk s) (disk s') (block_addr b)" and d: "dirs s' = dirs s"
    using r by (simp_all add: removed_def)
  have e: "concat (map (\<lambda>b. entries (disk s') (block_addr b)) bs) =
      filter (\<lambda>q. q \<notin> Q) (concat (map (\<lambda>b. entries (disk s) (block_addr b)) bs))" if "set bs \<subseteq> set (dirs s)" for bs
    using that t by (induction bs) (auto simp: thinned_def)
  show "all_entries s' = filter (\<lambda>q. q \<notin> Q) (all_entries s)"
    using e [of "dirs s"] d by (simp add: all_entries_def)
  have "filter (\<lambda>b. dir_of (disk s') (block_addr b) = Some j) (dirs s) =
      filter (\<lambda>b. dir_of (disk s) (block_addr b) = Some j) (dirs s)"
    using t by (intro filter_cong) (auto simp: thinned_def)
  then show "dir_entries s' j = filter (\<lambda>q. q \<notin> Q) (dir_entries s j)"
    using e [of "filter (\<lambda>b. dir_of (disk s) (block_addr b) = Some j) (dirs s)"] d
    by (simp add: dir_entries_def)
  show "same_entry (disk s) (disk s') q" if "q \<in> set (all_entries s)" "q \<notin> Q"
    using t that by (auto simp: all_entries_def thinned_def)
qed

lemma removed_refl: "rm_ok s \<Longrightarrow> removed {} s s"
  using thinned_same [of "disk s" _ "disk s" "{}"] by (auto simp: removed_def rm_ok_def fs_wf_def dirs_ok_def)

lemma removed_trans:
  assumes r: "removed Q s s1" and r': "removed Q' s1 s'"
  shows "removed (Q \<union> Q') s s'"
proof -
  note e = removed_entries [OF r]
  have d: "dirs s1 = dirs s" "dirs s' = dirs s" and h: "same_header (disk s) (disk s1)" "same_header (disk s1) (disk s')"
    using r r' by (simp_all add: removed_def)
  have Q': "Q' \<subseteq> set (all_entries s)" "q \<in> Q' \<Longrightarrow> inode_at (disk s1) q = inode_at (disk s) q" for q
    using r' e by (auto simp: removed_def same_entry_def)
  have "thinned (Q \<union> Q') (disk s) (disk s') (block_addr b)" if "b \<in> set (dirs s)" for b
    proof (rule thinned_trans [of _ _ "disk s1"])
    show "thinned Q (disk s) (disk s1) (block_addr b)" using r that by (simp add: removed_def)
    show "thinned Q' (disk s1) (disk s') (block_addr b)" using r' that d(1) by (simp add: removed_def)
  qed
  moreover have inodes: "disk s' x = disk s x"
    if "0 < i" "i \<le> n_inodes (disk s)" "\<forall>q \<in> Q \<union> Q'. inode_at (disk s) q \<noteq> i"
      "inode_addr (disk s) i \<le> x" "x < inode_addr (disk s) i + 128" for i x
  proof -
    have a: "inode_addr (disk s1) i = inode_addr (disk s) i" "n_inodes (disk s1) = n_inodes (disk s)"
      using h by (simp_all add: inode_addr_def same_header_def)
    have "i \<le> n_inodes (disk s1)" "inode_addr (disk s1) i \<le> x" "x < inode_addr (disk s1) i + 128"
      "\<forall>q \<in> Q'. inode_at (disk s1) q \<noteq> i"
      using that(2-5) Q'(2) by (auto simp: a)
    then have "disk s' x = disk s1 x" using r' that(1) unfolding removed_def by blast
    moreover have "disk s1 x = disk s x" using r that unfolding removed_def by blast
    ultimately show ?thesis by simp
  qed
  moreover have "rm_ok s'" "Q \<union> Q' \<subseteq> set (all_entries s)" using r r' Q'(1) by (simp_all add: removed_def)
  moreover have "same_header (disk s) (disk s')" by (rule same_header_trans [OF h])
  moreover have "\<forall>i x. 0 < i \<and> i \<le> n_inodes (disk s) \<and> (\<forall>q \<in> Q \<union> Q'. inode_at (disk s) q \<noteq> i) \<and>
      inode_addr (disk s) i \<le> x \<and> x < inode_addr (disk s) i + 128 \<longrightarrow> disk s' x = disk s x"
    using inodes by blast
  ultimately show ?thesis using d unfolding removed_def by simp
qed

lemma boot_clear_cong: "(\<And>x. x < 1024 \<Longrightarrow> m' x = m x) \<Longrightarrow> boot_clear m \<Longrightarrow> boot_clear m'"
  using entry_fields_cong [of 0 m' m] by (simp add: boot_clear_def)

lemma rm_ok_not_first: "rm_ok s \<Longrightarrow> f \<noteq> dot \<Longrightarrow> not_first s f"
  by (auto simp: rm_ok_def not_first_def)

lemma inode_bytes_apart:
  assumes l: "layout m" and i: "0 < i" "i \<le> n_inodes m" and j: "0 < j" "j \<le> n_inodes m" "i \<noteq> j"
    and x: "inode_addr m j \<le> x" "x < inode_addr m j + 128"
  shows "x \<notin> link_bytes m i"
  using inode_addr_apart [of i j m] layout_inode [OF l j(1,2)] layout_bounds [OF l] inode_addr_bounds [OF l j(1,2)] i j x
  by (auto simp: link_bytes_def)

text \<open>The bytes after \<open>unlink_entry\<close>: the directories as \<open>unlink_mem\<close> leaves them, and below them only what
  \<open>remove_link\<close> writes.\<close>

lemma unlink_bytes:
  assumes wf: "fs_wf s" and n: "n_inodes (disk s) \<le> 32" and i: "0 < i" "i \<le> n_inodes (disk s)"
    and pre: "find_pre_pos i f s = Ok (Some pre)" and c: "c \<in> set (dirs s)" "follows (disk s) (block_addr c) pre q"
  shows "\<exists>s'. unlink_entry t q i f s = Ok s' \<and> fs_wf s' \<and> dirs s' = dirs s \<and> same_header (disk s) (disk s') \<and>
    (\<forall>x. data_start (disk s) \<le> x \<longrightarrow> disk s' x = unlink_mem pre q (disk s) x) \<and>
    (\<forall>x. x < data_start (disk s) \<and> x \<notin> link_bytes (disk s) i \<longrightarrow> disk s' x = disk s x)"
proof -
  define u where "u = s\<lparr>disk := unlink_mem pre q (disk s)\<rparr>"
  note b = follows_bounds [OF c(2)]
  have l: "layout (disk s)" and c': "data_start (disk s) \<le> block_addr c" using wf c by (auto simp: fs_wf_def)
  have wu: "fs_wf u" "n_inodes (disk u) = n_inodes (disk s)" "dirs u = dirs s" "layout (disk u)"
    using unlink_wf [OF wf c] by (simp_all add: u_def fs_wf_def)
  obtain s' where s': "remove_link t i u = Ok s'" "same_but (link_bytes (disk u) i) u s'"
    using remove_link_frame [OF wu(4), of i t] wu(2) n i by auto
  note w = same_but_wf [OF wu(1) i(1) _ s'(2)]
  have wf': "fs_wf s'" "dirs s' = dirs s" "same_header (disk u) (disk s')" using w(1,2,4) wu i by simp_all
  have low: "disk u x = disk s x" if "x < data_start (disk s)" for x
    using that c' b unfolding u_def by (auto intro!: unlink_mem_other)
  have h: "same_header (disk s) (disk u)" by (rule same_headerI; rule low; use layout_bounds [OF l] in simp)
  then have lb: "link_bytes (disk u) i = link_bytes (disk s) i"
    by (auto simp: same_header_def link_bytes_def inode_addr_def)
  have keep: "disk s' x = disk u x" if "x \<notin> link_bytes (disk s) i" for x using s'(2) that lb by (simp add: same_but_def)
  have "x \<notin> link_bytes (disk s) i" if "data_start (disk s) \<le> x" for x
    using that layout_inode [OF l i] inode_addr_bounds [OF l i] layout_bounds [OF l] by (auto simp: link_bytes_def)
  then have "\<forall>x. data_start (disk s) \<le> x \<longrightarrow> disk s' x = unlink_mem pre q (disk s) x" using keep by (simp add: u_def)
  moreover have "\<forall>x. x < data_start (disk s) \<and> x \<notin> link_bytes (disk s) i \<longrightarrow> disk s' x = disk s x" using keep low by simp
  moreover have "unlink_entry t q i f s = Ok s'" using unlink_entry_eq [OF pre c(2), of t] s'(1) by (simp add: u_def)
  ultimately show ?thesis using wf' same_header_trans [OF h wf'(3)] by blast
qed

lemma unlink_thins:
  assumes ok: "dirs_ok s" and f: "follows (disk s) (block_addr c) pre q" and c: "c \<in> set (dirs s)" "e \<in> set (dirs s)"
    and m: "\<And>x. block_addr e \<le> x \<Longrightarrow> m x = unlink_mem pre q (disk s) x"
  shows "thinned {q} (disk s) m (block_addr e)" and "block_addr e \<noteq> q"
proof -
  note b = follows_bounds [OF f]
  have okb: "block_ok (disk s) (block_addr e)" "block_ok (disk s) (block_addr c)" using ok c by (simp_all add: dirs_ok_def)
  have apart: "block_addr e = block_addr c \<or> q < block_addr e \<and> q + 4 \<le> block_addr e \<and> pre + 6 \<le> block_addr e \<or> block_addr e + 1024 \<le> pre \<and> block_addr e + 1024 \<le> q"
    using blocks_apart [OF okb] b by auto
  then show "block_addr e \<noteq> q" using b by auto
  show "thinned {q} (disk s) m (block_addr e)"
  proof (rule thinned_then_same [of _ _ "unlink_mem pre q (disk s)"])
    show "m x = unlink_mem pre q (disk s) x" if "block_addr e \<le> x" for x using m that .
    show "thinned {q} (disk s) (unlink_mem pre q (disk s)) (block_addr e)"
    proof (cases "block_addr e = block_addr c")
      case False
      then have "r \<noteq> q" if "r \<in> set (entries (disk s) (block_addr e))" for r
        using block_entry(1-3) [OF okb(1) that] apart by auto
      then show ?thesis using False apart by (intro thinned_same [OF okb(1)]) (auto intro!: unlink_mem_other)
    qed (use thinned_unlink [OF f] in simp)
  qed
qed

lemma unlink_step:
  assumes ok: "rm_ok s" and f: "0 \<notin> set f" "f \<noteq> dot"
    and q: "find (name_is (disk s) f) (all_entries s) = Some q"
    and i: "0 < inode_at (disk s) q" "inode_at (disk s) q \<le> n_inodes (disk s)"
  shows "\<exists>s'. unlink_entry t q (inode_at (disk s) q) f s = Ok s' \<and> removed {q} s s'"
proof -
  let ?i = "inode_at (disk s) q"
  have wf: "fs_wf s" and n: "n_inodes (disk s) \<le> 32" and d: "dirs_ok s" and l: "layout (disk s)"
    and low: "\<forall>e \<in> set (dirs s). data_start (disk s) \<le> block_addr e"
    using ok by (auto simp: rm_ok_def fs_wf_def)
  obtain pre c where c: "find_pre_pos ?i f s = Ok (Some pre)" "c \<in> set (dirs s)"
    "follows (disk s) (block_addr c) pre q"
    using found_entry [OF d f(1) rm_ok_not_first [OF ok f(2)] q, of ?i] by blast
  obtain s' where s': "unlink_entry t q ?i f s = Ok s'" "fs_wf s'" "dirs s' = dirs s" "same_header (disk s) (disk s')"
    "\<forall>x. data_start (disk s) \<le> x \<longrightarrow> disk s' x = unlink_mem pre q (disk s) x"
    "\<forall>x. x < data_start (disk s) \<and> x \<notin> link_bytes (disk s) ?i \<longrightarrow> disk s' x = disk s x"
    using unlink_bytes [OF wf n i c] by blast
  have data: "disk s' x = unlink_mem pre q (disk s) x" if "e \<in> set (dirs s)" "block_addr e \<le> x" for e x
    using s'(5) low that by (meson order_trans)
  note th = unlink_thins(1) [OF d c(3,2) _ data] and ne = unlink_thins(2) [OF d c(3,2) _ data]
  have firsts: "entry_name (disk s') (block_addr e) = dot \<and> 12 \<le> rec_len_at (disk s') (block_addr e)" if e: "e \<in> set (dirs s)" for e
  proof -
    have "block_ok (disk s) (block_addr e)" using d e by (simp add: dirs_ok_def)
    then obtain zs where zs: "entries (disk s) (block_addr e) = block_addr e # zs" using entries_not_Nil by blast
    have "12 \<le> rec_len_at (disk s) (block_addr e)" "entry_name (disk s) (block_addr e) = dot" using ok e by (simp_all add: rm_ok_def)
    then show ?thesis using th [OF e e] zs ne [OF e e] by (auto simp: thinned_def same_entry_def)
  qed
  have inodes: "\<forall>j x. 0 < j \<and> j \<le> n_inodes (disk s) \<and> (\<forall>r \<in> {q}. inode_at (disk s) r \<noteq> j) \<and>
      inode_addr (disk s) j \<le> x \<and> x < inode_addr (disk s) j + 128 \<longrightarrow> disk s' x = disk s x"
  proof (intro allI impI, elim conjE)
    fix j x assume j: "0 < j" "j \<le> n_inodes (disk s)" "\<forall>r \<in> {q}. inode_at (disk s) r \<noteq> j"
      and x: "inode_addr (disk s) j \<le> x" "x < inode_addr (disk s) j + 128"
    have "x \<notin> link_bytes (disk s) ?i" using inode_bytes_apart [OF l i j(1,2) _ x] j(3) by simp
    then show "disk s' x = disk s x" using s'(6) inode_addr_bounds [OF l j(1,2)] x by simp
  qed
  have "boot_clear (disk s')"
  proof (rule boot_clear_cong)
    show "disk s' x = disk s x" if x: "x < 1024" for x
      using s'(6) x layout_inode [OF l i] layout_bounds [OF l] by (auto simp: link_bytes_def)
  qed (use ok in \<open>simp add: rm_ok_def\<close>)
  then have "rm_ok s'" using s'(2-4) n firsts by (simp add: rm_ok_def same_header_def)
  moreover have "q \<in> set (all_entries s)" using find_Some_in [OF q] by blast
  ultimately have "removed {q} s s'" using s'(3,4) th inodes unfolding removed_def by simp
  then show ?thesis using s'(1) by blast
qed

subsection \<open>Trees\<close>

text \<open>
  What is to be removed: a file or link by its entry, or a directory by its entry, its block and the
  trees below it in the order of the block.
\<close>

datatype tree = Tfile nat | Tdir nat nat "tree list"

fun entry_of :: "tree \<Rightarrow> nat" where
  "entry_of (Tfile q) = q"
| "entry_of (Tdir q b ts) = q"

fun nodes :: "tree \<Rightarrow> nat list" where
  "nodes (Tfile q) = [q]"
| "nodes (Tdir q b ts) = q # concat (map nodes ts)"

text \<open>What \<open>remove_r\<close> returns: 1 for a file, for a directory what the last call in its loop returned.\<close>

fun status :: "tree \<Rightarrow> nat" where
  "status (Tfile q) = 1"
| "status (Tdir q b ts) = last (0 # map status ts)"

text \<open>Enough fuel: a block has at most 128 entries.\<close>

fun fuel_for :: "tree \<Rightarrow> nat" where
  "fuel_for (Tfile q) = 1"
| "fuel_for (Tdir q b ts) = 131 + sum_list (map fuel_for ts)"

definition dots :: "mem \<Rightarrow> nat \<Rightarrow> bool" where
  "dots m q \<longleftrightarrow> entry_name m q = dot \<or> entry_name m q = dotdot"

text \<open>An entry that the search by name finds, with a name that prints and an inode of the table.\<close>

definition removable :: "fs \<Rightarrow> nat \<Rightarrow> bool" where
  "removable s q \<longleftrightarrow> find (name_is (disk s) (entry_name (disk s) q)) (all_entries s) = Some q \<and>
     printable (disk s) q \<and> \<not> dots (disk s) q \<and> 0 < inode_at (disk s) q \<and> inode_at (disk s) q \<le> n_inodes (disk s)"

text \<open>
  The tree is the one on the disk: every directory has one block that belongs to no other entry than
  "." and "..", and the block lists, besides these, exactly the trees below.
\<close>

fun on_disk :: "fs \<Rightarrow> tree \<Rightarrow> bool" where
  "on_disk s (Tfile q) \<longleftrightarrow> removable s q \<and>
     (file_type_at (disk s) q = EXT2_FT_REG_FILE \<or> file_type_at (disk s) q = EXT2_FT_SYMLINK)"
| "on_disk s (Tdir q b ts) \<longleftrightarrow> removable s q \<and> file_type_at (disk s) q = EXT2_FT_DIR \<and>
     dir_inode (disk s) (inode_at (disk s) q) b \<and> b \<in> set (dirs s) \<and>
     (\<forall>r \<in> set (all_entries s). inode_at (disk s) r = inode_at (disk s) q \<and> \<not> dots (disk s) r \<longrightarrow> r = q) \<and>
     (\<forall>r \<in> set (entries (disk s) (block_addr b)). printable (disk s) r) \<and>
     filter (\<lambda>r. \<not> dots (disk s) r) (entries (disk s) (block_addr b)) = map entry_of ts \<and>
     (\<forall>t \<in> set ts. on_disk s t)"

lemma entry_in_nodes [simp]: "entry_of t \<in> set (nodes t)"
  by (cases t) auto

lemma on_disk_removable: "on_disk s t \<Longrightarrow> removable s (entry_of t)"
  by (cases t) auto

lemma on_disk_listed: "on_disk s t \<Longrightarrow> listed_type (file_type_at (disk s) (entry_of t))"
  by (cases t) (auto simp: listed_type_def)

lemma removable_entry: "removable s q \<Longrightarrow> q \<in> set (all_entries s)"
  using find_Some_in by (fastforce simp: removable_def)

lemma on_disk_nodes: "on_disk s t \<Longrightarrow> q \<in> set (nodes t) \<Longrightarrow> removable s q"
  by (induction t) auto

lemma find_filter:
  "find P xs = Some q \<Longrightarrow> q \<notin> Q \<Longrightarrow> (\<And>r. r \<in> set xs \<Longrightarrow> r \<notin> Q \<Longrightarrow> P' r = P r) \<Longrightarrow>
    find P' (filter (\<lambda>r. r \<notin> Q) xs) = Some q"
  by (induction xs) (auto split: if_splits)

lemma same_entry_props:
  assumes "same_entry m m' q"
  shows "printable m' q = printable m q" and "dots m' q = dots m q"
  using assms by (simp_all add: same_entry_def printable_def dots_def)

lemma removable_removed:
  assumes r: "removed Q s s'" and q: "removable s q" "q \<notin> Q"
  shows "removable s' q"
proof -
  note e = removed_entries [OF r]
  have se: "same_entry (disk s) (disk s') q" using e(3) removable_entry [OF q(1)] q(2) by simp
  have "find (name_is (disk s') (entry_name (disk s') q)) (all_entries s') = Some q"
    unfolding e(1) by (rule find_filter [of "name_is (disk s) (entry_name (disk s) q)"])
      (use q e(3) se in \<open>auto simp: removable_def name_is_def same_entry_def\<close>)
  moreover have "n_inodes (disk s') = n_inodes (disk s)" using r by (simp add: removed_def same_header_def)
  moreover have "inode_at (disk s') q = inode_at (disk s) q" using se by (simp add: same_entry_def)
  ultimately show ?thesis using q(1) same_entry_props [OF se] by (simp add: removable_def)
qed

lemma dir_inode_removed:
  assumes r: "removed Q s s'" and i: "0 < i" "i \<le> n_inodes (disk s)" "\<forall>q \<in> Q. inode_at (disk s) q \<noteq> i"
  shows "dir_inode (disk s') i b = dir_inode (disk s) i b"
proof -
  have a: "inode_addr (disk s') i = inode_addr (disk s) i"
    using r by (simp add: removed_def same_header_def inode_addr_def)
  have same: "disk s' x = disk s x" if "inode_addr (disk s) i \<le> x" "x < inode_addr (disk s) i + 128" for x
    using r i that unfolding removed_def by blast
  have "rd 4 (disk s') (inode_addr (disk s) i + k) = rd 4 (disk s) (inode_addr (disk s) i + k)" if "k + 4 \<le> 128" for k
    by (rule rd_cong; rule same) (use that in auto)
  then show ?thesis by (simp add: dir_inode_def a inode_fields)
qed

lemma on_disk_removed:
  assumes r: "removed Q s s'" and nd: "\<forall>q \<in> Q. \<not> dots (disk s) q"
  shows "on_disk s t \<Longrightarrow> set (nodes t) \<inter> Q = {} \<Longrightarrow> on_disk s' t"
proof (induction t)
  case (Tfile q)
  then have q: "removable s q" "q \<notin> Q" by auto
  then have "same_entry (disk s) (disk s') q" using removed_entries(3) [OF r] removable_entry by blast
  then show ?case using removable_removed [OF r q] Tfile.prems by (simp add: same_entry_def)
next
  case (Tdir q b ts)
  note e = removed_entries [OF r]
  have q: "removable s q" "q \<notin> Q" using Tdir.prems by auto
  have se: "same_entry (disk s) (disk s') q" using e(3) removable_entry [OF q(1)] q(2) by simp
  then have i: "inode_at (disk s') q = inode_at (disk s) q" "file_type_at (disk s') q = file_type_at (disk s) q"
    by (simp_all add: same_entry_def)
  have "Q \<subseteq> set (all_entries s)" and d: "dirs s' = dirs s" using r by (simp_all add: removed_def)
  then have "\<forall>p \<in> Q. inode_at (disk s) p \<noteq> inode_at (disk s) q" using Tdir.prems(1) nd q(2) unfolding on_disk.simps by blast
  then have di: "dir_inode (disk s') (inode_at (disk s) q) b"
    using dir_inode_removed [OF r] q(1) Tdir.prems(1) by (simp add: removable_def)
  have b: "b \<in> set (dirs s)" using Tdir.prems(1) by simp
  then have th: "thinned Q (disk s) (disk s') (block_addr b)" using r by (simp add: removed_def)
  have one: "r = q" if "r \<in> set (all_entries s')" "inode_at (disk s') r = inode_at (disk s) q" "\<not> dots (disk s') r" for r
  proof -
    have "r \<in> set (all_entries s)" "r \<notin> Q" using that(1) e(1) by auto
    moreover from this have se: "same_entry (disk s) (disk s') r" by (rule e(3))
    then have "inode_at (disk s) r = inode_at (disk s) q" "\<not> dots (disk s) r"
      using that(2,3) same_entry_props(2) [OF se] by (simp_all add: same_entry_def)
    ultimately show ?thesis using Tdir.prems(1) unfolding on_disk.simps by blast
  qed
  have "filter (\<lambda>r. \<not> dots (disk s') r) (entries (disk s') (block_addr b)) =
      filter (\<lambda>r. \<not> dots (disk s) r \<and> r \<notin> Q) (entries (disk s) (block_addr b))"
    using th same_entry_props(2) by (auto simp: thinned_def intro!: filter_cong)
  also have "\<dots> = filter (\<lambda>r. r \<notin> Q) (filter (\<lambda>r. \<not> dots (disk s) r) (entries (disk s) (block_addr b)))"
    by (simp only: filter_filter)
  also have "\<dots> = filter (\<lambda>r. r \<notin> Q) (map entry_of ts)"
    using Tdir.prems(1) unfolding on_disk.simps by metis
  also have "\<dots> = map entry_of ts"
  proof -
    have "entry_of t \<in> set (nodes (Tdir q b ts))" if "t \<in> set ts" for t
      using that entry_in_nodes [of t] by (simp del: entry_in_nodes) blast
    then have "\<forall>t \<in> set ts. entry_of t \<notin> Q" using Tdir.prems(2) by blast
    then show ?thesis by (simp add: filter_id_conv)
  qed
  finally have f: "filter (\<lambda>r. \<not> dots (disk s') r) (entries (disk s') (block_addr b)) = map entry_of ts" .
  have pr: "\<forall>r \<in> set (entries (disk s') (block_addr b)). printable (disk s') r"
  proof -
    have "\<forall>r \<in> set (entries (disk s) (block_addr b)). printable (disk s) r"
      using Tdir.prems(1) unfolding on_disk.simps by blast
    then show ?thesis using th same_entry_props(1) by (auto simp: thinned_def)
  qed
  have "\<forall>t \<in> set ts. on_disk s t" "file_type_at (disk s) q = EXT2_FT_DIR"
    using Tdir.prems(1) unfolding on_disk.simps by blast+
  moreover from this have "\<forall>t \<in> set ts. on_disk s' t" using Tdir.IH Tdir.prems(2) by (auto simp: disjoint_iff)
  moreover have "b \<in> set (dirs s')" using b d by simp
  ultimately show ?case
    unfolding on_disk.simps i using removable_removed [OF r q] di one f pr by blast
qed

subsection \<open>The steps of the loop over entries\<close>

lemma strncmp_eq_any:
  "a + n \<le> DISK_SIZE \<Longrightarrow> 0 \<notin> set (bytes_at n (disk s) a) \<Longrightarrow>
    strncmp_eq t a n s = Ok (n \<le> length t \<and> bytes_at n (disk s) a = take n t)"
  by (induction t a n s rule: strncmp_eq.induct) (auto simp: fs_simps bytes_at_Cons)

lemma is_dots_eq:
  assumes "q + 8 + name_len_at (disk s) q \<le> DISK_SIZE" and "printable (disk s) q"
  shows "is_dots q s = Ok (dots (disk s) q)"
proof -
  let ?n = "name_len_at (disk s) q"
  have "0 < length (entry_name (disk s) q)" using assms(2) unfolding printable_def length_greater_0_conv by blast
  then have n: "0 < ?n" by simp
  let ?w = "entry_name (disk s) q"
  have any: "strncmp_eq t (q + 8) ?n s = Ok (?n \<le> length t \<and> ?w = take ?n t)" for t
    using strncmp_eq_any [of "q + 8" ?n s t] assms by (simp add: entry_name_def printable_def)
  have len: "?w = t \<Longrightarrow> ?n = length t" for t using length_entry_name [of "disk s" q] by metis
  have one: "strncmp_eq dot (q + 8) ?n s = Ok (?w = dot)"
    unfolding any using n len [of dot] by (auto simp: dot_def)
  have "strncmp_eq dotdot (q + 8) ?n s = Ok (?w = (if ?n = 1 then dot else dotdot))"
    unfolding any using n len [of dotdot] by (auto simp: dot_def dotdot_def le_Suc_eq)
  moreover have "?n = 1 \<Longrightarrow> ?w \<noteq> dotdot" using len [of dotdot] by (auto simp: dotdot_def)
  moreover have "is_dots q s = res_bind (strncmp_eq dot (q + 8) ?n s)
      (\<lambda>b. if b then Ok True else strncmp_eq dotdot (q + 8) ?n s)"
    using assms(1) by (simp add: is_dots_def fs_simps de_name_def cong: if_cong)
  ultimately show ?thesis using one by (auto simp: dots_def)
qed

lemma copy_name_eq:
  assumes "q + 8 + name_len_at (disk s) q \<le> DISK_SIZE" and "printable (disk s) q"
  shows "copy_name True 0 q s = Ok (entry_name (disk s) q)"
  using assms read_name_Ok [of "q + 8" "name_len_at (disk s) q" s]
  by (simp add: copy_name_def fs_simps de_name_def printable_def entry_name_def)

text \<open>One round, for an entry that is skipped and for one that is removed.\<close>

lemma round_skip:
  assumes "q + 8 + name_len_at (disk s) q \<le> DISK_SIZE" and "printable (disk s) q" and "dots (disk s) q"
  shows "remove_entries_body run e 0 0 q result s =
    (if (q + rec_len_at (disk s) q) mod EXT2_BLOCK_SIZE = 0 then Ok (result, s)
     else run (Entries 0 (q + rec_len_at (disk s) q) result) s)"
  using assms is_dots_eq [OF assms(1,2)] by (simp add: remove_entries_body_def fs_simps)

lemma round_remove:
  assumes "q + 8 + name_len_at (disk s) q \<le> DISK_SIZE" and "printable (disk s) q" and "\<not> dots (disk s) q"
    and "listed_type (file_type_at (disk s) q)" and "malloc_ok e"
    and "run (Remove (inode_at (disk s) q) (entry_name (disk s) q)) s = Ok (result', s')"
  shows "remove_entries_body run e 0 0 q result s =
    (if (q + rec_len_at (disk s) q) mod EXT2_BLOCK_SIZE = 0 then Ok (result', s')
     else run (Entries 0 (q + rec_len_at (disk s) q) result') s')"
  using assms is_dots_eq [OF assms(1,2)] copy_name_eq [OF assms(1,2)]
  by (simp add: remove_entries_body_def fs_simps)

text \<open>The rest of a block after entries before it are gone.\<close>

lemma thinned_rest:
  assumes ok: "block_ok m a" and e: "entries m a = zs @ q # rest" and th: "thinned Q m m' a"
    and Q: "Q \<inter> set rest = {}"
  shows "tiles m' (a + 1024) (q + rec_len_at m q) rest" and "\<exists>zs'. entries m' a = zs' @ rest"
    and "\<And>r. r \<in> set rest \<Longrightarrow> same_entry m m' r"
proof -
  have t: "tiles m (a + 1024) a (zs @ q # rest)" using ok e by (simp add: block_ok_def)
  then have z: "tiles m q a zs" "tiles m (a + 1024) (q + rec_len_at m q) rest" by (auto simp: tiles_append)
  have q: "a \<le> q" "8 \<le> rec_len_at m q" using block_entry [OF ok, of q] e by auto
  have before: "r + 4 \<le> x" if "r \<in> Q" "r \<in> set (entries m a)" "q + rec_len_at m q \<le> x" for r x
  proof -
    have "r = q \<or> r \<in> set zs" using that(1,2) Q e by auto
    then show ?thesis using tiles_entry [OF z(1), of r] q that(3) by auto
  qed
  show "tiles m' (a + 1024) (q + rec_len_at m q) rest"
    by (rule tiles_cong [OF z(2)]) (use th q before in \<open>auto simp: thinned_def\<close>)
  have "filter (\<lambda>r. r \<notin> Q) rest = rest" using Q by (auto simp: filter_id_conv)
  then show "\<exists>zs'. entries m' a = zs' @ rest" using th e by (auto simp: thinned_def)
  show "same_entry m m' r" if "r \<in> set rest" for r using that th e Q by (auto simp: thinned_def)
qed

lemma block_step:
  assumes ok: "block_ok m a" and e: "entries m a = zs @ q # rest"
  shows "(q + rec_len_at m q) mod EXT2_BLOCK_SIZE = 0 \<longleftrightarrow> rest = []" and "rest \<noteq> [] \<Longrightarrow> hd rest = q + rec_len_at m q"
    and "q + 8 + name_len_at m q \<le> DISK_SIZE"
proof -
  have "tiles m (a + 1024) a (zs @ q # rest)" using ok e by (simp add: block_ok_def)
  then have t: "tiles m (a + 1024) (q + rec_len_at m q) rest" by (auto simp: tiles_append)
  have q: "a \<le> q" "8 \<le> rec_len_at m q" "q + 8 + name_len_at m q \<le> DISK_SIZE" using block_entry [OF ok, of q] e by auto
  have a: "a mod 1024 = 0" using ok by (simp add: block_ok_def)
  show "(q + rec_len_at m q) mod EXT2_BLOCK_SIZE = 0 \<longleftrightarrow> rest = []"
  proof (cases rest)
    case Nil
    then have "q + rec_len_at m q = a + 1024" using t by simp
    then show ?thesis using Nil a by (simp add: EXT2_BLOCK_SIZE_def)
  next
    case (Cons r rs)
    then have "8 \<le> rec_len_at m (q + rec_len_at m q)" "q + rec_len_at m q + rec_len_at m (q + rec_len_at m q) \<le> a + 1024"
      using t by auto
    then show ?thesis using Cons not_block_end [OF a, of "q + rec_len_at m q"] q by (simp add: EXT2_BLOCK_SIZE_def)
  qed
  show "hd rest = q + rec_len_at m q" if "rest \<noteq> []" using t that by (cases rest) auto
  show "q + 8 + name_len_at m q \<le> DISK_SIZE" by (rule q)
qed

subsection \<open>The loop over a directory\<close>

definition remove_ok :: "cenv \<Rightarrow> tree \<Rightarrow> bool" where
  "remove_ok e t \<longleftrightarrow> (\<forall>fuel s. rm_ok s \<and> on_disk s t \<and> distinct (nodes t) \<and> fuel_for t \<le> fuel \<longrightarrow>
     (\<exists>s'. rm_run fuel e True 0 (Remove (inode_at (disk s) (entry_of t)) (entry_name (disk s) (entry_of t))) s =
        Ok (status t, s') \<and> removed (set (nodes t)) s s'))"

text \<open>After the tree of one entry is gone, the entries behind it are as they were.\<close>

lemma rest_after_removal:
  assumes ok: "block_ok (disk s) (block_addr b)" and ent: "entries (disk s) (block_addr b) = zs @ q # rest"
    and b: "b \<in> set (dirs s)" and r: "removed (set (nodes t)) s s1" and t: "on_disk s t"
    and ts: "filter (\<lambda>r. \<not> dots (disk s) r) rest = map entry_of ts"
    and d: "distinct (concat (map nodes (t # ts)))" and on: "\<forall>t' \<in> set ts. on_disk s t'"
    and pr: "\<forall>r \<in> set rest. printable (disk s) r"
  obtains zs' where "entries (disk s1) (block_addr b) = zs' @ rest"
    and "filter (\<lambda>r. \<not> dots (disk s1) r) rest = map entry_of ts"
    and "\<forall>r \<in> set rest. printable (disk s1) r" and "\<forall>t' \<in> set ts. on_disk s1 t'"
    and "rm_ok s1" and "b \<in> set (dirs s1)"
proof -
  have nd: "\<forall>r \<in> set (nodes t). \<not> dots (disk s) r" using on_disk_nodes [OF t] by (auto simp: removable_def)
  have "r \<notin> set (nodes t)" if r: "r \<in> set rest" for r
  proof
    assume n: "r \<in> set (nodes t)"
    then have "r \<in> set (filter (\<lambda>r. \<not> dots (disk s) r) rest)" using r nd by simp
    then obtain t' where "t' \<in> set ts" "r = entry_of t'" unfolding ts by auto
    then show False using n entry_in_nodes [of t'] d by (auto simp del: entry_in_nodes)
  qed
  then have dj: "set (nodes t) \<inter> set rest = {}" by blast
  have th: "thinned (set (nodes t)) (disk s) (disk s1) (block_addr b)" using r b by (simp add: removed_def)
  note tr = thinned_rest [OF ok ent th dj]
  obtain zs' where zs': "entries (disk s1) (block_addr b) = zs' @ rest" using tr(2) by blast
  show ?thesis
  proof (rule that [OF zs'])
    show "filter (\<lambda>r. \<not> dots (disk s1) r) rest = map entry_of ts"
      using ts tr(3) same_entry_props(2) by (metis (no_types, lifting) filter_cong)
    show "\<forall>r \<in> set rest. printable (disk s1) r" using pr same_entry_props(1) [OF tr(3)] by simp
    show "\<forall>t' \<in> set ts. on_disk s1 t'"
    proof
      fix t' assume t': "t' \<in> set ts"
      then have "set (nodes t') \<inter> set (nodes t) = {}" using d by auto
      then show "on_disk s1 t'" using on_disk_removed [OF r nd, of t'] on t' by simp
    qed
  qed (use r b in \<open>simp_all add: removed_def\<close>)
qed

lemma remove_entries_walk:
  assumes e: "malloc_ok e"
  shows "entries (disk s) (block_addr b) = zs @ qs \<Longrightarrow> qs \<noteq> [] \<Longrightarrow> rm_ok s \<Longrightarrow> b \<in> set (dirs s) \<Longrightarrow>
    \<forall>q \<in> set qs. printable (disk s) q \<Longrightarrow> filter (\<lambda>r. \<not> dots (disk s) r) qs = map entry_of ts \<Longrightarrow>
    \<forall>t \<in> set ts. on_disk s t \<and> remove_ok e t \<and> fuel_for t \<le> k \<Longrightarrow> distinct (concat (map nodes ts)) \<Longrightarrow>
    length qs + k \<le> fuel \<Longrightarrow>
    \<exists>s'. rm_run fuel e True 0 (Entries 0 (hd qs) result) s = Ok (last (result # map status ts), s') \<and>
      removed (set (concat (map nodes ts))) s s'"
proof (induction qs arbitrary: zs s ts result fuel)
  case (Cons q rest)
  have "dirs_ok s" using Cons.prems(3) by (simp add: rm_ok_def fs_wf_def)
  then have ok: "block_ok (disk s) (block_addr b)" using Cons.prems(4) by (simp add: dirs_ok_def)
  note st = block_step [OF ok Cons.prems(1)]
  have pr: "printable (disk s) q" using Cons.prems(5) by simp
  obtain f where f: "fuel = Suc f" "length rest + k \<le> f" using Cons.prems(9) by (cases fuel) auto
  show ?case
  proof (cases "dots (disk s) q")
    case True
    note rs = round_skip [OF st(3) pr True, of "rm_run f e True 0" e result]
    have ts: "filter (\<lambda>r. \<not> dots (disk s) r) rest = map entry_of ts" using Cons.prems(6) True by simp
    show ?thesis
    proof (cases "rest = []")
      case True
      then show ?thesis using rs st(1) ts f(1) removed_refl [OF Cons.prems(3)] by simp
    next
      case False
      have "entries (disk s) (block_addr b) = (zs @ [q]) @ rest" using Cons.prems(1) by simp
      then show ?thesis
        using Cons.IH [of s "zs @ [q]" ts f result] Cons.prems False ts f rs st(1,2) by simp
    qed
  next
    case False
    then obtain t ts' where ts: "ts = t # ts'" "entry_of t = q" "filter (\<lambda>r. \<not> dots (disk s) r) rest = map entry_of ts'"
      using Cons.prems(6) by auto
    have t: "on_disk s t" "remove_ok e t" "fuel_for t \<le> f" "distinct (nodes t)"
      using Cons.prems(7,8) ts(1) f(2) by auto
    then obtain s1 where s1: "rm_run f e True 0 (Remove (inode_at (disk s) q) (entry_name (disk s) q)) s = Ok (status t, s1)"
      "removed (set (nodes t)) s s1"
      using Cons.prems(3) ts(2) unfolding remove_ok_def by blast
    have "listed_type (file_type_at (disk s) q)" using on_disk_listed [OF t(1)] ts(2) by simp
    note rr = round_remove [where run = "rm_run f e True 0" and result = result, OF st(3) pr False this e s1(1)]
    show ?thesis
    proof (cases "rest = []")
      case True
      then have "ts' = []" using ts(3) by simp
      then show ?thesis using True rr s1(2) st(1) ts f(1) by simp
    next
      case ne: False
      obtain zs' where s1': "entries (disk s1) (block_addr b) = zs' @ rest"
        "filter (\<lambda>r. \<not> dots (disk s1) r) rest = map entry_of ts'" "\<forall>r \<in> set rest. printable (disk s1) r"
        "\<forall>t' \<in> set ts'. on_disk s1 t'" "rm_ok s1" "b \<in> set (dirs s1)"
        by (rule rest_after_removal [OF ok Cons.prems(1,4) s1(2) t(1) ts(3)]) (use Cons.prems(5,7,8) ts(1) in auto)
      have "\<forall>t' \<in> set ts'. on_disk s1 t' \<and> remove_ok e t' \<and> fuel_for t' \<le> k"
        using s1'(4) Cons.prems(7) ts(1) by simp
      then obtain s' where s': "rm_run f e True 0 (Entries 0 (hd rest) (status t)) s1 = Ok (last (status t # map status ts'), s')"
        "removed (set (concat (map nodes ts'))) s1 s'"
        using Cons.IH [of s1 zs' ts' f "status t"] s1' ne Cons.prems(8) ts(1) f(2) by auto
      have "removed (set (concat (map nodes ts))) s s'" using removed_trans [OF s1(2) s'(2)] ts(1) by simp
      then show ?thesis using rr s'(1) st(1,2) ne f(1) ts(1) by simp
    qed
  qed
qed simp

subsection \<open>The whole tree\<close>

text \<open>
  The loop over blocks takes the two sectors of a directory for two blocks; the second one, block 0,
  holds nothing to remove.
\<close>

lemma dir_inode_loads:
  assumes l: "layout (disk s)" and i: "0 < i" "i \<le> n_inodes (disk s)" and d: "dir_inode (disk s) i b"
  shows "ld 4 (inode_addr (disk s) i + i_blocks) s = Ok 2" "ld 4 (inode_addr (disk s) i + i_block 0) s = Ok b"
    "ld 4 (inode_addr (disk s) i + i_block 1) s = Ok 0"
    and "inode_ptr (rd 4 (disk s) (BGD + 8)) i = inode_addr (disk s) i"
proof -
  note bd = layout_inode [OF l i]
  show "ld 4 (inode_addr (disk s) i + i_blocks) s = Ok 2" "ld 4 (inode_addr (disk s) i + i_block 0) s = Ok b"
    "ld 4 (inode_addr (disk s) i + i_block 1) s = Ok 0"
    using d bd by (simp_all add: dir_inode_def fs_simps inode_fields)
  show "inode_ptr (rd 4 (disk s) (BGD + 8)) i = inode_addr (disk s) i"
    using i bd by (intro inode_ptr_addr) auto
qed

lemma remove_boot_entries:
  assumes "boot_clear (disk s)"
  shows "rm_run (Suc f) e True 0 (Entries index 0 result) s = Ok (result, s)"
  using assms by (simp add: remove_entries_body_def boot_clear_def fs_simps DISK_SIZE_def listed_type_def ext2_types)

lemma remove_blocks:
  assumes ok: "layout (disk s)" "layout (disk s1)" "boot_clear (disk s1)" and h: "same_header (disk s) (disk s1)"
    and i: "0 < i" "i \<le> n_inodes (disk s)" and d: "dir_inode (disk s) i b" "dir_inode (disk s1) i b"
    and walk: "rm_run (Suc (Suc f)) e True 0 (Entries 0 (block_addr b) 0) s = Ok (result, s1)"
  shows "rm_run (Suc (Suc (Suc f))) e True 0 (Blocks (inode_addr (disk s) i) 0 0) s = Ok (result, s1)"
proof -
  let ?a = "inode_addr (disk s) i" and ?run = "\<lambda>n. rm_run n e True 0"
  have a: "inode_addr (disk s1) i = ?a" "i \<le> n_inodes (disk s1)" using h i by (simp_all add: same_header_def inode_addr_def)
  note l = dir_inode_loads [OF ok(1) i d(1)] and l1 = dir_inode_loads [OF ok(2) i(1) a(2) d(2), unfolded a]
  have "block_addr 0 = 0" by (simp add: block_addr_def)
  then have boot: "?run (Suc f) (Entries 1 (block_addr 0) result) s1 = Ok (result, s1)"
    using remove_boot_entries [OF ok(3)] by metis
  have end2: "?run (Suc f) (Blocks ?a 2 result) s1 = Ok (result, s1)" using l1 by (simp add: remove_blocks_body_def)
  have "?run (Suc (Suc f)) (Blocks ?a 1 result) s1 = remove_blocks_body (?run (Suc f)) ?a 1 result s1" by simp
  also have "\<dots> = Ok (result, s1)"
    using l1 boot end2 unfolding remove_blocks_body_def by (simp del: rm_run.simps One_nat_def add: numeral_2_eq_2)
  finally have one: "?run (Suc (Suc f)) (Blocks ?a 1 result) s1 = Ok (result, s1)" .
  have "?run (Suc (Suc (Suc f))) (Blocks ?a 0 0) s = remove_blocks_body (?run (Suc (Suc f))) ?a 0 0 s" by simp
  also have "\<dots> = Ok (result, s1)"
    using l walk one unfolding remove_blocks_body_def by (simp del: rm_run.simps)
  finally show ?thesis .
qed

lemma entries_length: "block_ok m a \<Longrightarrow> length (entries m a) \<le> 128"
  using tiles_length [of m "a + 1024" a "entries m a"] by (simp add: block_ok_def)

text \<open>What the call finds for the entry, and the entry's removal once the rest is done.\<close>

lemma remove_finds:
  assumes ok: "rm_ok s" and q: "removable s q"
  shows "find_dir_entry i (entry_name (disk s) q) s = Ok (Some q)" and "de_file_type q s = Ok (file_type_at (disk s) q)"
    and "\<exists>s'. unlink_entry t q (inode_at (disk s) q) (entry_name (disk s) q) s = Ok s' \<and> removed {q} s s'"
proof -
  have d: "dirs_ok s" using ok by (simp add: rm_ok_def fs_wf_def)
  have f: "0 \<notin> set (entry_name (disk s) q)" "entry_name (disk s) q \<noteq> dot"
    "find (name_is (disk s) (entry_name (disk s) q)) (all_entries s) = Some q"
    "0 < inode_at (disk s) q" "inode_at (disk s) q \<le> n_inodes (disk s)"
    using q by (auto simp: removable_def printable_def dots_def)
  show "find_dir_entry i (entry_name (disk s) q) s = Ok (Some q)" "de_file_type q s = Ok (file_type_at (disk s) q)"
    using found_file [OF d f(1,3)] by simp_all
  show "\<exists>s'. unlink_entry t q (inode_at (disk s) q) (entry_name (disk s) q) s = Ok s' \<and> removed {q} s s'"
    by (rule unlink_step [OF ok f])
qed

text \<open>The loops of a directory whose trees can be removed.\<close>

lemma remove_dir_loops:
  assumes e: "malloc_ok e" and IH: "\<forall>t \<in> set ts. remove_ok e t" and a: "rm_ok s" "on_disk s (Tdir q b ts)"
    "distinct (nodes (Tdir q b ts))" and f: "128 + sum_list (map fuel_for ts) \<le> f + 2"
  shows "\<exists>s1. rm_run (Suc (Suc (Suc f))) e True 0 (Blocks (inode_addr (disk s) (inode_at (disk s) q)) 0 0) s =
      Ok (status (Tdir q b ts), s1) \<and> removed (set (concat (map nodes ts))) s s1"
proof -
  let ?i = "inode_at (disk s) q" and ?k = "sum_list (map fuel_for ts)" and ?Q = "set (concat (map nodes ts))"
  have q: "removable s q" "file_type_at (disk s) q = EXT2_FT_DIR" "dir_inode (disk s) ?i b" "b \<in> set (dirs s)"
    "\<forall>r \<in> set (entries (disk s) (block_addr b)). printable (disk s) r" "\<forall>t \<in> set ts. on_disk s t"
    "filter (\<lambda>r. \<not> dots (disk s) r) (entries (disk s) (block_addr b)) = map entry_of ts"
    "\<forall>r \<in> set (all_entries s). inode_at (disk s) r = ?i \<and> \<not> dots (disk s) r \<longrightarrow> r = q"
    using a(2) unfolding on_disk.simps by blast+
  have ok: "block_ok (disk s) (block_addr b)" "layout (disk s)" using a(1) q(4) by (auto simp: rm_ok_def fs_wf_def dirs_ok_def)
  have i: "0 < ?i" "?i \<le> n_inodes (disk s)" using q(1) by (simp_all add: removable_def)
  have qQ: "q \<notin> ?Q" "distinct (concat (map nodes ts))" using a(3) by auto
  obtain es where es: "entries (disk s) (block_addr b) = block_addr b # es" using entries_not_Nil [OF ok(1)] by blast
  have trees: "\<forall>t \<in> set ts. on_disk s t \<and> remove_ok e t \<and> fuel_for t \<le> ?k"
    using IH q(6) by (auto intro: member_le_sum_list)
  have "length (entries (disk s) (block_addr b)) + ?k \<le> Suc (Suc f)" using entries_length [OF ok(1)] f by simp
  from remove_entries_walk [where zs = "[]" and result = 0, OF e _ _ a(1) q(4,5,7) trees qQ(2) this]
  obtain s1 where s1: "rm_run (Suc (Suc f)) e True 0 (Entries 0 (block_addr b) 0) s = Ok (status (Tdir q b ts), s1)"
    "removed ?Q s s1"
    using es by auto
  have ok1: "rm_ok s1" "layout (disk s1)" "boot_clear (disk s1)" "same_header (disk s) (disk s1)"
    using s1(2) by (auto simp: removed_def rm_ok_def fs_wf_def)
  have "\<forall>p \<in> ?Q. inode_at (disk s) p \<noteq> ?i"
  proof
    fix p assume p: "p \<in> ?Q"
    then have "removable s p" using q(6) on_disk_nodes by auto
    moreover from this have "p \<in> set (all_entries s)" by (rule removable_entry)
    ultimately show "inode_at (disk s) p \<noteq> ?i" using q(8) qQ(1) p unfolding removable_def by blast
  qed
  then have d1: "dir_inode (disk s1) ?i b" using dir_inode_removed [OF s1(2) i] q(3) by simp
  have blocks: "rm_run (Suc (Suc (Suc f))) e True 0 (Blocks (inode_addr (disk s) ?i) 0 0) s = Ok (status (Tdir q b ts), s1)"
    by (rule remove_blocks [OF ok(2) ok1(2-4) i q(3) d1 s1(1)])
  then show ?thesis using s1(2) by blast
qed

lemma remove_tree:
  assumes e: "malloc_ok e"
  shows "remove_ok e t"
proof (induction t)
  case (Tfile q)
  show ?case
    unfolding remove_ok_def
  proof (intro allI impI, elim conjE)
    fix fuel s assume a: "rm_ok s" "on_disk s (Tfile q)" "fuel_for (Tfile q) \<le> fuel"
    then obtain f where f: "fuel = Suc f" by (cases fuel) auto
    have q: "removable s q" "file_type_at (disk s) q = EXT2_FT_REG_FILE \<or> file_type_at (disk s) q = EXT2_FT_SYMLINK"
      using a(2) by auto
    note r = remove_finds [OF a(1) q(1)]
    obtain s' where "unlink_entry (now e) q (inode_at (disk s) q) (entry_name (disk s) q) s = Ok s'" "removed {q} s s'"
      using r(3) by blast
    then show "\<exists>s'. rm_run fuel e True 0 (Remove (inode_at (disk s) (entry_of (Tfile q))) (entry_name (disk s) (entry_of (Tfile q)))) s =
        Ok (status (Tfile q), s') \<and> removed (set (nodes (Tfile q))) s s'"
      using r(1,2) q(2) f by (auto simp: remove_r_body_def header_loads)
  qed
next
  case (Tdir q b ts)
  show ?case
    unfolding remove_ok_def
  proof (intro allI impI, elim conjE)
    fix fuel s assume a: "rm_ok s" "on_disk s (Tdir q b ts)" "distinct (nodes (Tdir q b ts))" "fuel_for (Tdir q b ts) \<le> fuel"
    let ?i = "inode_at (disk s) q" and ?Q = "set (concat (map nodes ts))"
    obtain f where f: "fuel = Suc (Suc (Suc (Suc f)))" "128 + sum_list (map fuel_for ts) \<le> f + 2"
    proof -
      have "131 + sum_list (map fuel_for ts) \<le> fuel" using a(4) by simp
      then show ?thesis using that [of "fuel - 4"] by (simp add: numeral_eq_Suc)
    qed
    have q: "removable s q" "file_type_at (disk s) q = EXT2_FT_DIR" "dir_inode (disk s) ?i b"
      using a(2) unfolding on_disk.simps by blast+
    have ok: "layout (disk s)" "0 < ?i" "?i \<le> n_inodes (disk s)" "q \<notin> ?Q"
      using a(1,3) q(1) by (auto simp: rm_ok_def fs_wf_def removable_def)
    have IH: "\<forall>t \<in> set ts. remove_ok e t" using Tdir.IH by blast
    obtain s1 where s1: "rm_run (Suc (Suc (Suc f))) e True 0 (Blocks (inode_addr (disk s) ?i) 0 0) s = Ok (status (Tdir q b ts), s1)"
      "removed ?Q s s1"
      using remove_dir_loops [OF e IH a(1-3) f(2)] by blast
    have ok1: "rm_ok s1" using s1(2) by (simp add: removed_def)
    have q1: "removable s1 q" by (rule removable_removed [OF s1(2) q(1) ok(4)])
    have "same_entry (disk s) (disk s1) q" using removed_entries(3) [OF s1(2) removable_entry [OF q(1)] ok(4)] .
    then have se: "inode_at (disk s1) q = ?i" "entry_name (disk s1) q = entry_name (disk s) q" by (simp_all add: same_entry_def)
    obtain s2 where s2: "unlink_entry (now e) q ?i (entry_name (disk s) q) s1 = Ok s2" "removed {q} s1 s2"
      using remove_finds(3) [OF ok1 q1, of "now e"] se by auto
    have "?Q \<union> {q} = set (nodes (Tdir q b ts))" by auto
    then have r: "removed (set (nodes (Tdir q b ts))) s s2" using removed_trans [OF s1(2) s2(2)] by metis
    have "rm_run fuel e True 0 (Remove ?i (entry_name (disk s) q)) s =
        remove_r_body (rm_run (Suc (Suc (Suc f))) e True 0) e True ?i (entry_name (disk s) q) s"
      unfolding f(1) by simp
    also have "\<dots> = Ok (status (Tdir q b ts), s2)"
      using remove_finds(1,2) [OF a(1) q(1)] q(2) s1(1) s2(1) dir_inode_loads(4) [OF ok(1-3) q(3)]
      unfolding remove_r_body_def by (simp add: header_loads ext2_types del: rm_run.simps status.simps)
    finally show "\<exists>s'. rm_run fuel e True 0 (Remove (inode_at (disk s) (entry_of (Tdir q b ts)))
        (entry_name (disk s) (entry_of (Tdir q b ts)))) s = Ok (status (Tdir q b ts), s') \<and>
        removed (set (nodes (Tdir q b ts))) s s'"
      using r by (auto simp del: status.simps nodes.simps)
  qed
qed

subsection \<open>rm -r from the path to the disk\<close>

text \<open>For a file or a link, with the flag or without it, the tool does what \<open>rm\<close> does.\<close>

lemma rm_r_file_is_rm:
  assumes "traverse 2 (tokens path) (basename path) s = Ok i" and "find_dir_entry i (basename path) s = Ok (Some d)"
    and "de_file_type d s = Ok t" and "t = EXT2_FT_REG_FILE \<or> t = EXT2_FT_SYMLINK"
  shows "rm_r_path (Suc fuel) e rflag junk path s = rm_path (now e) path s"
  using assms by (cases "unlink_entry (now e) d i (basename path) s")
    (auto simp: rm_r_path_def rm_path_def Let_def remove_r_def remove_r_body_def header_loads EISDIR_def)

lemma status_bit: "status t \<le> 1"
proof (induction t)
  case (Tdir q b ts)
  have "last (0 # map status ts) \<in> set (0 # map status ts)" by (rule last_in_set) simp
  then show ?case using Tdir.IH by auto
qed simp


subsection \<open>The witness\<close>

text \<open>A block with ".", ".." and one more entry.\<close>

lemma fresh_linked:
  fixes a ino par i name mode m
  defines "m0 \<equiv> dir_block_mem a ino par m"
  defines "m' \<equiv> linked (a + 12) i name mode m0"
  assumes a: "a mod 1024 = 0" "a + 1024 \<le> DISK_SIZE" and n: "ino < 2 ^ 32" "par < 2 ^ 32" "length name \<le> 200"
    "i < 2 ^ 32" "mode < 256"
  shows "entries m' a = [a, a + 12, a + 24]" and "block_ok m' a" and "dir_of m' a = Some ino" and "rec_len_at m' a = 12"
    and "entry_name m' a = dot" "entry_name m' (a + 12) = dotdot" "entry_name m' (a + 24) = name"
    and "inode_at m' a = ino" "inode_at m' (a + 12) = par" "inode_at m' (a + 24) = i" "file_type_at m' (a + 24) = mode"
    and "x < a \<or> a + 1024 \<le> x \<Longrightarrow> m' x = m x"
proof -
  note f = dir_block_mem_fields [of a ino par m, folded m0_def]
  have fr: "fresh_dir m0 a ino par" unfolding m0_def by (rule dir_block_mem_fresh [OF a n(1,2)])
  have t: "tiles m0 (a + 1024) a [a, a + 12]" by (simp add: f)
  then have e0: "entries m0 a = [a, a + 12]" by (rule tiles_entries)
  have sp: "splits m0 a (a + 12) (9 + length name) name"
    using fr e0 n(3) f by (simp add: splits_def fresh_dir_def room_def dir_size_2)
  have s2: "dir_size_for (name_len_at m0 (a + 12)) = 12" by (simp add: f dir_size_2)
  obtain ps1 ps2 where ps: "entries m0 a = ps1 @ (a + 12) # ps2"
    "entries m' a = ps1 @ (a + 12) # (a + 12 + dir_size_for (name_len_at m0 (a + 12))) # ps2" "block_ok m' a"
    using linked_entries [OF sp, of i mode] unfolding m'_def by metis
  have "ps1 = [a] \<and> ps2 = []" using ps(1) by (cases ps1) (auto simp: e0 Cons_eq_append_conv)
  then show "entries m' a = [a, a + 12, a + 24]" "block_ok m' a" using ps(2,3) s2 by simp_all
  have d0: "dir_of m0 a = Some ino" "entry_name m0 a = dot" "entry_name m0 (a + 12) = dotdot" "inode_at m0 a = ino" "inode_at m0 (a + 12) = par"
    using fr e0 by (simp_all add: fresh_dir_def)
  then show "dir_of m' a = Some ino" using dir_of_linked [OF sp, of i mode] by (simp add: m'_def)
  show "entry_name m' a = dot" "entry_name m' (a + 12) = dotdot" "inode_at m' a = ino" "inode_at m' (a + 12) = par"
    using linked_entry [OF sp, of _ i mode] e0 d0 by (simp_all add: m'_def)
  show "entry_name m' (a + 24) = name" "inode_at m' (a + 24) = i" "file_type_at m' (a + 24) = mode"
    using split_mem_new [of 12 1012 name "a + 12" i mode m0] n s2 f by (simp_all add: m'_def add.assoc)
  have "rec_len_at m' a = rec_len_at m0 a"
    using entry_fields_cong [of a m' m0] linked_other [OF sp, of _ i mode] by (simp add: m'_def)
  then show "rec_len_at m' a = 12" by (simp add: f)
  show "m' x = m x" if "x < a \<or> a + 1024 \<le> x"
  proof -
    have "m' x = m0 x" unfolding m'_def by (rule linked_other [OF sp]) (use that f in auto)
    then show ?thesis using that by (auto simp: m0_def dir_block_mem_other)
  qed
qed

text \<open>The directory \<open>/a\<close>, inode 12 with block 8, that holds the file \<open>x\<close>, inode 13.\<close>

definition base_mem :: mem where
  "base_mem = wr 4 6556 2 (wr 4 6568 8 (root_inode_mem(3072 := 255)))"

definition root_mem :: mem where
  "root_mem = linked 7180 12 [97] EXT2_FT_DIR (dir_block_mem 7168 2 2 base_mem)"

definition tree_mem :: mem where
  "tree_mem = linked 8204 13 [120] EXT2_FT_REG_FILE (dir_block_mem 8192 12 2 root_mem)"

definition tree_fs :: fs where
  "tree_fs = \<lparr>disk = tree_mem, dirs = [7, 8], inum = [1]\<rparr>"

lemma tree_fields [simp]: "disk tree_fs = tree_mem" "dirs tree_fs = [7, 8]"
  by (simp_all add: tree_fs_def)

lemma tree_addr: "block_addr 7 = 7168" "block_addr 8 = 8192"
  by (simp_all add: block_addr_def EXT2_BLOCK_SIZE_def)

lemma tree_sub:
  "entries tree_mem 8192 = [8192, 8204, 8216]" "block_ok tree_mem 8192" "rec_len_at tree_mem 8192 = 12"
  "entry_name tree_mem 8192 = dot" "entry_name tree_mem 8204 = dotdot" "entry_name tree_mem 8216 = [120]"
  "inode_at tree_mem 8192 = 12" "inode_at tree_mem 8204 = 2" "inode_at tree_mem 8216 = 13"
  "file_type_at tree_mem 8216 = EXT2_FT_REG_FILE" "dir_of tree_mem 8192 = Some 12"
  "x < 8192 \<or> 9216 \<le> x \<Longrightarrow> tree_mem x = root_mem x"
  using fresh_linked [where a = 8192 and ino = 12 and par = 2 and i = 13 and name = "[120]" and mode = EXT2_FT_REG_FILE and m = root_mem]
  by (simp_all add: tree_mem_def DISK_SIZE_def ext2_types)

lemma tree_root:
  "entries tree_mem 7168 = [7168, 7180, 7192]" "block_ok tree_mem 7168" "rec_len_at tree_mem 7168 = 12"
  "entry_name tree_mem 7168 = dot" "entry_name tree_mem 7180 = dotdot" "entry_name tree_mem 7192 = [97]"
  "inode_at tree_mem 7168 = 2" "inode_at tree_mem 7180 = 2" "inode_at tree_mem 7192 = 12"
  "file_type_at tree_mem 7192 = EXT2_FT_DIR" "dir_of tree_mem 7168 = Some 2"
proof -
  have r: "entries root_mem 7168 = [7168, 7180, 7192]" "block_ok root_mem 7168" "rec_len_at root_mem 7168 = 12"
    "entry_name root_mem 7168 = dot" "entry_name root_mem 7180 = dotdot" "entry_name root_mem 7192 = [97]"
    "inode_at root_mem 7168 = 2" "inode_at root_mem 7180 = 2" "inode_at root_mem 7192 = 12"
    "file_type_at root_mem 7192 = EXT2_FT_DIR" "dir_of root_mem 7168 = Some 2"
    using fresh_linked [where a = 7168 and ino = 2 and par = 2 and i = 12 and name = "[97]" and mode = EXT2_FT_DIR and m = base_mem]
    by (simp_all add: root_mem_def DISK_SIZE_def ext2_types)
  have t: "thinned {} root_mem tree_mem 7168"
    by (rule thinned_same [OF r(2)]) (use tree_sub(12) in auto)
  then show "entries tree_mem 7168 = [7168, 7180, 7192]" "block_ok tree_mem 7168" "dir_of tree_mem 7168 = Some 2"
    "entry_name tree_mem 7168 = dot" "entry_name tree_mem 7180 = dotdot" "entry_name tree_mem 7192 = [97]"
    "inode_at tree_mem 7168 = 2" "inode_at tree_mem 7180 = 2" "inode_at tree_mem 7192 = 12"
    "file_type_at tree_mem 7192 = EXT2_FT_DIR"
    using r by (simp_all add: thinned_def same_entry_def)
  have "rec_len_at tree_mem 7168 = rec_len_at root_mem 7168"
    using entry_fields_cong [of 7168 tree_mem root_mem] tree_sub(12) by simp
  then show "rec_len_at tree_mem 7168 = 12" using r(3) by simp
qed

lemma tree_low: "x < 7168 \<Longrightarrow> tree_mem x = base_mem x"
  using tree_sub(12) [of x] fresh_linked(12) [where a = 7168 and ino = 2 and par = 2 and i = 12 and name = "[97]" and mode = EXT2_FT_DIR and m = base_mem and x = x]
  by (simp add: root_mem_def DISK_SIZE_def ext2_types)

lemma tree_sample: "x < 6556 \<or> 6572 \<le> x \<and> x < 7168 \<Longrightarrow> x \<noteq> 3072 \<Longrightarrow> tree_mem x = sample_disk x"
  by (auto simp: tree_low base_mem_def wr_other sample_low)

lemma tree_header: "same_header sample_disk tree_mem"
  by (rule same_headerI; rule tree_sample; simp)

lemma tree_header_values:
  "n_inodes tree_mem = 16" "n_blocks tree_mem = 20" "bbm tree_mem = 3072" "ibm tree_mem = 4096"
  "itab tree_mem = 5120" "data_start tree_mem = 7168"
  using tree_header sample_header by (simp_all add: same_header_def data_start_def INODE_SIZE_def)

lemma tree_used: "i < 1024 \<Longrightarrow> i \<in> used_bits tree_mem 3072 \<longleftrightarrow> i < 8"
proof -
  assume i: "i < 1024"
  show ?thesis
  proof (cases "i < 8")
    case True
    have "tree_mem 3072 = 2 ^ 8 - 1" by (simp add: tree_low base_mem_def wr_other)
    then have "i \<in> used_bits tree_mem 3072 \<longleftrightarrow> bit (2 ^ 8 - 1 :: byte) i" using True by (simp add: used_bits_def)
    then show ?thesis using low_bits [of 8 i] True by simp
  next
    case False
    then have "1 \<le> i div 8" "i div 8 < 1024" using i by auto
    then have "tree_mem (3072 + i div 8) = sample_disk (3072 + i div 8)" by (intro tree_sample) auto
    then show ?thesis using False sample_used_blocks [OF i] by (simp add: used_bits_def)
  qed
qed

lemma tree_dir_inode: "dir_inode tree_mem 12 8"
proof -
  have rd: "rd 4 tree_mem a = rd 4 base_mem a" if "a + 4 \<le> 7168" for a by (rule rd_cong) (use that tree_low in auto)
  have "rd 4 base_mem 6572 = rd 4 (\<lambda>_. 0) 6572"
    by (rule rd_cong) (simp add: base_mem_def root_inode_mem_def wr_other bitmaps_mem_def header_zero)
  moreover have "rd n (\<lambda>_. 0) a = 0" for n a by (induction n arbitrary: a) auto
  ultimately have "rd 4 base_mem 6556 = 2" "rd 4 base_mem 6568 = 8" "rd 4 base_mem 6572 = 0"
    by (simp_all add: base_mem_def rd_wr_same rd_wr_other)
  then show ?thesis by (simp add: dir_inode_def inode_addr_def tree_header_values INODE_SIZE_def inode_fields rd)
qed

lemma tree_ok: "rm_ok tree_fs"
proof -
  have "layout tree_mem" by (simp add: layout_def tree_header_values DISK_SIZE_def)
  moreover have "dirs_ok tree_fs" by (simp add: dirs_ok_def tree_addr tree_root tree_sub)
  moreover have "7168 \<le> block_addr (i + 1)" if "i < 20" "8 \<le> i" for i using that by (simp add: block_addr_small)
  ultimately have "fs_wf tree_fs"
    by (simp add: fs_wf_def tree_header_values tree_used tree_addr not_less)
  moreover have "boot_clear tree_mem"
    by (rule boot_clear_cong [OF _ file_boot]) (simp add: tree_sample file_disk_low)
  ultimately show ?thesis by (simp add: rm_ok_def tree_header_values tree_addr tree_root tree_sub)
qed

lemma tree_on_disk: "on_disk tree_fs (Tdir 7192 8 [Tfile 8216])"
  by (auto simp: removable_def all_entries_def tree_addr tree_root tree_sub tree_header_values tree_dir_inode name_is_def
      printable_def dots_def dot_def dotdot_def ext2_types)


end
