(* ===== verification/Ext2Ln.thy ===== *)
theory Ext2Ln
  imports Ext2Unlink Ext2Cmds2
begin

section \<open>ln\<close>

text \<open>
  A hard link: a new entry for the inode of a file, and one more link in the inode.
\<close>

subsection \<open>allocate for a file\<close>

definition reg_inode :: "nat \<Rightarrow> mem \<Rightarrow> mem" where
  "reg_inode a m = bump_links a (wr 2 (a + i_mode) EXT2_S_IFREG m)"

lemma allocate_reg_eq:
  assumes l: "layout (disk s)" and i: "0 < i" "i \<le> n_inodes (disk s)"
  shows "allocate i p EXT2_S_IFREG None s = Ok (s\<lparr>disk := reg_inode (inode_addr (disk s) i) (disk s)\<rparr>)"
proof -
  note b = layout_inode [OF l i]
  have "inode_ptr (rd 4 (disk s) (BGD + 8)) i = inode_addr (disk s) i"
    using i b by (intro inode_ptr_addr) auto
  then show ?thesis
    using b unfolding allocate_def header_loads res_bind_Ok Let_def
    by (simp add: fs_simps inode_fields add_link_count_def bump_links_def reg_inode_def)
qed

lemma reg_inode_other: "x < a \<or> a + 128 \<le> x \<Longrightarrow> reg_inode a m x = m x"
  by (auto simp: reg_inode_def bump_links_other wr_other inode_fields)

lemma reg_inode_fields:
  "rd 2 (reg_inode a m) (a + i_mode) = EXT2_S_IFREG"
  "rd 2 (reg_inode a m) (a + i_links_count) = (rd 2 m (a + i_links_count) + 1) mod 2 ^ 16"
  by (simp_all add: reg_inode_def bump_links_def inode_fields rd_wr_same rd_wr_other EXT2_S_IFREG_def)

lemma reg_inode_same_but:
  "same_but (link_bytes (disk s) i) s (s\<lparr>disk := reg_inode (inode_addr (disk s) i) (disk s)\<rparr>)"
  by (auto simp: same_but_def link_bytes_def intro!: reg_inode_other)

subsection \<open>create_link on a well-formed image\<close>

lemma create_link_wf:
  assumes wf: "fs_wf s" and a: "dir_addr s p = Some a" and name: "length name < 256" "mode \<noteq> EXT2_FT_SYMLINK"
    and i: "i < 2 ^ 32" and none: "lookup s p name = None" and room: "has_room_in (disk s) a name mode"
  obtains s' where "create_link p i name mode s = Ok (1, s')" and "fs_wf s'" and "dirs s' = dirs s"
    and "same_header (disk s) (disk s')" and "\<And>x. x < data_start (disk s) \<Longrightarrow> disk s' x = disk s x"
    and "\<And>j t. lookup s' j t = (if j = p \<and> t = name then Some i else lookup s j t)"
    and "inum s' = inum s" and "\<And>x. x < a \<or> a + 1024 \<le> x \<Longrightarrow> disk s' x = disk s x"
proof -
  have l: "layout (disk s)" and ok: "dirs_ok s" using wf by (auto simp: fs_wf_def)
  note L = layout_bounds [OF l]
  obtain b where b: "b \<in> set (dirs s)" "a = block_addr b" using dir_addr_Some [OF a] by blast
  then have start: "data_start (disk s) \<le> a" using wf by (auto simp: fs_wf_def)
  obtain s' where s': "create_link p i name mode s = Ok (1, s')" "dirs_ok s'" "dirs s' = dirs s" "inum s' = inum s"
    "\<forall>x. x < a \<or> a + 1024 \<le> x \<longrightarrow> disk s' x = disk s x"
    "\<forall>j t. lookup s' j t = (if j = p \<and> t = name then Some i else lookup s j t)"
    using create_link_lookup [OF ok a name i none] room by auto
  have low: "disk s' x = disk s x" if "x < data_start (disk s)" for x using s'(5) that start by auto
  have h: "same_header (disk s) (disk s')" by (rule same_headerI; rule low; use L in simp)
  have "fs_wf s'"
  proof (rule fs_wf_step [OF wf s'(3) h s'(2)])
    fix j assume j: "j < 1024" "j \<in> used_bits (disk s) (bbm (disk s))"
    have "disk s' x = disk s x" if "bbm (disk s) \<le> x" "x < bbm (disk s) + 128" for x
      using that L by (intro low) auto
    then show "j \<in> used_bits (disk s') (bbm (disk s))" using j used_bits_cong by blast
  qed
  then show ?thesis using that s' h low by blast
qed

text \<open>What \<open>ln\<close> promises for a hard link.\<close>

definition file_linked :: "fs \<Rightarrow> fs \<Rightarrow> nat \<Rightarrow> cstr \<Rightarrow> nat \<Rightarrow> bool" where
  "file_linked s s' p f i \<longleftrightarrow> fs_wf s' \<and> dirs s' = dirs s \<and>
     (\<forall>j t. lookup s' j t = (if j = p \<and> t = f then Some i else lookup s j t)) \<and>
     rd 2 (disk s') (inode_addr (disk s) i + i_mode) = EXT2_S_IFREG \<and>
     rd 2 (disk s') (inode_addr (disk s) i + i_links_count) =
       (rd 2 (disk s) (inode_addr (disk s) i + i_links_count) + 1) mod 2 ^ 16"

lemma make_link_effect:
  assumes wf: "fs_wf s" and a: "dir_addr s p = Some a" and f: "length f < 256" "lookup s p f = None"
    and room: "has_room_in (disk s) a f EXT2_FT_REG_FILE" and i: "0 < i" "i \<le> n_inodes (disk s)"
  shows "\<exists>s'. make_link p i f path False s = Ok s' \<and> file_linked s s' p f i"
proof -
  have l: "layout (disk s)" using wf by (simp add: fs_wf_def)
  note b = layout_inode [OF l i] inode_addr_bounds [OF l i]
  obtain s1 where s1: "create_link p i f EXT2_FT_REG_FILE s = Ok (1, s1)" "fs_wf s1" "dirs s1 = dirs s"
    "same_header (disk s) (disk s1)" "\<And>x. x < data_start (disk s) \<Longrightarrow> disk s1 x = disk s x"
    "\<And>j t. lookup s1 j t = (if j = p \<and> t = f then Some i else lookup s j t)"
    by (rule create_link_wf [OF wf a f(1) _ b(3) f(2) room]) (simp_all add: ext2_types)
  have h: "n_inodes (disk s1) = n_inodes (disk s)" "inode_addr (disk s1) i = inode_addr (disk s) i" "layout (disk s1)"
    using s1(4) same_header_layout [OF s1(4)] l by (auto simp: same_header_def inode_addr_def)
  let ?a = "inode_addr (disk s) i"
  let ?s2 = "s1\<lparr>disk := reg_inode ?a (disk s1)\<rparr>"
  have al: "allocate i p EXT2_S_IFREG None s1 = Ok ?s2"
    using allocate_reg_eq [OF h(3) i(1)] i(2) h by simp
  have "same_but (link_bytes (disk s1) i) s1 ?s2" using reg_inode_same_but [of s1 i] h by simp
  note w = same_but_wf [OF s1(2) i(1) _ this]
  have links: "rd 2 (disk s1) (?a + i_links_count) = rd 2 (disk s) (?a + i_links_count)"
    by (rule rd_cong, rule s1(5)) (use b in \<open>auto simp: inode_fields\<close>)
  have "file_linked s ?s2 p f i"
    unfolding file_linked_def using w i(2) h s1(3,6) links reg_inode_fields [of ?a "disk s1"] by auto
  then show ?thesis using s1(1) al by (simp add: make_link_def)
qed

subsection \<open>The paths\<close>

lemma name_at_last: "tokens path = ps @ [f] \<Longrightarrow> name_at (tokens path) (length (tokens path) - 1) = Ok f"
  by (simp add: name_at_def)

lemma new_path_free:
  assumes ok: "dirs_ok s" and path: "0 \<notin> set path" "tokens path = ps @ [f]" "f \<notin> set ps"
    and p: "resolve s 2 ps = Some p" and new: "lookup s p f = None"
  shows "traverse 2 (tokens path) f s = Ok 0"
  using traverse_path [OF ok path, of 2] p new by (simp add: path(2) resolve_snoc)

text \<open>The part of \<open>main\<close> that looks the second path up.\<close>

lemma ln_second_path:
  assumes ok: "dirs_ok s" and path: "0 \<notin> set path" "\<And>x. path \<noteq> x @ [slash, slash]" "tokens path = ps @ [f]"
    and toks: "distinct (ps @ [f])" and p: "resolve s 2 ps = Some p" and new: "lookup s p f = None"
  obtains parent_path parent_name where
    "get_parent_path True (length (tokens path)) path = Ok parent_path"
    and "(if length (tokens path) \<ge> 2 then name_at (tokens path) (length (tokens path) - 2) else Ok [slash]) = Ok parent_name"
    and "traverse 2 (if length (tokens path) \<ge> 2 then tokens path else [f]) f s = Ok 0"
    and "(if parent_name = [slash] then Ok 2 else traverse 2 (tokens parent_path) parent_name s) = Ok p"
proof (cases ps rule: rev_cases)
  case Nil
  have "path \<noteq> []" using path(3) by auto
  then have "get_parent_path True (length (tokens path)) path = Ok [slash]"
    using path(3) Nil by (simp add: get_parent_path_def)
  moreover have "traverse 2 [f] f s = Ok 0"
    using new_path_free [OF ok path(1,3) _ p new] Nil path(3) by simp
  ultimately show ?thesis using that [of "[slash]" "[slash]"] p path(3) Nil by simp
next
  case (snoc qs d)
  then have t: "tokens path = qs @ [d, f]" "d \<notin> set qs" "resolve s 2 (qs @ [d]) = Some p"
    using path(3) toks p by auto
  obtain parent where parent: "get_parent_path True (length (tokens path)) path = Ok parent"
    "tokens parent = qs @ [d]" "traverse 2 (tokens parent) d s = Ok p"
    by (rule traverse_parent [OF ok path(1,2) t])
  have "d \<noteq> [slash]" using tokens_no_slash [of d path] t(1) by simp
  moreover have "name_at (tokens path) (length (tokens path) - 2) = Ok d"
    by (simp add: t(1) name_at_def nth_append)
  moreover have "traverse 2 (tokens path) f s = Ok 0"
    by (rule new_path_free [OF ok path(1,3) _ p new]) (use toks in auto)
  ultimately show ?thesis using that [of parent d] parent t(1) by simp
qed

text \<open>
  C13. \<open>ln\<close> makes a hard link.  On a well-formed image, for a path that resolves to inode \<open>i\<close> (its last
  name first found with a file) and a new name in an existing directory with room, \<open>ln\<close> ends; the
  image is well formed, the new name resolves to \<open>i\<close>, every other lookup is unchanged and the link
  count of the inode is one higher.  But its mode becomes that of a regular file, without the
  permission bits and also for a symbolic link, and the exit status is \<open>ENOENT\<close>.
\<close>

theorem ln_makes_hard_link:
  assumes wf: "fs_wf s"
    and path1: "0 \<notin> set path1" "tokens path1 = ps1 @ [f1]" "f1 \<notin> set ps1" "\<forall>t \<in> set (ps1 @ [f1]). length t \<le> 254"
    and i: "resolve s 2 (ps1 @ [f1]) = Some i" "0 < i" "i \<le> n_inodes (disk s)"
    and q: "find (name_is (disk s) f1) (all_entries s) = Some q"
    and ft: "file_type_at (disk s) q = EXT2_FT_REG_FILE \<or> file_type_at (disk s) q = EXT2_FT_SYMLINK"
    and path2: "0 \<notin> set path2" "\<forall>x. path2 \<noteq> x @ [slash, slash]" "tokens path2 = ps2 @ [f2]" "distinct (ps2 @ [f2])"
      "\<forall>t \<in> set (ps2 @ [f2]). length t \<le> 254"
    and parent: "resolve s 2 ps2 = Some p" "0 < p" "dir_addr s p = Some a"
    and new: "lookup s p f2 = None" "has_room_in (disk s) a f2 EXT2_FT_REG_FILE"
  shows "\<exists>s'. ln_paths True path1 path2 (length (tokens path1)) (length (tokens path2)) False s =
      Ok (ENOENT, [], Some (disk s')) \<and> file_linked s s' p f2 i"
proof -
  have ok: "dirs_ok s" using wf by (simp add: fs_wf_def)
  have ns: "path1 \<noteq> [slash]" "path2 \<noteq> [slash]" "tokens path1 \<noteq> []" "tokens path2 \<noteq> []"
    using path1(2) path2(3) tokens_all_slash [of "[slash]"] by auto
  have names: "arr_names True (length (tokens path1)) path1 = Ok (tokens path1)"
    "arr_names True (length (tokens path2)) path2 = Ok (tokens path2)"
    by (rule arr_names_Ok, use path1(2,4) path2(3,5) in simp)+
  note last = name_at_last [OF path1(2)] name_at_last [OF path2(3)]
  have tr1: "traverse 2 (tokens path1) f1 s = Ok i"
    using traverse_path [OF ok path1(1-3), of 2] i(1) path1(2) by simp
  obtain parent_path parent_name where second:
    "get_parent_path True (length (tokens path2)) path2 = Ok parent_path"
    "(if length (tokens path2) \<ge> 2 then name_at (tokens path2) (length (tokens path2) - 2) else Ok [slash]) = Ok parent_name"
    "traverse 2 (if length (tokens path2) \<ge> 2 then tokens path2 else [f2]) f2 s = Ok 0"
    "(if parent_name = [slash] then Ok 2 else traverse 2 (tokens parent_path) parent_name s) = Ok p"
    by (rule ln_second_path [OF ok path2(1) _ path2(3,4) parent(1) new(1)]) (use path2(2) in auto)
  have f0: "0 \<notin> set f1" using tokens_no_zero [OF path1(1), of f1] path1(2) by simp
  note entry = found_file(1,4) [OF ok f0 q]
  have ft': "file_type_at (disk s) q = EXT2_FT_SYMLINK \<or> file_type_at (disk s) q = EXT2_FT_REG_FILE"
    using ft by blast
  have "length f2 < 256" using path2(5) by auto
  then obtain s' where s': "make_link p i f2 path2 False s = Ok s'" "file_linked s s' p f2 i"
    using make_link_effect [OF wf parent(3) _ new i(2,3)] by blast
  have "ln_paths True path1 path2 (length (tokens path1)) (length (tokens path2)) False s = Ok (ENOENT, [], Some (disk s'))"
    unfolding ln_paths_def using ns names last tr1 second entry ft' i(2) parent(2) s'(1)
    by (simp add: done_with_def)
  then show ?thesis using s'(2) by blast
qed

lemma file_room: "has_room_in file_disk 7168 [98] EXT2_FT_REG_FILE"
proof -
  have "rec_len_at file_disk 7192 = 1000" "name_len_at file_disk 7192 = 1"
    using split_mem_new [of 12 1012 "[97]" 7180 12 EXT2_FT_REG_FILE sample_disk]
    by (simp_all add: file_disk_def sample_dotdot dir_size_2 EXT2_FT_REG_FILE_def)
  then have "room file_disk (total_size_for [98] EXT2_FT_REG_FILE) 7192"
    by (simp add: room_def dir_size_for_def total_size_for_def ext2_types PTR_SIZE_def FT_SIZE_def round_up_def)
  then show ?thesis by (auto simp: has_room_in_def file_entries)
qed

lemma path_b: "tokens [47, 98] = [[98]]"
proof -
  have "tokens ([] @ slash # t) = tokens t" for t by (simp only: tokens_append_slash) simp
  then show ?thesis using tokens_component [of "[98]"] by (simp add: slash_def)
qed

theorem ln_makes_hard_link_witness:
  "\<exists>s'. ln_paths True [47, 97] [47, 98] 1 1 False file_fs = Ok (ENOENT, [], Some (disk s')) \<and>
    lookup s' 2 [98] = Some 12 \<and> lookup s' 2 [97] = Some 12"
proof -
  have n: "12 \<le> n_inodes (disk file_fs)" using file_header sample_header by (simp add: same_header_def)
  have none: "lookup file_fs 2 [98] = None"
    by (simp add: lookup_def dir_entries_def sample_block_addr file_dir file_entries name_is_def file_names dot_def dotdot_def)
  have "\<exists>s'. ln_paths True [47, 97] [47, 98] (length (tokens [47, 97])) (length (tokens [47, 98])) False file_fs =
      Ok (ENOENT, [], Some (disk s')) \<and> file_linked file_fs s' 2 [98] 12"
  proof (rule ln_makes_hard_link [where q = 7192 and a = 7168 and ?ps1.0 = "[]" and ?ps2.0 = "[]", OF file_wf])
    show "resolve file_fs 2 ([] @ [[97]]) = Some 12" by (simp only: append_Nil resolve.simps file_lookup) simp
    show "find (name_is (disk file_fs) [97]) (all_entries file_fs) = Some 7192"
      using file_only by (simp add: only_entry_def)
    show "dir_addr file_fs 2 = Some 7168" by (simp add: dir_addr_def sample_block_addr file_dir)
    show "\<forall>x. [47, 98] \<noteq> x @ [slash, slash]" by (auto simp: slash_def append_eq_Cons_conv)
  qed (use n none file_room in \<open>simp_all add: sample_path path_b file_names\<close>)
  then show ?thesis by (auto simp: sample_path path_b file_linked_def file_lookup)
qed

end
