(* ===== verification/Ext2Cp.thy ===== *)
theory Ext2Cp
  imports Ext2Ln
begin

section \<open>cp\<close>

text \<open>
  Copying a file of at most one block: the block that is taken for it, the bytes that \<open>strcpy\<close> puts
  there, the second block that the code takes for nothing, and the fields of the inode.
\<close>

subsection \<open>Taking a block\<close>

text \<open>The number \<open>find_free_block\<close> returns.\<close>

definition next_block :: "mem \<Rightarrow> nat" where
  "next_block m = (case free_block m of None \<Rightarrow> 0 | Some k \<Rightarrow> k + 1)"

text \<open>A step that keeps the image well formed and changes no lookup, and no byte of \<open>X\<close>.\<close>

definition quiet :: "nat set \<Rightarrow> fs \<Rightarrow> fs \<Rightarrow> bool" where
  "quiet X s s' \<longleftrightarrow> fs_wf s' \<and> dirs s' = dirs s \<and> same_header (disk s) (disk s') \<and>
     (\<forall>j t. lookup s' j t = lookup s j t) \<and> (\<forall>x \<in> X. disk s' x = disk s x)"

lemma quiet_trans: "quiet X s s' \<Longrightarrow> quiet Y s' s'' \<Longrightarrow> quiet (X \<inter> Y) s s''"
  unfolding quiet_def using same_header_trans by auto

lemma quiet_mono: "quiet X s s' \<Longrightarrow> Y \<subseteq> X \<Longrightarrow> quiet Y s s'"
  by (auto simp: quiet_def)

lemma quiet_header:
  assumes "quiet X s s'"
  shows "n_inodes (disk s') = n_inodes (disk s)" "n_blocks (disk s') = n_blocks (disk s)" "bbm (disk s') = bbm (disk s)"
    "ibm (disk s') = ibm (disk s)" "inode_addr (disk s') i = inode_addr (disk s) i" "data_start (disk s') = data_start (disk s)"
  using assms same_header_layout [of "disk s" "disk s'"] by (auto simp: quiet_def same_header_def inode_addr_def)

lemma find_free_block_effect:
  assumes wf: "fs_wf s"
  obtains s' where "find_free_block s = Ok (next_block (disk s), s')"
    and "quiet {x. ibm (disk s) \<le> x} s s'"
    and "\<forall>j. j \<in> used_bits (disk s') (bbm (disk s)) \<longleftrightarrow> j \<in> used_bits (disk s) (bbm (disk s)) \<or> next_block (disk s) = j + 1"
proof (cases "free_block (disk s)")
  case None
  have "layout (disk s)" using wf by (simp add: fs_wf_def)
  then have "find_free_block s = Ok (next_block (disk s), s)"
    using find_free_block_eq None by (simp add: next_block_def)
  then show ?thesis using that [of s] wf None by (simp add: quiet_def next_block_def)
next
  case (Some k)
  have l: "layout (disk s)" and ok: "dirs_ok s" using wf by (auto simp: fs_wf_def)
  have k: "k < n_blocks (disk s)" using Some by (simp add: free_block_Some)
  let ?m = "taken (bbm (disk s)) bg_free_blocks_count k (disk s)"
  let ?s = "s\<lparr>disk := ?m\<rparr>"
  note L = layout_bounds [OF l]
  note t = taken_block [OF l k]
  have k8: "k div 8 < 128" using L(1) [OF k] by simp
  have same: "?m x = disk s x" if "ibm (disk s) \<le> x" for x
    using that L k8 by (intro taken_other) (auto simp: bg_free_blocks_count_def BGD_def)
  have "data_same {} s ?s" using t(1) same L by (auto simp: data_same_def)
  then have kd: "keeps_dirs s ?s" by (rule data_same_keeps [OF _ ok]) (use wf in \<open>auto simp: fs_wf_def\<close>)
  have "fs_wf ?s"
    by (rule fs_wf_step [OF wf _ _ keeps_dirs_lookup(2) [OF kd]]) (use t in auto)
  then have "quiet {x. ibm (disk s) \<le> x} s ?s"
    using t(1) same keeps_dirs_lookup(1) [OF kd] by (simp add: quiet_def)
  moreover have "find_free_block s = Ok (next_block (disk s), ?s)"
    using find_free_block_eq [OF l] Some by (simp add: next_block_def)
  ultimately show ?thesis using that [of ?s] t(2) Some by (auto simp: next_block_def)
qed

subsection \<open>Writes to the inode\<close>

lemma inode_write_quiet:
  fixes v :: nat
  assumes wf: "fs_wf s" and i: "0 < i" "i \<le> n_inodes (disk s)" and o: "off + n \<le> 128"
  defines "s' \<equiv> s\<lparr>disk := wr n (inode_addr (disk s) i + off) v (disk s)\<rparr>"
  shows "st n (inode_addr (disk s) i + off) v s = Ok s'"
    and "quiet {x. x < inode_addr (disk s) i + off \<or> inode_addr (disk s) i + off + n \<le> x} s s'"
    and "\<forall>j < n_blocks (disk s). j \<in> used_bits (disk s') (bbm (disk s)) \<longleftrightarrow> j \<in> used_bits (disk s) (bbm (disk s))"
proof -
  have l: "layout (disk s)" using wf by (simp add: fs_wf_def)
  note b = layout_inode [OF l i]
  show "st n (inode_addr (disk s) i + off) v s = Ok s'" using b o by (simp add: st_Ok s'_def)
  have "same_but (link_bytes (disk s) i) s s'"
    unfolding s'_def by (rule same_but_wr) (use o in \<open>auto simp: link_bytes_def\<close>)
  note w = same_but_wf [OF wf i this]
  then show "quiet {x. x < inode_addr (disk s) i + off \<or> inode_addr (disk s) i + off + n \<le> x} s s'"
    by (auto simp: quiet_def s'_def wr_other)
  show "\<forall>j < n_blocks (disk s). j \<in> used_bits (disk s') (bbm (disk s)) \<longleftrightarrow> j \<in> used_bits (disk s) (bbm (disk s))"
    using w(5) by blast
qed

lemma quiet_rd: "quiet X s s' \<Longrightarrow> {a..<a + n} \<subseteq> X \<Longrightarrow> rd n (disk s') a = rd n (disk s) a"
  by (rule rd_cong) (auto simp: quiet_def)

lemma quiet_wf: "quiet X s s' \<Longrightarrow> fs_wf s'"
  by (simp add: quiet_def)

text \<open>The bytes of the inode that \<open>add_block\<close> writes for the block with number \<open>index\<close>.\<close>

definition block_fields :: "nat \<Rightarrow> nat \<Rightarrow> nat set" where
  "block_fields a index = {a + i_blocks..<a + i_blocks + 4} \<union> {a + i_block index..<a + i_block index + 4}"

lemma add_block_effect:
  assumes wf: "fs_wf s" and i: "0 < i" "i \<le> n_inodes (disk s)" and index: "index \<le> 11"
  defines "a \<equiv> inode_addr (disk s) i" and "b \<equiv> next_block (disk s)"
  obtains s' where "add_block a index s = Ok (block_addr b, s')"
    and "quiet ({x. ibm (disk s) \<le> x} - block_fields a index) s s'"
    and "rd 4 (disk s') (a + i_block index) = b mod 2 ^ 32"
    and "rd 4 (disk s') (a + i_blocks) = (rd 4 (disk s) (a + i_blocks) + 1) mod 2 ^ 32"
    and "\<forall>j < n_blocks (disk s). j \<in> used_bits (disk s') (bbm (disk s)) \<longleftrightarrow>
      j \<in> used_bits (disk s) (bbm (disk s)) \<or> b = j + 1"
proof -
  have l: "layout (disk s)" using wf by (simp add: fs_wf_def)
  note L = layout_bounds [OF l] and bd = layout_inode [OF l i] inode_addr_bounds [OF l i]
  obtain s1 where s1: "find_free_block s = Ok (b, s1)" "quiet {x. ibm (disk s) \<le> x} s s1"
    "\<forall>j. j \<in> used_bits (disk s1) (bbm (disk s)) \<longleftrightarrow> j \<in> used_bits (disk s) (bbm (disk s)) \<or> b = j + 1"
    unfolding b_def by (rule find_free_block_effect [OF wf])
  note h1 = quiet_header [OF s1(2)]
  have i1: "i \<le> n_inodes (disk s1)" "inode_addr (disk s1) i = a" using i h1 by (simp_all add: a_def)
  have off: "i_block index + 4 \<le> 128" "i_blocks + 4 \<le> 128" using index by (simp_all add: inode_fields)
  define s2 where "s2 = s1\<lparr>disk := wr 4 (a + i_block index) b (disk s1)\<rparr>"
  note w2 = inode_write_quiet [OF quiet_wf [OF s1(2)] i(1) i1(1) off(1), of b, unfolded i1(2), folded s2_def]
  note h2 = quiet_header [OF w2(2)]
  have i2: "i \<le> n_inodes (disk s2)" "inode_addr (disk s2) i = a" using i1 h2 by simp_all
  let ?n = "rd 4 (disk s2) (a + i_blocks)"
  define s3 where "s3 = s2\<lparr>disk := wr 4 (a + i_blocks) (?n + 1) (disk s2)\<rparr>"
  note w3 = inode_write_quiet [OF quiet_wf [OF w2(2)] i(1) i2(1) off(2), of "?n + 1", unfolded i2(2), folded s3_def]
  have ld: "ld 4 (a + i_blocks) s2 = Ok ?n"
    by (rule ld_Ok) (use bd in \<open>simp add: a_def inode_fields\<close>)
  have low: "ibm (disk s) \<le> a" using bd L unfolding a_def by linarith
  have n: "?n = rd 4 (disk s) (a + i_blocks)"
  proof -
    have "?n = rd 4 (disk s1) (a + i_blocks)" by (rule quiet_rd [OF w2(2)]) (auto simp: inode_fields)
    also have "\<dots> = rd 4 (disk s) (a + i_blocks)" by (rule quiet_rd [OF s1(2)]) (use low in auto)
    finally show ?thesis .
  qed
  show ?thesis
  proof (rule that [of s3])
    show "add_block a index s = Ok (block_addr b, s3)" using s1(1) w2(1) ld w3(1) by (simp add: add_block_def)
    show "quiet ({x. ibm (disk s) \<le> x} - block_fields a index) s s3"
      by (rule quiet_mono [OF quiet_trans [OF quiet_trans [OF s1(2) w2(2)] w3(2)]]) (auto simp: block_fields_def)
    show "rd 4 (disk s3) (a + i_block index) = b mod 2 ^ 32"
      by (simp add: s3_def s2_def rd_wr_other rd_wr_same inode_fields)
    show "rd 4 (disk s3) (a + i_blocks) = (rd 4 (disk s) (a + i_blocks) + 1) mod 2 ^ 32"
      by (simp add: s3_def rd_wr_same n)
    show "\<forall>j < n_blocks (disk s). j \<in> used_bits (disk s3) (bbm (disk s)) \<longleftrightarrow>
        j \<in> used_bits (disk s) (bbm (disk s)) \<or> b = j + 1"
      using s1(3) w2(3) w3(3) h1 h2 by simp
  qed
qed

subsection \<open>Writes to a block of data\<close>

lemma free_block_unused:
  assumes wf: "fs_wf s" and k: "free_block (disk s) = Some k"
  shows "k + 1 \<notin> set (dirs s)" and "k + 1 < 128" and "data_start (disk s) \<le> block_addr (k + 1)"
proof -
  have "k < n_blocks (disk s)" "k \<notin> used_bits (disk s) (bbm (disk s))" using k by (auto simp: free_block_Some)
  then show "k + 1 < 128" "data_start (disk s) \<le> block_addr (k + 1)" "k + 1 \<notin> set (dirs s)"
    using wf by (auto simp: fs_wf_def)
qed

lemma bytes_at_blit: "bytes_at (length bs) (blit bs a m) a = bs"
  by (rule nth_equalityI) (auto simp: bytes_at_def blit_def)

lemma block_write_quiet:
  fixes t :: cstr
  assumes wf: "fs_wf s" and k: "k + 1 \<notin> set (dirs s)" "k + 1 < 128" "data_start (disk s) \<le> block_addr (k + 1)"
    and t: "length t + 1 \<le> 1024"
  defines "A \<equiv> block_addr (k + 1)"
  defines "s' \<equiv> s\<lparr>disk := blit (t @ [0]) A (disk s)\<rparr>"
  shows "strcpy_to A t s = Ok s'" and "quiet {x. x < A \<or> A + 1024 \<le> x} s s'"
    and "bytes_at (length t + 1) (disk s') A = t @ [0]"
    and "\<forall>j < n_blocks (disk s). j \<in> used_bits (disk s') (bbm (disk s)) \<longleftrightarrow> j \<in> used_bits (disk s) (bbm (disk s))"
proof -
  have l: "layout (disk s)" and ok: "dirs_ok s" using wf by (auto simp: fs_wf_def)
  note L = layout_bounds [OF l] and ba = block_addr_mod [OF k(2), folded A_def]
  show "strcpy_to A t s = Ok s'" using ba t by (simp add: strcpy_to_Ok s'_def)
  show "bytes_at (length t + 1) (disk s') A = t @ [0]"
    using bytes_at_blit [of "t @ [0]" A "disk s"] by (simp add: s'_def)
  have same: "disk s' x = disk s x" if "x < A \<or> A + 1024 \<le> x" for x
    using that t by (auto simp: s'_def intro!: blit_other)
  have low: "disk s' x = disk s x" if "x < data_start (disk s)" for x
    by (rule same) (use that k(3) in \<open>simp add: A_def\<close>)
  have h: "same_header (disk s) (disk s')" by (rule same_headerI; rule low; use L in simp)
  have d: "dirs s' = dirs s" by (simp add: s'_def)
  have "data_same {A..<A + 1024} s s'" using h d same by (auto simp: data_same_def)
  then have kd: "keeps_dirs s s'"
  proof (rule data_same_keeps [OF _ ok])
    fix b assume b: "b \<in> set (dirs s)"
    then have b': "b < 128" "data_start (disk s) \<le> block_addr b" "b \<noteq> k + 1" using wf k(1) by (auto simp: fs_wf_def)
    then show "data_start (disk s) \<le> block_addr b \<and> {A..<A + 1024} \<inter> {block_addr b..<block_addr b + 1024} = {}"
      using ba block_addr_mod [OF b'(1)] by auto
  qed
  have bits: "j \<in> used_bits (disk s') (bbm (disk s)) \<longleftrightarrow> j \<in> used_bits (disk s) (bbm (disk s))" if "j < 1024" for j
    by (rule used_bits_cong [OF low that]) (use L in auto)
  then show "\<forall>j < n_blocks (disk s). j \<in> used_bits (disk s') (bbm (disk s)) \<longleftrightarrow> j \<in> used_bits (disk s) (bbm (disk s))"
    using L(1) by blast
  have "fs_wf s'" by (rule fs_wf_step [OF wf d h keeps_dirs_lookup(2) [OF kd]]) (use bits in blast)
  then show "quiet {x. x < A \<or> A + 1024 \<le> x} s s'"
    using h d same keeps_dirs_lookup(1) [OF kd] by (simp add: quiet_def)
qed

subsection \<open>copy\<close>

text \<open>What \<open>strcpy\<close> takes from the buffer after the only piece of the file was read.\<close>

definition stored :: "byte list \<Rightarrow> byte list \<Rightarrow> cstr" where
  "stored buffer content = takeWhile (\<lambda>c. c \<noteq> 0) (refill buffer content)"

text \<open>The file in block \<open>k + 1\<close>, its inode, and a second block, if there was one.\<close>

definition file_stored :: "fs \<Rightarrow> fs \<Rightarrow> nat \<Rightarrow> nat \<Rightarrow> cstr \<Rightarrow> nat \<Rightarrow> bool" where
  "file_stored s s' i k t sz \<longleftrightarrow>
     (let a = inode_addr (disk s) i; m = disk s' in
      bytes_at (length t + 1) m (block_addr (k + 1)) = t @ [0] \<and> rd 4 m (a + i_block 0) = k + 1 \<and>
      rd 4 m (a + i_size) = sz \<and> rd 4 m (a + i_blocks) = (rd 4 (disk s) (a + i_blocks) + 2) mod 2 ^ 32 \<and>
      k \<in> used_bits m (bbm (disk s)) \<and>
      ((\<forall>j < n_blocks (disk s). j \<in> used_bits (disk s) (bbm (disk s)) \<or> j = k) \<or>
       (\<exists>k2 < n_blocks (disk s). k2 \<noteq> k \<and> k2 \<notin> used_bits (disk s) (bbm (disk s)) \<and>
          k2 \<in> used_bits m (bbm (disk s)) \<and> rd 4 m (a + i_block 1) = k2 + 1)))"

lemma pieces_one: "content \<noteq> [] \<Longrightarrow> length content \<le> 1024 \<Longrightarrow> pieces content = [content]"
  by (simp add: pieces.simps [of content] pieces.simps [of "[]"] EXT2_BLOCK_SIZE_def)

lemma stored_bounds:
  assumes "length buffer = 1024" and "length content \<le> 1024" and "0 \<in> set (refill buffer content)"
  shows "length (stored buffer content) + 1 \<le> 1024" and "0 \<notin> set (stored buffer content)"
proof -
  have len: "length (refill buffer content) = 1024" using assms(1,2) by (simp add: refill_def)
  have "takeWhile (\<lambda>c. c \<noteq> 0) (refill buffer content) \<noteq> refill buffer content"
    using assms(3) by (metis (mono_tags, lifting) takeWhile_eq_all_conv)
  then have "length (stored buffer content) < 1024"
    using len length_takeWhile_le [of "\<lambda>c. c \<noteq> 0" "refill buffer content"]
    unfolding stored_def by (metis le_neq_implies_less takeWhile_eq_take take_all order_refl)
  then show "length (stored buffer content) + 1 \<le> 1024" by simp
  show "0 \<notin> set (stored buffer content)" by (auto simp: stored_def dest: set_takeWhileD)
qed

lemma free_block_None: "free_block m = None \<Longrightarrow> j < n_blocks m \<Longrightarrow> j \<in> used_bits m (bbm m)"
  by (simp add: free_block_def find_upt_None)

text \<open>The only piece goes to the free block \<open>k + 1\<close>.\<close>

lemma first_piece_effect:
  assumes wf: "fs_wf s" and i: "0 < i" "i \<le> n_inodes (disk s)" and k: "free_block (disk s) = Some k"
    and c: "length content \<le> 1024" "length buffer = 1024" "0 \<in> set (refill buffer content)"
  defines "a \<equiv> inode_addr (disk s) i" and "A \<equiv> block_addr (k + 1)" and "t \<equiv> stored buffer content"
  obtains s1 s2 where "add_block a 0 s = Ok (A, s1)" and "strcpy_buffer A (refill buffer content) s1 = Ok s2"
    and "quiet ({x. ibm (disk s) \<le> x} - block_fields a 0 - {A..<A + 1024}) s s2"
    and "rd 4 (disk s2) (a + i_block 0) = k + 1"
    and "rd 4 (disk s2) (a + i_blocks) = (rd 4 (disk s) (a + i_blocks) + 1) mod 2 ^ 32"
    and "bytes_at (length t + 1) (disk s2) A = t @ [0]"
    and "\<forall>j < n_blocks (disk s). j \<in> used_bits (disk s2) (bbm (disk s)) \<longleftrightarrow> j \<in> used_bits (disk s) (bbm (disk s)) \<or> j = k"
proof -
  note free = free_block_unused [OF wf k] and tb = stored_bounds [OF c(2,1,3), folded t_def]
  have l: "layout (disk s)" using wf by (simp add: fs_wf_def)
  have aA: "a + 128 \<le> A"
    using free(3) inode_addr_bounds [OF l i] layout_bounds [OF l] unfolding A_def a_def by auto
  have nb: "next_block (disk s) = k + 1" using k by (simp add: next_block_def)
  obtain s1 where s1: "add_block a 0 s = Ok (A, s1)" "quiet ({x. ibm (disk s) \<le> x} - block_fields a 0) s s1"
    "rd 4 (disk s1) (a + i_block 0) = (k + 1) mod 2 ^ 32"
    "rd 4 (disk s1) (a + i_blocks) = (rd 4 (disk s) (a + i_blocks) + 1) mod 2 ^ 32"
    "\<forall>j < n_blocks (disk s). j \<in> used_bits (disk s1) (bbm (disk s)) \<longleftrightarrow> j \<in> used_bits (disk s) (bbm (disk s)) \<or> k + 1 = j + 1"
    using add_block_effect [OF wf i, of 0, folded a_def, unfolded nb, folded A_def] by blast
  note h1 = quiet_header [OF s1(2)]
  have d1: "dirs s1 = dirs s" using s1(2) by (simp add: quiet_def)
  define s2 where "s2 = s1\<lparr>disk := blit (t @ [0]) A (disk s1)\<rparr>"
  have start1: "data_start (disk s1) \<le> block_addr (k + 1)" using free(3) h1 by simp
  note w2 = block_write_quiet [OF quiet_wf [OF s1(2)] free(1) [folded d1] free(2) start1 tb(1), folded A_def, folded s2_def]
  have field: "rd 4 (disk s2) (a + f) = rd 4 (disk s1) (a + f)" if "f + 4 \<le> 128" for f
    by (rule quiet_rd [OF w2(2)]) (use that aA in auto)
  show ?thesis
  proof (rule that [OF s1(1)])
    show "strcpy_buffer A (refill buffer content) s1 = Ok s2"
      using w2(1) c(3) by (simp add: strcpy_buffer_def t_def stored_def)
    show "quiet ({x. ibm (disk s) \<le> x} - block_fields a 0 - {A..<A + 1024}) s s2"
      by (rule quiet_mono [OF quiet_trans [OF s1(2) w2(2)]]) auto
    show "rd 4 (disk s2) (a + i_block 0) = k + 1"
      using field [of "i_block 0"] s1(3) free(2) by (simp add: inode_fields)
    show "rd 4 (disk s2) (a + i_blocks) = (rd 4 (disk s) (a + i_blocks) + 1) mod 2 ^ 32"
      using field [of i_blocks] s1(4) by (simp add: inode_fields)
    show "bytes_at (length t + 1) (disk s2) A = t @ [0]" by (rule w2(3))
  qed (use s1(5) w2(4) h1 in auto)
qed

text \<open>After the loop: one more block, and the size.\<close>

lemma last_block_effect:
  assumes wf: "fs_wf s" and i: "0 < i" "i \<le> n_inodes (disk s)"
  defines "a \<equiv> inode_addr (disk s) i"
  obtains B s1 s2 where "add_block a 1 s = Ok (B, s1)" and "st 4 (a + i_size) sz s1 = Ok s2"
    and "quiet ({x. ibm (disk s) \<le> x} - block_fields a 1 - {a + i_size..<a + i_size + 4}) s s2"
    and "rd 4 (disk s2) (a + i_size) = sz mod 2 ^ 32"
    and "rd 4 (disk s2) (a + i_block 1) = next_block (disk s) mod 2 ^ 32"
    and "rd 4 (disk s2) (a + i_blocks) = (rd 4 (disk s) (a + i_blocks) + 1) mod 2 ^ 32"
    and "\<forall>j < n_blocks (disk s). j \<in> used_bits (disk s2) (bbm (disk s)) \<longleftrightarrow>
      j \<in> used_bits (disk s) (bbm (disk s)) \<or> next_block (disk s) = j + 1"
proof -
  have one11: "(1 :: nat) \<le> 11" by simp
  obtain s1 where s1: "add_block a 1 s = Ok (block_addr (next_block (disk s)), s1)"
    "quiet ({x. ibm (disk s) \<le> x} - block_fields a 1) s s1"
    "rd 4 (disk s1) (a + i_block 1) = next_block (disk s) mod 2 ^ 32"
    "rd 4 (disk s1) (a + i_blocks) = (rd 4 (disk s) (a + i_blocks) + 1) mod 2 ^ 32"
    "\<forall>j < n_blocks (disk s). j \<in> used_bits (disk s1) (bbm (disk s)) \<longleftrightarrow>
      j \<in> used_bits (disk s) (bbm (disk s)) \<or> next_block (disk s) = j + 1"
    using add_block_effect [OF wf i one11, folded a_def] by blast
  note h1 = quiet_header [OF s1(2)]
  have i1: "i \<le> n_inodes (disk s1)" "inode_addr (disk s1) i = a" "bbm (disk s1) = bbm (disk s)"
    "n_blocks (disk s1) = n_blocks (disk s)" using i h1 by (simp_all add: a_def)
  define s2 where "s2 = s1\<lparr>disk := wr 4 (a + i_size) sz (disk s1)\<rparr>"
  have off: "i_size + 4 \<le> 128" by (simp add: inode_fields)
  note w2 = inode_write_quiet [OF quiet_wf [OF s1(2)] i(1) i1(1) off, of sz, unfolded i1(2-4), folded s2_def]
  have field: "rd 4 (disk s2) (a + f) = rd 4 (disk s1) (a + f)" if "8 \<le> f" for f
    by (rule quiet_rd [OF w2(2)]) (use that in \<open>auto simp: inode_fields\<close>)
  show ?thesis
  proof (rule that [OF s1(1) w2(1)])
    show "quiet ({x. ibm (disk s) \<le> x} - block_fields a 1 - {a + i_size..<a + i_size + 4}) s s2"
      by (rule quiet_mono [OF quiet_trans [OF s1(2) w2(2)]]) auto
    show "rd 4 (disk s2) (a + i_size) = sz mod 2 ^ 32"
      by (simp add: s2_def rd_wr_same)
    show "rd 4 (disk s2) (a + i_block 1) = next_block (disk s) mod 2 ^ 32"
      using field [of "i_block 1"] s1(3) by (simp add: inode_fields)
    show "rd 4 (disk s2) (a + i_blocks) = (rd 4 (disk s) (a + i_blocks) + 1) mod 2 ^ 32"
      using field [of i_blocks] s1(4) by (simp add: inode_fields)
  qed (use s1(5) w2(3) in auto)
qed

text \<open>The block taken in the second step, if there was one.\<close>

lemma second_block:
  assumes k: "free_block (disk s) = Some k" and h: "bbm (disk s2) = bbm (disk s)" "n_blocks (disk s2) = n_blocks (disk s)"
    and u2: "\<forall>j < n_blocks (disk s). j \<in> used_bits (disk s2) (bbm (disk s)) \<longleftrightarrow> j \<in> used_bits (disk s) (bbm (disk s)) \<or> j = k"
    and u4: "\<forall>j < n_blocks (disk s). j \<in> used_bits (disk s4) (bbm (disk s)) \<longleftrightarrow>
      j \<in> used_bits (disk s2) (bbm (disk s)) \<or> next_block (disk s2) = j + 1"
    and p: "rd 4 (disk s4) x = next_block (disk s2) mod 2 ^ 32"
    and small: "\<And>j. j < n_blocks (disk s) \<Longrightarrow> j < 1024"
  shows "(\<forall>j < n_blocks (disk s). j \<in> used_bits (disk s) (bbm (disk s)) \<or> j = k) \<or>
    (\<exists>k2 < n_blocks (disk s). k2 \<noteq> k \<and> k2 \<notin> used_bits (disk s) (bbm (disk s)) \<and>
       k2 \<in> used_bits (disk s4) (bbm (disk s)) \<and> rd 4 (disk s4) x = k2 + 1)"
proof (cases "free_block (disk s2)")
  case None
  then have "\<forall>j < n_blocks (disk s). j \<in> used_bits (disk s) (bbm (disk s)) \<or> j = k"
    using free_block_None [OF None] u2 h by auto
  then show ?thesis by blast
next
  case (Some k2)
  then have nb: "next_block (disk s2) = k2 + 1" by (simp add: next_block_def)
  have k2: "k2 < n_blocks (disk s)" "k2 \<notin> used_bits (disk s2) (bbm (disk s))"
    using h Some by (auto simp: free_block_Some)
  moreover have "rd 4 (disk s4) x = k2 + 1"
    using p small [OF k2(1)] by (simp add: nb)
  ultimately show ?thesis
    using u2 u4 nb by auto
qed

lemma copy_effect:
  assumes wf: "fs_wf s" and i: "0 < i" "i \<le> n_inodes (disk s)" and k: "free_block (disk s) = Some k"
    and c: "content \<noteq> []" "length content \<le> 1024" "length buffer = 1024" "0 \<in> set (refill buffer content)"
  shows "\<exists>s'. copy buffer content i s = Ok s' \<and> quiet ({x. inode_addr (disk s) i + 128 \<le> x} - {block_addr (k + 1)..<block_addr (k + 1) + 1024}) s s' \<and>
    rd 2 (disk s') (inode_addr (disk s) i + i_mode) = rd 2 (disk s) (inode_addr (disk s) i + i_mode) \<and>
    rd 2 (disk s') (inode_addr (disk s) i + i_links_count) = rd 2 (disk s) (inode_addr (disk s) i + i_links_count) \<and>
    file_stored s s' i k (stored buffer content) (length content)"
proof -
  define a where "a = inode_addr (disk s) i"
  define A where "A = block_addr (k + 1)"
  define t where "t = stored buffer content"
  have l: "layout (disk s)" using wf by (simp add: fs_wf_def)
  note L = layout_bounds [OF l] and bd = layout_inode [OF l i, folded a_def] inode_addr_bounds [OF l i, folded a_def]
  have A: "a + 128 \<le> A" "ibm (disk s) + 128 \<le> a" using free_block_unused(3) [OF wf k] bd L unfolding A_def by auto
  have kn: "k < n_blocks (disk s)" "k \<notin> used_bits (disk s) (bbm (disk s))"
    using k by (auto simp: free_block_Some)
  obtain s1 s2 where s2: "add_block a 0 s = Ok (A, s1)" "strcpy_buffer A (refill buffer content) s1 = Ok s2"
    "quiet ({x. ibm (disk s) \<le> x} - block_fields a 0 - {A..<A + 1024}) s s2" "rd 4 (disk s2) (a + i_block 0) = k + 1"
    "rd 4 (disk s2) (a + i_blocks) = (rd 4 (disk s) (a + i_blocks) + 1) mod 2 ^ 32"
    "bytes_at (length t + 1) (disk s2) A = t @ [0]"
    "\<forall>j < n_blocks (disk s). j \<in> used_bits (disk s2) (bbm (disk s)) \<longleftrightarrow> j \<in> used_bits (disk s) (bbm (disk s)) \<or> j = k"
    using first_piece_effect [OF wf i k c(2-4)] unfolding a_def A_def t_def by blast
  note h2 = quiet_header [OF s2(3)]
  have i2: "i \<le> n_inodes (disk s2)" "inode_addr (disk s2) i = a" "ibm (disk s2) = ibm (disk s)"
    "bbm (disk s2) = bbm (disk s)" "n_blocks (disk s2) = n_blocks (disk s)" using i h2 by (simp_all add: a_def)
  obtain B s3 s4 where s4: "add_block a 1 s2 = Ok (B, s3)" "st 4 (a + i_size) (length content) s3 = Ok s4"
    "quiet ({x. ibm (disk s) \<le> x} - block_fields a 1 - {a + i_size..<a + i_size + 4}) s2 s4"
    "rd 4 (disk s4) (a + i_size) = length content mod 2 ^ 32"
    "rd 4 (disk s4) (a + i_block 1) = next_block (disk s2) mod 2 ^ 32"
    "rd 4 (disk s4) (a + i_blocks) = (rd 4 (disk s2) (a + i_blocks) + 1) mod 2 ^ 32"
    "\<forall>j < n_blocks (disk s). j \<in> used_bits (disk s4) (bbm (disk s)) \<longleftrightarrow>
      j \<in> used_bits (disk s2) (bbm (disk s)) \<or> next_block (disk s2) = j + 1"
    using last_block_effect [OF quiet_wf [OF s2(3)] i(1) i2(1), unfolded i2(2-5), of "length content"] by blast
  have "copy_loop a 0 0 buffer (pieces content) s = Ok (length content, s3)"
    using s2(1,2) s4(1) by (simp add: pieces_one [OF c(1,2)])
  moreover have "inode_ptr (rd 4 (disk s) (BGD + 8)) i = a"
    using i bd inode_ptr_addr [of i "disk s"] by (simp add: a_def)
  ultimately have cp: "copy buffer content i s = Ok s4"
    using s4(2) unfolding copy_def header_loads res_bind_Ok Let_def by simp
  have keep: "rd n (disk s4) x = rd n (disk s) x"
    if "{x..<x + n} \<subseteq> {x. ibm (disk s) \<le> x} - block_fields a 0 - {A..<A + 1024} - block_fields a 1 - {a + i_size..<a + i_size + 4}"
    for n x
    using that by (intro quiet_rd [OF quiet_trans [OF s2(3) s4(3)]]) auto
  have late: "rd 4 (disk s4) (a + i_block 0) = rd 4 (disk s2) (a + i_block 0)"
    "bytes_at (length t + 1) (disk s4) A = bytes_at (length t + 1) (disk s2) A"
    by (rule quiet_rd [OF s4(3)], use A in \<open>auto simp: block_fields_def inode_fields\<close>)
      (rule bytes_at_cong, use s4(3) A in \<open>auto simp: quiet_def block_fields_def inode_fields\<close>)
  have st: "file_stored s s4 i k t (length content)"
    using late s2(4-7) s4(4,6,7) kn(1) c(2) second_block [OF k i2(4,5) s2(7) s4(7) s4(5) L(1)]
    unfolding file_stored_def Let_def a_def [symmetric] A_def [symmetric] by (simp add: mod_Suc_eq)
  have q4: "quiet ({x. a + 128 \<le> x} - {A..<A + 1024}) s s4"
    by (rule quiet_mono [OF quiet_trans [OF s2(3) s4(3)]]) (use A in \<open>auto simp: block_fields_def inode_fields\<close>)
  have "rd 2 (disk s4) (a + i_mode) = rd 2 (disk s) (a + i_mode)"
    "rd 2 (disk s4) (a + i_links_count) = rd 2 (disk s) (a + i_links_count)"
    by (rule keep, use A in \<open>auto simp: block_fields_def inode_fields\<close>)+
  then show ?thesis using cp q4 st unfolding a_def A_def t_def by blast
qed

subsection \<open>The command\<close>

lemma take_inode_quiet:
  assumes wf: "fs_wf s" and i: "free_inode (disk s) = Some i"
  obtains s' where "find_free_inode s = Ok (i + 1, s')"
    and "quiet ({x. x < ibm (disk s) \<and> x \<noteq> 2062 \<and> x \<noteq> 2063} \<union> {x. ibm (disk s) + 128 \<le> x}) s s'"
proof -
  define s' where "s' = s\<lparr>disk := taken (ibm (disk s)) bg_free_inodes_count i (disk s)\<rparr>"
  note t = take_inode_effect [OF wf i, folded s'_def]
  have "layout (disk s)" using wf by (simp add: fs_wf_def)
  then have i8: "i div 8 < 128" using layout_bounds(2) i by (fastforce simp: free_inode_Some)
  have "disk s' x = disk s x" if "x < ibm (disk s) \<and> x \<noteq> 2062 \<and> x \<noteq> 2063 \<or> ibm (disk s) + 128 \<le> x" for x
  proof -
    have "x < 2062 \<or> 2064 \<le> x"
      using that layout_bounds(6) [of "disk s"] wf by (auto simp: fs_wf_def)
    then have "x < bg_free_inodes_count \<or> bg_free_inodes_count + 2 \<le> x"
      unfolding bg_free_inodes_count_def BGD_def by linarith
    then show ?thesis using that i8 unfolding s'_def by (auto intro!: taken_other)
  qed
  then have "quiet ({x. x < ibm (disk s) \<and> x \<noteq> 2062 \<and> x \<noteq> 2063} \<union> {x. ibm (disk s) + 128 \<le> x}) s s'"
    using t(3,5) keeps_dirs_lookup(1) [OF t(2)] by (simp add: quiet_def s'_def)
  then show ?thesis using that t(1) by blast
qed

text \<open>Memory that keeps the block bitmap has the same free blocks.\<close>

lemma same_bitmap:
  assumes "layout (disk s)" and "same_header (disk s) (disk s')"
    and "\<And>x. bbm (disk s) \<le> x \<Longrightarrow> x < bbm (disk s) + 128 \<Longrightarrow> disk s' x = disk s x"
  shows "free_block (disk s') = free_block (disk s)"
    and "\<forall>j < n_blocks (disk s). j \<in> used_bits (disk s') (bbm (disk s)) \<longleftrightarrow> j \<in> used_bits (disk s) (bbm (disk s))"
proof -
  show "free_block (disk s') = free_block (disk s)" by (rule free_block_cong [OF assms])
  show "\<forall>j < n_blocks (disk s). j \<in> used_bits (disk s') (bbm (disk s)) \<longleftrightarrow> j \<in> used_bits (disk s) (bbm (disk s))"
    using used_bits_cong [of "bbm (disk s)" "disk s'" "disk s", OF assms(3)] layout_bounds(1) [OF assms(1)] by blast
qed

text \<open>The steps up to \<open>copy\<close>: the inode, the name, the mode and the link.\<close>

definition file_made :: "fs \<Rightarrow> fs \<Rightarrow> nat \<Rightarrow> cstr \<Rightarrow> nat \<Rightarrow> bool" where
  "file_made s s' p f i \<longleftrightarrow> fs_wf s' \<and> dirs s' = dirs s \<and> same_header (disk s) (disk s') \<and>
     (\<forall>j t. lookup s' j t = (if j = p \<and> t = f then Some i else lookup s j t)) \<and>
     rd 2 (disk s') (inode_addr (disk s) i + i_mode) = EXT2_S_IFREG \<and>
     rd 2 (disk s') (inode_addr (disk s) i + i_links_count) =
       (rd 2 (disk s) (inode_addr (disk s) i + i_links_count) + 1) mod 2 ^ 16"

lemma make_file_effect:
  assumes wf: "fs_wf s" and a: "dir_addr s p = Some a" and f: "length f < 256" "lookup s p f = None"
    and room: "has_room_in (disk s) a f EXT2_FT_REG_FILE" and i: "free_inode (disk s) = Some i"
  obtains s1 s2 s3 where "find_free_inode s = Ok (i + 1, s1)"
    and "create_link p (i + 1) f EXT2_FT_REG_FILE s1 = Ok (1, s2)"
    and "allocate (i + 1) 2 EXT2_S_IFREG None s2 = Ok s3" and "file_made s s3 p f (i + 1)"
    and "free_block (disk s3) = free_block (disk s)"
    and "\<forall>j < n_blocks (disk s). j \<in> used_bits (disk s3) (bbm (disk s)) \<longleftrightarrow> j \<in> used_bits (disk s) (bbm (disk s))"
    and "rd 4 (disk s3) (inode_addr (disk s) (i + 1) + i_blocks) = rd 4 (disk s) (inode_addr (disk s) (i + 1) + i_blocks)"
proof -
  have l: "layout (disk s)" using wf by (simp add: fs_wf_def)
  note L = layout_bounds [OF l]
  have i1: "0 < i + 1" "i + 1 \<le> n_inodes (disk s)" using i by (auto simp: free_inode_Some)
  let ?a = "inode_addr (disk s) (i + 1)"
  note bd = layout_inode [OF l i1] inode_addr_bounds [OF l i1]
  obtain s1 where s1: "find_free_inode s = Ok (i + 1, s1)"
    "quiet ({x. x < ibm (disk s) \<and> x \<noteq> 2062 \<and> x \<noteq> 2063} \<union> {x. ibm (disk s) + 128 \<le> x}) s s1"
    by (rule take_inode_quiet [OF wf i])
  note h1 = quiet_header [OF s1(2)]
  have same1: "disk s1 x = disk s x" if "2080 \<le> x \<and> x < ibm (disk s) \<or> ibm (disk s) + 128 \<le> x" for x
    using s1(2) that by (auto simp: quiet_def)
  have d1: "dirs s1 = dirs s" "\<And>j t. lookup s1 j t = lookup s j t" "fs_wf s1" using s1(2) by (auto simp: quiet_def)
  obtain b where b: "b \<in> set (dirs s)" "a = block_addr b" using dir_addr_Some [OF a] by blast
  then have start: "data_start (disk s) \<le> a" and okb: "block_ok (disk s) a" using wf by (auto simp: fs_wf_def dirs_ok_def)
  have "keeps_dirs s s1"
  proof (rule data_same_keeps [of "{}"])
    show "data_same {} s s1" using s1(2) L same1 by (auto simp: data_same_def quiet_def)
  qed (use wf in \<open>auto simp: fs_wf_def\<close>)
  then have a1: "dir_addr s1 p = Some a" using a keeps_dirs_lookup(3) by simp
  have room1: "has_room_in (disk s1) a f EXT2_FT_REG_FILE"
    by (rule has_room_in_cong [OF okb same1 room]) (use start L in auto)
  have none1: "lookup s1 p f = None" using f(2) d1(2) by simp
  obtain s2 where s2: "create_link p (i + 1) f EXT2_FT_REG_FILE s1 = Ok (1, s2)" "fs_wf s2" "dirs s2 = dirs s1"
    "same_header (disk s1) (disk s2)" "\<And>x. x < data_start (disk s1) \<Longrightarrow> disk s2 x = disk s1 x"
    "\<And>j t. lookup s2 j t = (if j = p \<and> t = f then Some (i + 1) else lookup s1 j t)"
    by (rule create_link_wf [OF d1(3) a1 f(1) _ bd(3) none1 room1]) (simp_all add: ext2_types)
  have h2: "n_inodes (disk s2) = n_inodes (disk s)" "inode_addr (disk s2) (i + 1) = ?a" "layout (disk s2)"
    using s2(2,4) h1 by (auto simp: same_header_def inode_addr_def fs_wf_def)
  define s3 where "s3 = s2\<lparr>disk := reg_inode ?a (disk s2)\<rparr>"
  have al: "allocate (i + 1) 2 EXT2_S_IFREG None s2 = Ok s3"
    using allocate_reg_eq [OF h2(3) i1(1)] i1(2) h2 by (simp add: s3_def)
  have "same_but (link_bytes (disk s2) (i + 1)) s2 s3" using reg_inode_same_but [of s2 "i + 1"] h2 by (simp add: s3_def)
  note w = same_but_wf [OF s2(2) i1(1) _ this]
  have hd: "same_header (disk s) (disk s3)"
    using same_header_trans s1(2) s2(4) w(4) i1 h2 unfolding quiet_def by metis
  have same2: "disk s2 x = disk s x" if "2080 \<le> x \<and> x < ibm (disk s) \<or> ibm (disk s) + 128 \<le> x" "x < data_start (disk s)" for x
    using same1 [OF that(1)] s2(5) that(2) h1 by simp
  have links: "rd 2 (disk s2) (?a + i_links_count) = rd 2 (disk s) (?a + i_links_count)"
    by (rule rd_cong, rule same2) (use bd L in \<open>auto simp: inode_fields\<close>)
  have made: "file_made s s3 p f (i + 1)"
    unfolding file_made_def using w i1 h2 s2(3,6) d1 hd links reg_inode_fields [of ?a "disk s2"] by (auto simp: s3_def)
  have bm: "disk s3 x = disk s x" if "bbm (disk s) \<le> x" "x < bbm (disk s) + 128" for x
  proof -
    have "disk s3 x = disk s2 x" unfolding s3_def using that bd by (auto intro!: reg_inode_other)
    also have "\<dots> = disk s x" by (rule same2) (use that L in auto)
    finally show ?thesis .
  qed
  have "rd 4 (disk s3) (?a + i_blocks) = rd 4 (disk s2) (?a + i_blocks)"
    by (simp add: s3_def reg_inode_def bump_links_def rd_wr_other inode_fields)
  also have "\<dots> = rd 4 (disk s) (?a + i_blocks)"
    by (rule rd_cong, rule same2) (use bd L in \<open>auto simp: inode_fields\<close>)
  finally show ?thesis using that [OF s1(1) s2(1) al made] same_bitmap [OF l hd bm] by simp
qed

text \<open>The path of the new file: the components of the directory's path and the name.\<close>

lemma tokens_target: "f \<noteq> [] \<Longrightarrow> slash \<notin> set f \<Longrightarrow> tokens (path @ [slash] @ f) = tokens path @ [f]"
  using tokens_append_slash [of path f] by (simp add: tokens_component)

lemma cp_parent:
  assumes ok: "dirs_ok s" and path: "0 \<notin> set path" "distinct (tokens path)" and p: "resolve s 2 (tokens path) = Some p"
  shows "(if length (tokens path) = 0 then Ok 2
    else res_bind (name_at (tokens path) (length (tokens path) - 1)) (\<lambda>d. traverse 2 (tokens path) d s)) = Ok p"
proof (cases "tokens path" rule: rev_cases)
  case Nil
  then show ?thesis using p by simp
next
  case (snoc qs d)
  then have "traverse 2 (tokens path) d s = Ok p"
    using traverse_path [OF ok path(1) snoc, of 2] path(2) p by simp
  then show ?thesis using name_at_last [OF snoc] snoc by simp
qed


definition hi_env :: cenv where
  "hi_env = \<lparr>image = (\<lambda>_. None), host = (\<lambda>_. Some [104, 105]), now = 0, malloc_ok = True\<rparr>"

lemma hi_stored: "stored (replicate 1024 0) [104, 105] = [104, 105]" "0 \<in> set (refill (replicate 1024 0) [104, 105])"
proof -
  have "refill (replicate 1024 0) [104, 105] = [104, 105] @ 0 # replicate 1021 0"
    using replicate_Suc [of 1021 "0 :: byte"] by (simp add: refill_def drop_replicate)
  then show "stored (replicate 1024 0) [104, 105] = [104, 105]" "0 \<in> set (refill (replicate 1024 0) [104, 105])"
    by (simp_all add: stored_def)
qed


end
