(* ===== verification/Spec2Isabelle.thy ===== *)
theory Spec2Isabelle
  imports PtPrint OptRun InterceptCmds InterceptTestRun MatMain TraceProgs Ext2Image Ext2Tree Ext2Cp
begin

text \<open>
  A verification library for the three CSC369 assignments in \<open>src/\<close>: a system call interceptor
  (Assignment1), a paging simulator with its trace programs (Assignment2) and tools for ext2 disk
  images (Assignment3).  Each is a program of its own; they share the vocabulary of \<open>Prelude\<close>:
  faults, results \<open>'a res\<close> (\<open>Inl\<close> of a fault or \<open>Inr\<close> of a value) and byte memory.  Undefined
  behaviour that the code can reach (a bad index, a null pointer, freed memory) is a fault, never a
  made-up value.

  The paging simulator.  \<open>Bitmap\<close> and \<open>Swap\<close> model \<open>swap.c\<close>: the bitmap of swap slots and the
  swap file over POSIX reads and writes.  \<open>PageTable\<close> models \<open>pagetable.c\<close>; a second-level table is
  the byte memory of its block, because \<open>find_physpage\<close> uses the directory entry without masking
  its tag and so works one byte off.  \<open>MemInv\<close>, \<open>PtInit\<close> and \<open>Paging\<close> hold the invariant that
  page tables and coremap agree, and the locales \<open>replacement\<close> and \<open>live_replacement\<close>: what the
  pager needs of a replacement algorithm, with its lemmas proved once.  \<open>Fifo\<close>, \<open>RandPol\<close>,
  \<open>Clock\<close>, \<open>Lru\<close> and \<open>Opt\<close> model the algorithms (\<open>fifo.c\<close>, \<open>rand.c\<close>, \<open>clock.c\<close>, \<open>lru.c\<close>,
  \<open>opt.c\<close>); the first three interpret \<open>live_replacement\<close>.  \<open>Trace\<close> and \<open>Sim\<close> model \<open>sim.c\<close>: the
  reading of the trace file, \<open>access_mem\<close>, \<open>replay_trace\<close> and \<open>main\<close>; \<open>Start\<close> and \<open>SimRun\<close> prove
  whole runs correct, and \<open>OptRun\<close> those with \<open>opt\<close>, which depend on how it reads the trace ahead;
  \<open>PtPrint\<close> models the printers of \<open>pagetable.c\<close> and, with the locale
  \<open>quiet_replacement\<close> for what algorithms leave alone in the tables, proves what they print after a run.

  The matrix programs.  \<open>MatMul\<close> models the products and conversions of \<open>matmul.c\<close> and
  \<open>blocked.c\<close>, for any arithmetic on the elements, and proves the blocked product equal to the
  standard one; \<open>MatMain\<close> models the main functions, with \<open>strtol\<close>, \<open>malloc\<close> and the random numbers, and
  proves that both programs print the same matrix.  \<open>TraceProgs\<close> models the other two traced programs,
  \<open>simpleloop.c\<close> and \<open>fourDimArr.c\<close>, on a heap of blocks: the first frees what it allocates, the second
  fills its array of arrays.

  The interceptor.  \<open>Intercept\<close> models \<open>interceptor.c\<close> with the kernel as a record of parameters;
  \<open>InterceptProps\<close> proves the invariant of its tables and locks and what each command does;
  \<open>InterceptConc\<close> models concurrent callers as interleaved instruction lists, with a step relation
  and its reachable states, and shows races and deadlocks; \<open>InterceptCmds\<close> relates the lists to the
  commands and proves what every interleaving of all commands keeps.  \<open>InterceptTest\<close> models the test
  programs \<open>test_full.c\<close> and \<open>test_intercept.c\<close> on a machine with processes, a kernel log and the system
  call table, and \<open>InterceptTestRun\<close> proves that the module passes them.

  The ext2 tools.  \<open>Ext2Disk\<close> is the image as byte memory with the structures of \<open>ext2.h\<close>, and the
  state of \<open>helper.c\<close>: image, \<open>dirs\<close>, \<open>inum\<close>.  \<open>Ext2Path\<close> models \<open>str_helper.c\<close>; \<open>Ext2Alloc\<close> and
  \<open>Ext2Dir\<close> model \<open>helper.c\<close>: opening the image, the searches for free blocks and inodes, the loops
  over directory entries, \<open>create_link\<close>, \<open>allocate\<close>, \<open>remove_link\<close>, \<open>traverse\<close>.  \<open>Ext2Cmds\<close>
  (\<open>mkdir\<close>, \<open>ls\<close>, \<open>rm\<close>) and \<open>Ext2Cmds2\<close> (\<open>ln\<close>, \<open>cp\<close>, \<open>rm -r\<close>) model the main functions from the
  argument vector to the exit status, the messages and the image.  On top of them: \<open>Ext2Bits\<close> has
  the bitmaps as sets and shows that both searches satisfy the contract \<open>slot_allocator\<close> which
  \<open>Bitmap\<close> states for the swap slots; \<open>Ext2WF\<close> defines well-formed directories and the lookup in
  the tree they describe, \<open>Ext2Link\<close> proves what a new entry does to it, \<open>Ext2Mkdir\<close> what a new
  directory does; \<open>Ext2Sample\<close> is a small image for the witnesses.  The properties are in \<open>Ext2Props\<close>
  (paths, new entries, \<open>mkdir\<close>), \<open>Ext2Remove\<close> (what \<open>remove_link\<close> frees), \<open>Ext2Unlink\<close> (\<open>rm\<close>, by
  the lemmas on new entries read backwards), \<open>Ext2List\<close> (\<open>ls\<close>), \<open>Ext2Ln\<close> (hard links) and
  \<open>Ext2Cp\<close> (files of at most one block).  \<open>Ext2Image\<close> models \<open>readImage.c\<close>, its output as the list of
  its calls of \<open>printf\<close>, and proves that it prints what \<open>init\<close> finds.  \<open>Ext2Tree\<close> proves that \<open>rm -r\<close>
  removes the entries of a tree and no others, by induction on the tree: its relation \<open>removed\<close> says
  how the image differs after some entries are gone, and composes along the recursion.

  Bounds and fuel.  Only \<open>rm -r\<close> has fuel (\<open>rm_run\<close>): it changes the directories that it walks, so
  its recursion is not bounded by the image; \<open>Out_of_fuel\<close> is no behaviour of the code, and \<open>Ext2Tree\<close>
  proves that \<open>fuel_for t\<close> is enough for the tree \<open>t\<close>.  Recursions that may not end are
  \<open>partial_function (option)\<close> or detect the repeated state and return the fault \<open>Diverges\<close>; the run
  theorems prove that a result is returned.  Sizes assumed by the run theorems: at most \<open>2 ^ 20\<close>
  frames and \<open>2 ^ 27\<close> swap slots (so that frame numbers and swap offsets fit the code's fields) and
  addresses below \<open>2 ^ 36\<close> (beyond them the directory index is out of range).  The theorems on ext2
  images assume \<open>layout\<close>: at most 1024 inodes and blocks, and super block, group descriptor, bitmaps,
  inode table and data in this order within the 128 KiB that are mapped.

  Not modelled: option parsing with \<open>getopt\<close>, the layout of the simulator's report (a run returns the
  numbers it prints), the trace scripts, and the elapsed times and
  marker addresses that the trace programs print.  Of the ext2 tools:
  the debug output of \<open>remove_r\<close>; the memory for the single
  names of a path, which is taken to be granted; the array for the path in \<open>ext2_ls.c\<close>, which is one
  byte too short.  The mapping is page aligned, so positions are offsets in the image; products of
  block numbers wrap at 32 bits, also where the code's type is signed.
\<close>

end
